(* ===== verification/Unp_Prelude.thy ===== *)
theory Unp_Prelude
  imports Main "HOL-Library.Word" "HOL-Library.Sublist" "HOL-Library.Multiset"
begin

text \<open>
  Shared vocabulary of the development: named theorem collections, the C library's
  character and number conversions the sources call (\<open>strchr\<close>, \<open>isdigit\<close>, the
  \<open>%d\<close>/\<open>%u\<close>/\<open>%x\<close> conversions of \<open>printf\<close>, \<open>strtoul\<close>, \<open>atoi\<close>), byte order
  (\<open>htons\<close>), and the list lemmas the components share.

  A C string is modelled by the list of its characters before the terminating NUL; a
  byte buffer by a list of characters or of \<open>8 word\<close>s.  The numeric constants are
  those of the configuration committed with the sources (\<open>src/Lab2017/config.h\<close>:
  i386-apple-darwin16, little endian, IPv4, IPv6 and Unix domain sockets).
\<close>

named_theorems numconv \<comment> \<open>printing and reading numbers\<close>

subsection \<open>Constants of the platform headers\<close>

definition AF_UNSPEC :: int where "AF_UNSPEC = 0"
definition AF_UNIX :: int where "AF_UNIX = 1"
definition AF_INET :: int where "AF_INET = 2"
definition AF_LINK :: int where "AF_LINK = 18"
definition AF_INET6 :: int where "AF_INET6 = 30"

definition SOCK_STREAM :: int where "SOCK_STREAM = 1"
definition SOCK_DGRAM :: int where "SOCK_DGRAM = 2"
definition SOCK_RAW :: int where "SOCK_RAW = 3"

definition IPPROTO_IP :: int where "IPPROTO_IP = 0"
definition IPPROTO_TCP :: int where "IPPROTO_TCP = 6"
definition IPPROTO_IPV6 :: int where "IPPROTO_IPV6 = 41"

definition SOL_SOCKET :: int where "SOL_SOCKET = 0xffff"
definition SO_REUSEADDR :: int where "SO_REUSEADDR = 4"
definition SO_ERROR :: int where "SO_ERROR = 0x1007"
definition SO_SNDBUF :: int where "SO_SNDBUF = 0x1001"
definition SO_RCVBUF :: int where "SO_RCVBUF = 0x1002"

definition F_GETFL :: int where "F_GETFL = 3"
definition F_SETFL :: int where "F_SETFL = 4"
definition O_NONBLOCK :: int where "O_NONBLOCK = 4"

definition EINTR :: int where "EINTR = 4"
definition ECHILD :: int where "ECHILD = 10"
definition EINVAL :: int where "EINVAL = 22"
definition ENOSPC :: int where "ENOSPC = 28"
definition EWOULDBLOCK :: int where "EWOULDBLOCK = 35"
definition EINPROGRESS :: int where "EINPROGRESS = 36"
definition EAFNOSUPPORT :: int where "EAFNOSUPPORT = 47"
definition ECONNABORTED :: int where "ECONNABORTED = 53"
definition ECONNRESET :: int where "ECONNRESET = 54"
definition ETIMEDOUT :: int where "ETIMEDOUT = 60"
definition EPROTO :: int where "EPROTO = 100"

lemmas af_defs = AF_UNSPEC_def AF_UNIX_def AF_INET_def AF_LINK_def AF_INET6_def
lemmas sock_defs = SOCK_STREAM_def SOCK_DGRAM_def SOCK_RAW_def
lemmas errno_defs = EINTR_def ECHILD_def EINVAL_def ENOSPC_def EWOULDBLOCK_def
  EINPROGRESS_def EAFNOSUPPORT_def ECONNABORTED_def ECONNRESET_def ETIMEDOUT_def EPROTO_def

definition MAXLINE :: nat where "MAXLINE = 4096"
definition LISTENQ :: int where "LISTENQ = 1024"
definition STDIN_FILENO :: int where "STDIN_FILENO = 0"
definition STDOUT_FILENO :: int where "STDOUT_FILENO = 1"
definition STDERR_FILENO :: int where "STDERR_FILENO = 2"

subsection \<open>Characters\<close>

text \<open>\<open>strchr(s, c)\<close> for a character other than NUL: the offset of the first occurrence.\<close>

fun strchr :: "string \<Rightarrow> char \<Rightarrow> nat option" where
  "strchr [] c = None"
| "strchr (x # xs) c = (if x = c then Some 0 else map_option Suc (strchr xs c))"

definition isdigit :: "char \<Rightarrow> bool" where
  "isdigit c \<longleftrightarrow> c \<in> set ''0123456789''"

definition isxdigit :: "char \<Rightarrow> bool" where
  "isxdigit c \<longleftrightarrow> c \<in> set ''0123456789abcdefABCDEF''"

definition FD_SETSIZE :: nat where "FD_SETSIZE = 1024"
definition newline :: char where "newline = CHR 0x0A"
definition carriage_return :: char where "carriage_return = CHR 0x0D"

definition isspace :: "char \<Rightarrow> bool" where
  "isspace c \<longleftrightarrow> c \<in> {CHR '' '', CHR 0x09, CHR 0x0A, CHR 0x0B, CHR 0x0C, CHR 0x0D}"

text \<open>The characters of a buffer before the first NUL (what \<open>strlen\<close>, \<open>strcpy\<close> see).\<close>

definition c_string :: "string \<Rightarrow> string" where
  "c_string = takeWhile (\<lambda>c. c \<noteq> CHR 0x00)"

lemma strchr_None [simp]: "strchr xs c = None \<longleftrightarrow> c \<notin> set xs"
  by (induction xs) auto

lemma strchr_Some_iff: "(\<exists>i. strchr xs c = Some i) \<longleftrightarrow> c \<in> set xs"
  by (induction xs) auto

lemma strchr_nth: "strchr xs c = Some i \<Longrightarrow> i < length xs \<and> xs ! i = c"
  by (induction xs arbitrary: i) (auto split: if_splits)

lemma c_string_id [simp]: "CHR 0x00 \<notin> set s \<Longrightarrow> c_string s = s"
  unfolding c_string_def by (rule takeWhile_eq_all_conv [THEN iffD2]) auto

lemma c_string_no_nul [simp]: "CHR 0x00 \<notin> set (c_string s)"
  unfolding c_string_def using set_takeWhileD by fastforce

lemma length_c_string: "length (c_string s) \<le> length s"
  by (simp add: c_string_def length_takeWhile_le)

subsection \<open>Printing numbers\<close>

definition digits10 :: string where "digits10 = ''0123456789''"
definition digits16 :: string where "digits16 = ''0123456789abcdef''"

text \<open>The \<open>%u\<close> conversion (and \<open>%d\<close> of a non-negative argument).\<close>

fun dec :: "nat \<Rightarrow> string" where
  "dec n = (if n < 10 then [digits10 ! n] else dec (n div 10) @ [digits10 ! (n mod 10)])"

text \<open>The \<open>%x\<close> conversion.\<close>

fun hexs :: "nat \<Rightarrow> string" where
  "hexs n = (if n < 16 then [digits16 ! n] else hexs (n div 16) @ [digits16 ! (n mod 16)])"

declare dec.simps [simp del] hexs.simps [simp del]

definition dec_int :: "int \<Rightarrow> string" where
  "dec_int i = (if i < 0 then CHR ''-'' # dec (nat (- i)) else dec (nat i))"

lemma less_10_cases:
  "d < 10 \<Longrightarrow> d = 0 \<or> d = 1 \<or> d = 2 \<or> d = 3 \<or> d = 4 \<or> d = 5 \<or> d = 6 \<or> d = 7 \<or> d = 8 \<or> d = 9"
  for d :: nat
  by presburger

lemma less_16_cases:
  "d < 16 \<Longrightarrow> d = 0 \<or> d = 1 \<or> d = 2 \<or> d = 3 \<or> d = 4 \<or> d = 5 \<or> d = 6 \<or> d = 7 \<or> d = 8 \<or>
    d = 9 \<or> d = 10 \<or> d = 11 \<or> d = 12 \<or> d = 13 \<or> d = 14 \<or> d = 15" for d :: nat
  by presburger

lemma digits10_strchr [numconv]: "d < 10 \<Longrightarrow> strchr ''0123456789'' (digits10 ! d) = Some d"
  by (drule less_10_cases, elim disjE) (simp_all add: digits10_def)

lemma digits16_strchr [numconv]:
  "d < 16 \<Longrightarrow> strchr ''0123456789abcdef'' (digits16 ! d) = Some d"
  by (drule less_16_cases, elim disjE) (simp_all add: digits16_def)

lemma digits10_isdigit [numconv]: "d < 10 \<Longrightarrow> isdigit (digits10 ! d)"
  by (drule less_10_cases, elim disjE) (simp_all add: digits10_def isdigit_def)

lemma dec_ne [simp]: "dec n \<noteq> []"
  by (subst dec.simps) simp

lemma hexs_ne [simp]: "hexs n \<noteq> []"
  by (subst hexs.simps) simp

lemma dec_isdigit: "c \<in> set (dec n) \<Longrightarrow> isdigit c"
proof (induction n rule: dec.induct)
  case (1 n)
  show ?case
  proof (cases "n < 10")
    case True
    with "1.prems" show ?thesis by (subst (asm) dec.simps) (simp add: numconv)
  next
    case False
    with 1 show ?thesis by (subst (asm) (2) dec.simps) (auto simp: numconv)
  qed
qed

lemma length_dec_3: "n < 1000 \<Longrightarrow> length (dec n) \<le> 3"
  by (subst dec.simps, subst dec.simps, subst dec.simps) simp

lemma length_dec_5: "n < 100000 \<Longrightarrow> length (dec n) \<le> 5"
  by (subst dec.simps, subst dec.simps, subst dec.simps, subst dec.simps, subst dec.simps)
    (simp add: div_mult2_eq [symmetric])

lemma length_hexs_4: "n < 65536 \<Longrightarrow> length (hexs n) \<le> 4"
  by (subst hexs.simps, subst hexs.simps, subst hexs.simps, subst hexs.simps)
    (simp add: div_mult2_eq [symmetric])

subsection \<open>Reading numbers\<close>

text \<open>
  \<open>strtoul(s, NULL, 10)\<close> on a 64-bit \<open>unsigned long\<close>: optional white space, an optional
  sign, then decimal digits; an overflow gives \<open>ULONG_MAX\<close>, a minus sign negates
  modulo \<open>2 ^ 64\<close>.  \<open>atoi\<close> is \<open>(int) strtol(s, NULL, 10)\<close>.  C leaves it undefined when the
  number does not fit an \<open>int\<close>; the model gives the number itself, which the callers cut to the
  width of the variable they store it in (\<open>of_int\<close>), as if \<open>atoi\<close> wrapped modulo \<open>2 ^ 32\<close>.
\<close>

definition digit_value :: "char \<Rightarrow> nat" where
  "digit_value c = (case strchr ''0123456789'' c of None \<Rightarrow> 0 | Some d \<Rightarrow> d)"

definition decimal :: "string \<Rightarrow> nat" where
  "decimal s = foldl (\<lambda>acc c. acc * 10 + digit_value c) 0 (takeWhile isdigit s)"

definition strtoul10 :: "string \<Rightarrow> 64 word" where
  "strtoul10 s =
     (case dropWhile isspace s of
        [] \<Rightarrow> 0
      | c # cs \<Rightarrow>
          (let neg = (c = CHR ''-'');
               body = (if c = CHR ''-'' \<or> c = CHR ''+'' then cs else c # cs);
               v = decimal body
           in if 2 ^ 64 \<le> v then - 1 else if neg then - of_nat v else of_nat v))"

definition atoi :: "string \<Rightarrow> int" where
  "atoi s =
     (case dropWhile isspace s of
        [] \<Rightarrow> 0
      | c # cs \<Rightarrow>
          (if c = CHR ''-'' then - int (decimal cs)
           else if c = CHR ''+'' then int (decimal cs)
           else int (decimal (c # cs))))"

lemma digit_value_digits10 [simp, numconv]: "d < 10 \<Longrightarrow> digit_value (digits10 ! d) = d"
  by (simp only: digit_value_def digits10_strchr option.case)

lemma foldl_dec [numconv]: "foldl (\<lambda>acc c. acc * 10 + digit_value c) 0 (dec n) = n"
proof (induction n rule: dec.induct)
  case (1 n)
  show ?case
  proof (cases "n < 10")
    case True
    then show ?thesis by (subst dec.simps) simp
  next
    case False
    with 1 show ?thesis by (subst dec.simps) simp
  qed
qed

lemma decimal_dec [simp, numconv]: "decimal (dec n) = n"
proof -
  have "takeWhile isdigit (dec n) = dec n"
    by (rule takeWhile_eq_all_conv [THEN iffD2]) (simp add: dec_isdigit)
  then show ?thesis by (simp only: decimal_def foldl_dec)
qed

lemma atoi_dec_line: "s = [] \<or> \<not> isdigit (hd s) \<Longrightarrow> atoi (dec n @ s) = int n"
proof -
  assume s: "s = [] \<or> \<not> isdigit (hd s)"
  obtain c cs where d: "dec n = c # cs" by (cases "dec n") auto
  have "isdigit c" using dec_isdigit [of c n] by (simp add: d)
  then have c: "\<not> isspace c" "c \<noteq> CHR ''-''" "c \<noteq> CHR ''+''"
    by (auto simp: isdigit_def isspace_def)
  have all: "\<forall>c \<in> set (dec n). isdigit c" by (simp add: dec_isdigit)
  have tw: "takeWhile isdigit (dec n) = dec n"
    by (rule takeWhile_eq_all_conv [THEN iffD2]) (rule all)
  have "takeWhile isdigit s = []" using s by (cases s) simp_all
  then have "takeWhile isdigit (dec n @ s) = dec n @ []"
    using takeWhile_append2 [of "dec n" isdigit s] all by (metis)
  then have "takeWhile isdigit (dec n @ s) = takeWhile isdigit (dec n)"
    by (simp only: tw append_Nil2)
  then have "decimal (dec n @ s) = n"
    using decimal_dec [of n] by (simp add: decimal_def)
  then show ?thesis using c by (simp add: atoi_def d)
qed

lemma atoi_dec: "atoi (dec n) = int n"
  using atoi_dec_line [of "[]" n] by simp

text \<open>The conversion of a \<open>long\<close>, and of what \<open>atol\<close> reads, to an \<open>int\<close>.\<close>

definition to_int :: "int \<Rightarrow> int" where
  "to_int v = sint (of_int v :: 32 word)"

lemma to_int_id: "- 2147483648 \<le> v \<Longrightarrow> v < 2147483648 \<Longrightarrow> to_int v = v"
  by (simp add: to_int_def signed_of_int signed_take_bit_int_eq_self)

subsection \<open>Byte order\<close>

text \<open>
  \<open>htons\<close> and \<open>ntohs\<close> on a little-endian machine: the two bytes are swapped.
\<close>

definition lo_byte :: "16 word \<Rightarrow> 8 word" where "lo_byte w = ucast w"
definition hi_byte :: "16 word \<Rightarrow> 8 word" where "hi_byte w = ucast (drop_bit 8 w)"
definition mk_word16 :: "8 word \<Rightarrow> 8 word \<Rightarrow> 16 word" where
  \<comment> \<open>high byte first\<close>
  "mk_word16 h l = of_nat (256 * unat h + unat l)"

definition htons :: "16 word \<Rightarrow> 16 word" where
  "htons w = mk_word16 (lo_byte w) (hi_byte w)"

definition ntohs :: "16 word \<Rightarrow> 16 word" where
  "ntohs w = htons w"

lemma unat_byte [simp]: "unat (b :: 8 word) < 256"
  using unsigned_less [of b] by simp

lemma unat_word16 [simp]: "unat (w :: 16 word) < 65536"
  using unsigned_less [of w] by simp

lemma unat_lo_byte: "unat (lo_byte w) = unat w mod 256"
  by (simp add: lo_byte_def unsigned_ucast_eq take_bit_eq_mod)

lemma unat_hi_byte: "unat (hi_byte w) = unat w div 256"
proof -
  have "unat w div 256 < 256" using unat_word16 [of w] by linarith
  then show ?thesis
    by (simp add: hi_byte_def unsigned_ucast_eq take_bit_eq_mod drop_bit_eq_div unat_div_distrib)
qed

lemma unat_mk_word16: "unat (mk_word16 h l) = 256 * unat h + unat l"
proof -
  have "256 * unat h + unat l < 65536" using unat_byte [of h] unat_byte [of l] by linarith
  then show ?thesis by (simp only: mk_word16_def unat_of_nat) simp
qed

lemma lo_byte_mk_word16 [simp]: "lo_byte (mk_word16 h l) = l"
  by (rule word_unat_eq_iff [THEN iffD2]) (simp add: unat_lo_byte unat_mk_word16)

lemma hi_byte_mk_word16 [simp]: "hi_byte (mk_word16 h l) = h"
  by (rule word_unat_eq_iff [THEN iffD2]) (simp add: unat_hi_byte unat_mk_word16)

lemma mk_word16_bytes [simp]: "mk_word16 (hi_byte w) (lo_byte w) = w"
  by (rule word_unat_eq_iff [THEN iffD2])
    (simp add: unat_mk_word16 unat_lo_byte unat_hi_byte)

lemma htons_htons [simp]: "htons (htons w) = w"
  by (simp add: htons_def)

lemma ntohs_htons [simp]: "ntohs (htons w) = w" and htons_ntohs [simp]: "htons (ntohs w) = w"
  by (simp_all add: ntohs_def)

lemma htons_0 [simp]: "htons w = 0 \<longleftrightarrow> w = 0"
proof
  assume "htons w = 0"
  then have "htons (htons w) = htons 0" by simp
  also have "htons 0 = 0" by (simp add: htons_def mk_word16_def lo_byte_def hi_byte_def)
  finally show "w = 0" by simp
qed (simp add: htons_def mk_word16_def lo_byte_def hi_byte_def)

lemma ntohs_0 [simp]: "ntohs w = 0 \<longleftrightarrow> w = 0"
  by (simp add: ntohs_def)

subsection \<open>Lists\<close>

lemma list_eq_take_drop_nth: "i < length xs \<Longrightarrow> xs = take i xs @ xs ! i # drop (Suc i) xs"
  by (rule id_take_nth_drop)

lemma length_4_exists: "length xs = 4 \<longleftrightarrow> (\<exists>a b c d. xs = [a, b, c, d])"
  by (auto simp: numeral_eq_Suc length_Suc_conv)

lemma length_8_exists:
  "length xs = 8 \<longleftrightarrow> (\<exists>a b c d e f g h. xs = [a, b, c, d, e, f, g, h])"
  by (auto simp: numeral_eq_Suc length_Suc_conv)

text \<open>A conversion with a minimum width, as \<open>%*s\<close> and \<open>%4d\<close>.\<close>

definition pad_left :: "nat \<Rightarrow> string \<Rightarrow> string" where
  "pad_left n s = replicate (n - length s) CHR '' '' @ s"

end
