(* ===== verification/Inet4.thy ===== *)
theory Inet4
  imports Unp_Prelude
begin

text \<open>
  IPv4 presentation format: \<open>inet_pton4\<close> and \<open>inet_ntop4\<close> of libfree/inet_pton.c and
  libfree/inet_ntop.c, \<open>inet_aton\<close> of libfree/inet_aton.c, and the IPv4-only
  \<open>inet_pton\<close>/\<open>inet_ntop\<close> of libfree/inet_pton_ipv4.c and libfree/inet_ntop_ipv4.c.
  An address is the list of its four bytes in network order.

  The scanner of \<open>inet_pton4\<close> is proved equal to a field-wise reference parser; the
  printer and the scanner are inverse; \<open>inet_aton\<close> agrees with \<open>inet_pton4\<close> wherever
  the latter accepts.
\<close>

unbundle bit_operations_syntax

subsection \<open>Scanner: \<open>inet_pton4\<close>\<close>

text \<open>
  The loop's variables: \<open>saw_digit\<close>, \<open>octets\<close>, the bytes of \<open>tmp\<close> before \<open>tp\<close> and the
  byte \<open>*tp\<close>.  The end of the list is the terminating NUL.  The code's return value 0 is
  \<open>None\<close>; the return value 1 comes with the four bytes copied to \<open>dst\<close>.
\<close>

fun pton4_loop ::
  "string \<Rightarrow> bool \<Rightarrow> nat \<Rightarrow> 8 word list \<Rightarrow> 8 word \<Rightarrow> 8 word list option" where
  "pton4_loop [] saw_digit octets before tp =
     (if octets < 4 then None else Some (take 4 (before @ [tp])))"
| "pton4_loop (ch # src) saw_digit octets before tp =
     (case strchr ''0123456789'' ch of
        Some d \<Rightarrow>
          (let new = unat tp * 10 + d in
           if 255 < new then None
           else if \<not> saw_digit then
             (if 4 < Suc octets then None
              else pton4_loop src True (Suc octets) before (of_nat new))
           else pton4_loop src saw_digit octets before (of_nat new))
      | None \<Rightarrow>
          (if ch = CHR ''.'' \<and> saw_digit then
             (if octets = 4 then None else pton4_loop src False octets (before @ [tp]) 0)
           else None))"

definition inet_pton4 :: "string \<Rightarrow> 8 word list option" where
  "inet_pton4 src = pton4_loop src False 0 [] 0"

subsection \<open>Printer: \<open>inet_ntop4\<close>\<close>

definition dotted :: "8 word list \<Rightarrow> string" where
  \<comment> \<open>\<open>sprintf\<close> with the format of \<open>inet_ntop4\<close>\<close>
  "dotted src =
     dec (unat (src ! 0)) @ CHR ''.'' # dec (unat (src ! 1)) @ CHR ''.'' #
     dec (unat (src ! 2)) @ CHR ''.'' # dec (unat (src ! 3))"

definition inet_ntop4 :: "8 word list \<Rightarrow> nat \<Rightarrow> int + string" where
  "inet_ntop4 src sz =
     (let tmp = dotted src
      in if sz < length tmp then Inl ENOSPC else Inr tmp)"

subsection \<open>\<open>inet_aton\<close> and the IPv4-only functions\<close>

text \<open>
  \<open>acc\<close> and \<open>addr\<close> are \<open>unsigned long\<close>s, 64 bits wide: the digits of one field wrap
  around, as no overflow is checked before the dot.
\<close>

fun aton_loop :: "string \<Rightarrow> nat \<Rightarrow> 64 word \<Rightarrow> 64 word \<Rightarrow> (nat \<times> 64 word) option" where
  "aton_loop [] dots acc addr =
     (if 255 < acc then None else Some (dots, push_bit 8 addr OR acc))"
| "aton_loop (cc # cp) dots acc addr =
     (if isdigit cc then aton_loop cp dots (acc * 10 + of_nat (digit_value cc)) addr
      else if cc = CHR ''.'' then
        (if 3 < Suc dots then None
         else if 255 < acc then None
         else aton_loop cp (Suc dots) 0 (push_bit 8 addr OR acc))
      else None)"

definition be_bytes4 :: "64 word \<Rightarrow> 8 word list" where
  \<comment> \<open>the bytes of \<open>htonl\<close> of the low 32 bits, in memory order\<close>
  "be_bytes4 a = [ucast (drop_bit 24 a), ucast (drop_bit 16 a), ucast (drop_bit 8 a), ucast a]"

definition inet_aton :: "string \<Rightarrow> 8 word list option" where
  "inet_aton cp =
     (case aton_loop cp 0 0 0 of
        None \<Rightarrow> None
      | Some (dots, addr) \<Rightarrow>
          Some (be_bytes4 (if dots < 3 then push_bit (8 * (3 - dots)) addr else addr)))"

text \<open>\<open>Inl errno\<close> is the return value -1, \<open>Inr None\<close> is 0, \<open>Inr (Some a)\<close> is 1.\<close>

definition inet_pton_v4only :: "int \<Rightarrow> string \<Rightarrow> int + 8 word list option" where
  "inet_pton_v4only family strptr =
     (if family = AF_INET then
        (case inet_aton strptr of Some in_val \<Rightarrow> Inr (Some in_val) | None \<Rightarrow> Inr None)
      else Inl EAFNOSUPPORT)"

definition inet_ntop_v4only :: "int \<Rightarrow> 8 word list \<Rightarrow> nat \<Rightarrow> int + string" where
  "inet_ntop_v4only family p len =
     (if family = AF_INET then
        (let temp = take 15 (dotted p) \<comment> \<open>\<open>snprintf\<close> into \<open>temp[INET_ADDRSTRLEN]\<close>\<close>
         in if len \<le> length temp then Inl ENOSPC else Inr temp)
      else Inl EAFNOSUPPORT)"

subsection \<open>The reference parser\<close>

fun split_dots :: "string \<Rightarrow> string list" where
  "split_dots [] = [[]]"
| "split_dots (c # cs) =
     (if c = CHR ''.'' then [] # split_dots cs
      else (case split_dots cs of f # fs \<Rightarrow> (c # f) # fs | [] \<Rightarrow> [[c]]))"

definition field_ok :: "string \<Rightarrow> bool" where
  "field_ok f \<longleftrightarrow> f \<noteq> [] \<and> list_all isdigit f \<and> decimal f \<le> 255"

definition quad_spec :: "string \<Rightarrow> 8 word list option" where
  "quad_spec s =
     (let fs = split_dots s
      in if length fs = 4 \<and> list_all field_ok fs then Some (map (\<lambda>f. of_nat (decimal f)) fs)
         else None)"

text \<open>The value of a field whose leading digits have already been read into \<open>acc\<close>.\<close>

definition field_from :: "nat \<Rightarrow> string \<Rightarrow> nat" where
  "field_from acc f = foldl (\<lambda>a c. a * 10 + digit_value c) acc f"

lemma field_from_simps [simp]:
  "field_from acc [] = acc"
  "field_from acc (c # f) = field_from (acc * 10 + digit_value c) f"
  by (simp_all add: field_from_def)

lemma field_from_ge: "acc \<le> field_from acc f"
proof (induction f arbitrary: acc)
  case (Cons c f)
  have "acc \<le> acc * 10 + digit_value c" by simp
  also have "\<dots> \<le> field_from (acc * 10 + digit_value c) f" by (rule Cons.IH)
  finally show ?case by simp
qed simp

lemma decimal_digits: "list_all isdigit f \<Longrightarrow> decimal f = field_from 0 f"
  unfolding decimal_def field_from_def
  by (metis list_all_iff takeWhile_eq_all_conv)

lemma split_dots_ne [simp]: "split_dots s \<noteq> []"
  by (induction s) (auto split: list.splits)

lemma isdigit_strchr: "isdigit c \<longleftrightarrow> strchr ''0123456789'' c = Some (digit_value c)"
proof
  assume "isdigit c"
  then have "\<exists>i. strchr ''0123456789'' c = Some i"
    by (subst strchr_Some_iff) (simp add: isdigit_def)
  then show "strchr ''0123456789'' c = Some (digit_value c)"
    by (auto simp only: digit_value_def option.case)
next
  assume "strchr ''0123456789'' c = Some (digit_value c)"
  then have "c \<in> set ''0123456789''" using strchr_Some_iff by blast
  then show "isdigit c" by (simp add: isdigit_def)
qed

lemma not_isdigit_strchr: "\<not> isdigit c \<longleftrightarrow> strchr ''0123456789'' c = None"
  by (simp only: isdigit_def strchr_None)

lemma isdigit_not_dot [simp]: "isdigit c \<Longrightarrow> c \<noteq> CHR ''.''"
  by (auto simp: isdigit_def)

lemma dot_not_isdigit [simp]: "\<not> isdigit (CHR ''.'')"
  by (simp add: isdigit_def)

lemma pton4_loop_digit:
  "isdigit ch \<Longrightarrow> pton4_loop (ch # src) saw octets before tp =
     (let new = unat tp * 10 + digit_value ch in
      if 255 < new then None
      else if \<not> saw then
        (if 4 < Suc octets then None else pton4_loop src True (Suc octets) before (of_nat new))
      else pton4_loop src saw octets before (of_nat new))"
  by (simp add: isdigit_strchr del: strchr.simps)

lemma pton4_loop_other:
  "\<not> isdigit ch \<Longrightarrow> pton4_loop (ch # src) saw octets before tp =
     (if ch = CHR ''.'' \<and> saw then
        (if octets = 4 then None else pton4_loop src False octets (before @ [tp]) 0)
      else None)"
  by (simp add: not_isdigit_strchr del: strchr.simps strchr_None)

lemma pton4_loop_dot:
  "pton4_loop (CHR ''.'' # src) saw octets before tp =
     (if saw \<and> octets \<noteq> 4 then pton4_loop src False octets (before @ [tp]) 0 else None)"
  by (subst pton4_loop_other) simp_all

declare pton4_loop.simps(2) [simp del]

lemma unat_of_nat_byte: "n \<le> 255 \<Longrightarrow> unat (of_nat n :: 8 word) = n"
  by (simp add: unat_of_nat)

lemma unat_byte_le [simp]: "unat (b :: 8 word) \<le> 255"
  using unat_byte [of b] by linarith

lemma pton4_loop_spec:
  assumes "octets = length before + (if saw then 1 else 0)" "length before \<le> 3"
    "saw \<or> tp = 0" "split_dots s = f # fs"
  shows "pton4_loop s saw octets before tp =
     (if length before + length (f # fs) = 4 \<and> (saw \<or> f \<noteq> []) \<and> list_all isdigit f
         \<and> field_from (unat tp) f \<le> 255 \<and> list_all field_ok fs
      then Some (before @ of_nat (field_from (unat tp) f) # map (\<lambda>f. of_nat (decimal f)) fs)
      else None)"
  using assms
proof (induction s arbitrary: saw octets before tp f fs)
  case Nil
  have "unat tp \<le> 255" using unat_byte [of tp] by linarith
  with Nil show ?case by auto
next
  case (Cons ch s)
  obtain g gs where g: "split_dots s = g # gs" by (cases "split_dots s") simp_all
  show ?case
  proof (cases "isdigit ch")
    case True
    with Cons.prems(4) g have f: "f = ch # g" "fs = gs" by (auto simp: isdigit_def)
    define new where "new = unat tp * 10 + digit_value ch"
    have "new \<le> field_from new g" by (rule field_from_ge)
    moreover have "4 < Suc octets \<longleftrightarrow> False" if "\<not> saw" using that Cons.prems by simp
    ultimately show ?thesis
      using True Cons.IH [OF _ Cons.prems(2) _ g, of _ True "of_nat new"] Cons.prems(1)
      by (cases "255 < new") (auto simp: pton4_loop_digit f new_def [symmetric] Let_def
          unat_of_nat_byte)
  next
    case other: False
    show ?thesis
    proof (cases "ch = CHR ''.''")
      case True
      with Cons.prems(4) g have f: "f = []" "fs = g # gs" by auto
      have ok: "field_ok g \<longleftrightarrow> g \<noteq> [] \<and> list_all isdigit g \<and> field_from 0 g \<le> 255"
        by (auto simp: field_ok_def decimal_digits)
      show ?thesis
        using True Cons.prems
          Cons.IH [of "Suc (length before)" "before @ [tp]" False 0 g gs, OF _ _ _ g]
        by (auto simp: pton4_loop_dot f ok decimal_digits)
    next
      case False
      with Cons.prems(4) g have "f = ch # g" by auto
      with False other show ?thesis by (simp add: pton4_loop_other)
    qed
  qed
qed

lemma inet_pton4_eq_spec: "inet_pton4 s = quad_spec s"
proof -
  obtain f fs where f: "split_dots s = f # fs" by (cases "split_dots s") simp_all
  have "field_ok f \<longleftrightarrow> f \<noteq> [] \<and> list_all isdigit f \<and> field_from 0 f \<le> 255"
    by (auto simp: field_ok_def decimal_digits)
  with pton4_loop_spec [of 0 "[]" False 0 s f fs] f show ?thesis
    by (auto simp: inet_pton4_def quad_spec_def Let_def decimal_digits)
qed

subsection \<open>Printing, then scanning\<close>

lemma split_dots_no_dot: "CHR ''.'' \<notin> set f \<Longrightarrow> split_dots f = [f]"
  by (induction f) auto

lemma split_dots_append: "CHR ''.'' \<notin> set f \<Longrightarrow> split_dots (f @ CHR ''.'' # s) = f # split_dots s"
  by (induction f) auto

lemma dec_no_dot [simp]: "CHR ''.'' \<notin> set (dec n)"
  using dec_isdigit dot_not_isdigit by blast

lemma field_ok_dec [simp]: "n \<le> 255 \<Longrightarrow> field_ok (dec n)"
  by (simp add: field_ok_def list_all_iff dec_isdigit)

lemma split_dots_dotted:
  "split_dots (dotted a) =
     [dec (unat (a ! 0)), dec (unat (a ! 1)), dec (unat (a ! 2)), dec (unat (a ! 3))]"
  by (simp add: dotted_def split_dots_append split_dots_no_dot)

lemma inet_pton4_dotted [simp]: "length a = 4 \<Longrightarrow> inet_pton4 (dotted a) = Some a"
  by (auto simp: inet_pton4_eq_spec quad_spec_def split_dots_dotted length_4_exists)

lemma length_dotted: "length (dotted a) \<le> 15"
proof -
  have "length (dec (unat (b :: 8 word))) \<le> 3" for b
    using unat_byte [of b] by (intro length_dec_3) linarith
  from this [of "a ! 0"] this [of "a ! 1"] this [of "a ! 2"] this [of "a ! 3"]
  show ?thesis by (simp add: dotted_def)
qed

lemma quad_spec_length: "quad_spec s = Some a \<Longrightarrow> length a = 4"
  by (auto simp: quad_spec_def Let_def split: if_splits)

lemma inet_pton4_length: "inet_pton4 s = Some a \<Longrightarrow> length a = 4"
  by (simp add: inet_pton4_eq_spec quad_spec_length)

lemma split_dots_chars: "c \<in> set s \<Longrightarrow> c \<noteq> CHR ''.'' \<Longrightarrow> \<exists>f \<in> set (split_dots s). c \<in> set f"
  by (induction s rule: split_dots.induct) (auto split: list.splits)

lemma inet_pton4_colon:
  assumes "CHR '':'' \<in> set s"
  shows "inet_pton4 s = None"
proof -
  obtain f where f: "f \<in> set (split_dots s)" "CHR '':'' \<in> set f"
    using split_dots_chars [OF assms] by auto
  have "\<not> isdigit (CHR '':'')" by (simp add: isdigit_def)
  with f(2) have "\<not> field_ok f" by (auto simp: field_ok_def list_all_iff)
  with f(1) have "\<not> list_all field_ok (split_dots s)" by (auto simp: list_all_iff)
  then show ?thesis by (simp add: inet_pton4_eq_spec quad_spec_def)
qed

lemma inet_pton4_dot: "inet_pton4 (CHR ''.'' # s) = None"
  by (simp add: inet_pton4_eq_spec quad_spec_def Let_def field_ok_def)

subsection \<open>\<open>inet_aton\<close> agrees with \<open>inet_pton4\<close>\<close>

definition be_fold :: "8 word list \<Rightarrow> 64 word" where
  "be_fold bs = foldl (\<lambda>a b. push_bit 8 a OR ucast b) 0 bs"

lemma be_bytes4_be_fold: "length bs = 4 \<Longrightarrow> be_bytes4 (be_fold bs) = bs"
  by (auto simp: length_4_exists be_bytes4_def be_fold_def intro!: bit_word_eqI)
    (auto simp: bit_simps dest: bit_imp_le_length)

lemma ucast_step:
  assumes "unat (c :: 8 word) * 10 + d \<le> 255"
  shows "(ucast c :: 64 word) * 10 + of_nat d = ucast (of_nat (unat c * 10 + d) :: 8 word)"
proof -
  let ?n = "unat c * 10 + d"
  have "(ucast (of_nat ?n :: 8 word) :: 64 word) = of_nat (unat (of_nat ?n :: 8 word))"
    by (rule of_nat_unat [symmetric])
  also have "\<dots> = of_nat ?n" using assms by (simp only: unat_of_nat_byte)
  also have "\<dots> = ucast c * 10 + of_nat d" by (simp only: of_nat_add of_nat_mult of_nat_unat) simp
  finally show ?thesis by (rule sym)
qed

lemma ucast_byte_le: "\<not> 255 < (ucast (c :: 8 word) :: 64 word)"
proof -
  have "unat c mod 18446744073709551616 \<le> 255"
    using unat_byte_le [of c] mod_less_eq_dividend order_trans by blast
  then show ?thesis by (simp add: word_less_nat_alt unsigned_ucast_eq take_bit_eq_mod not_less)
qed

lemma pton4_loop_aton:
  assumes "pton4_loop s saw octets before tp = Some r"
    "octets = length before + (if saw then 1 else 0)" "length before \<le> 3"
  shows "aton_loop s (length before) (ucast tp) (be_fold before) = Some (3, be_fold r)"
  using assms
proof (induction s arbitrary: saw octets before tp)
  case Nil
  then show ?case by (auto simp: be_fold_def ucast_byte_le split: if_splits)
next
  case (Cons ch s)
  show ?case
  proof (cases "isdigit ch")
    case True
    define new where "new = unat tp * 10 + digit_value ch"
    have new: "new \<le> 255"
      using Cons.prems(1) True by (auto simp: pton4_loop_digit new_def Let_def split: if_splits)
    have "\<exists>saw' oct'. pton4_loop s saw' oct' before (of_nat new) = Some r \<and>
        oct' = length before + (if saw' then 1 else 0)"
      using Cons.prems True new
      by (auto simp: pton4_loop_digit new_def [symmetric] Let_def split: if_splits)
    then obtain saw' oct' where "pton4_loop s saw' oct' before (of_nat new) = Some r"
      "oct' = length before + (if saw' then 1 else 0)" by blast
    from Cons.IH [OF this Cons.prems(3)] show ?thesis
      using True new by (simp add: new_def ucast_step del: of_nat_add of_nat_mult)
  next
    case False
    then have dot: "ch = CHR ''.''" and saw
      and IH: "pton4_loop s False octets (before @ [tp]) 0 = Some r" "octets \<noteq> 4"
      using Cons.prems(1) by (auto simp: pton4_loop_other split: if_splits)
    with Cons.prems have "length before < 3" by auto
    with Cons.IH [OF IH(1)] Cons.prems \<open>saw\<close> dot show ?thesis
      by (simp add: be_fold_def ucast_byte_le)
  qed
qed

lemma inet_aton_of_pton4: "inet_pton4 s = Some a \<Longrightarrow> inet_aton s = Some a"
  using pton4_loop_aton [of s False 0 "[]" 0 a] inet_pton4_length [of s a]
    be_bytes4_be_fold [of a]
  by (simp add: inet_pton4_def inet_aton_def) (simp add: be_fold_def)

subsection \<open>Properties\<close>

text \<open>C7: \<open>inet_pton4\<close> accepts exactly the strings made of four decimal fields of value at
  most 255 separated by dots, and stores their values: the character-level scanner is equal to
  the field-wise parser.\<close>

theorem inet_pton4_fields: "inet_pton4 s = quad_spec s"
  by (rule inet_pton4_eq_spec)

text \<open>\<open>inet_aton\<close> agrees with \<open>inet_pton4\<close> on every address the latter accepts, and a
  field that overflows \<open>unsigned long\<close> is accepted by \<open>inet_aton\<close> with its value modulo
  \<open>2 ^ 64\<close>: 18446744073709551617.0.0.1 is read as 1.0.0.1.\<close>

theorem inet_aton_vs_pton4:
  "(case inet_pton4 s of Some a \<Rightarrow> inet_aton s = Some a | None \<Rightarrow> True) \<and>
   inet_pton4 ''18446744073709551617.0.0.1'' = None \<and>
   inet_aton ''18446744073709551617.0.0.1'' = Some [1, 0, 0, 1]"
proof (intro conjI)
  show "case inet_pton4 s of Some a \<Rightarrow> inet_aton s = Some a | None \<Rightarrow> True"
    by (simp add: inet_aton_of_pton4 split: option.split)
  show "inet_pton4 ''18446744073709551617.0.0.1'' = None" by code_simp
  show "inet_aton ''18446744073709551617.0.0.1'' = Some [1, 0, 0, 1]" by code_simp
qed

text \<open>\<open>inet_ntop4\<close> accepts a buffer as long as the text without its NUL, and then
  \<open>strcpy\<close> writes one byte more than \<open>size\<close>; one byte less is refused with \<open>ENOSPC\<close>.\<close>

theorem inet_ntop4_size:
  "inet_ntop4 a (length (dotted a)) = Inr (dotted a) \<and>
   inet_ntop4 a (length (dotted a) - 1) = Inl ENOSPC"
proof -
  have "0 < length (dotted a)" by (simp add: dotted_def)
  then show ?thesis by (simp add: inet_ntop4_def Let_def)
qed

end
