(* ===== verification/Inet6.thy ===== *)
theory Inet6
  imports Inet4
begin

text \<open>
  IPv6 presentation format: \<open>inet_pton6\<close> and \<open>inet_ntop6\<close> of libfree/inet_pton.c and
  libfree/inet_ntop.c, and the dispatching \<open>inet_pton\<close>/\<open>inet_ntop\<close>.  An address is the
  list of its sixteen bytes; the printer works on the eight 16-bit words.

  Proved here: the search for the run to abbreviate finds the longest one, the text fits
  the local buffer, and scanning a printed address gives the address back.
\<close>

subsection \<open>Scanner: \<open>inet_pton6\<close>\<close>

text \<open>
  Variables of the loop: the rest of \<open>src\<close>, \<open>curtok\<close>, \<open>saw_xdigit\<close>, \<open>val\<close>, the bytes
  written before \<open>tp\<close>, and \<open>colonp\<close> as an offset into \<open>tmp\<close>.  The low four bits of
  \<open>val << 4\<close> are 0, so \<open>|=\<close> adds the digit.  \<open>None\<close> is \<open>return (0)\<close>.
\<close>

definition xdigit_value :: "char \<Rightarrow> nat option" where
  "xdigit_value ch =
     (case strchr ''0123456789abcdef'' ch of
        Some d \<Rightarrow> Some d
      | None \<Rightarrow> strchr ''0123456789ABCDEF'' ch)"

definition word_bytes :: "nat \<Rightarrow> 8 word list" where
  \<comment> \<open>the two stores \<open>*tp++ = (val >> 8) & 0xff; *tp++ = val & 0xff\<close>\<close>
  "word_bytes v = [of_nat (v div 256), of_nat v]"

fun pton6_loop :: "string \<Rightarrow> string \<Rightarrow> bool \<Rightarrow> nat \<Rightarrow> 8 word list \<Rightarrow> nat option
    \<Rightarrow> (bool \<times> nat \<times> 8 word list \<times> nat option) option" where
  "pton6_loop [] curtok saw_xdigit val before colonp = Some (saw_xdigit, val, before, colonp)"
| "pton6_loop (ch # src) curtok saw_xdigit val before colonp =
     (case xdigit_value ch of
        Some d \<Rightarrow>
          (let val' = val * 16 + d
           in if 0xffff < val' then None
              else pton6_loop src curtok True val' before colonp)
      | None \<Rightarrow>
          if ch = CHR '':'' then
            (if \<not> saw_xdigit then
               (if colonp \<noteq> None then None
                else pton6_loop src src saw_xdigit val before (Some (length before)))
             else if 16 < length before + 2 then None
             else pton6_loop src src False 0 (before @ word_bytes val) colonp)
          else if ch = CHR ''.'' \<and> length before + 4 \<le> 16 then
            (case inet_pton4 curtok of
               Some quad \<Rightarrow> Some (False, val, before @ quad, colonp) \<comment> \<open>break\<close>
             | None \<Rightarrow> None)
          else None)"

text \<open>
  The shift by hand: \<open>endp[-i] = colonp[n - i]; colonp[n - i] = 0\<close> for \<open>i = 1 .. n\<close>, on
  the 16-byte array \<open>tmp\<close> with \<open>colonp\<close> at offset \<open>c\<close>.
\<close>

definition shift_step :: "nat \<Rightarrow> nat \<Rightarrow> nat \<Rightarrow> 8 word list \<Rightarrow> 8 word list" where
  "shift_step c n i tmp = (tmp[16 - i := tmp ! (c + (n - i))])[c + (n - i) := 0]"

definition shift_tail :: "nat \<Rightarrow> nat \<Rightarrow> 8 word list \<Rightarrow> 8 word list" where
  "shift_tail c n tmp = fold (shift_step c n) [1..<Suc n] tmp"

definition pton6_finish :: "bool \<times> nat \<times> 8 word list \<times> nat option \<Rightarrow> 8 word list option" where
  "pton6_finish st =
     (case st of (saw_xdigit, val, before, colonp) \<Rightarrow>
        if saw_xdigit \<and> 16 < length before + 2 then None
        else
          (let tp = (if saw_xdigit then before @ word_bytes val else before)
           in case colonp of
                Some c \<Rightarrow>
                  Some (shift_tail c (length tp - c) (tp @ replicate (16 - length tp) 0))
              | None \<Rightarrow> if length tp \<noteq> 16 then None else Some tp))"

definition inet_pton6 :: "string \<Rightarrow> 8 word list option" where
  "inet_pton6 src =
     (if src \<noteq> [] \<and> hd src = CHR '':'' then
        (let src = tl src
         in if src = [] \<or> hd src \<noteq> CHR '':'' then None
            else Option.bind (pton6_loop src src False 0 [] None) pton6_finish)
      else Option.bind (pton6_loop src src False 0 [] None) pton6_finish)"

subsection \<open>Printer: \<open>inet_ntop6\<close>\<close>

definition words_of :: "8 word list \<Rightarrow> nat list" where
  "words_of src = map (\<lambda>k. unat (mk_word16 (src ! (2 * k)) (src ! (2 * k + 1)))) [0..<8]"

text \<open>A run \<open>struct { int base, len; }\<close>; the base -1 is \<open>None\<close>.\<close>

definition better_run :: "(nat \<times> nat) option \<Rightarrow> (nat \<times> nat) option \<Rightarrow> (nat \<times> nat) option" where
  "better_run cur best =
     (case cur of
        None \<Rightarrow> best
      | Some (_, len) \<Rightarrow>
          (case best of
             None \<Rightarrow> cur
           | Some (_, blen) \<Rightarrow> if blen < len then cur else best))"

fun run_scan :: "nat list \<Rightarrow> nat \<Rightarrow> (nat \<times> nat) option \<Rightarrow> (nat \<times> nat) option
    \<Rightarrow> (nat \<times> nat) option" where
  "run_scan [] i cur best = better_run cur best"
| "run_scan (w # ws) i cur best =
     (if w = 0 then
        (case cur of
           None \<Rightarrow> run_scan ws (Suc i) (Some (i, 1)) best
         | Some (base, len) \<Rightarrow> run_scan ws (Suc i) (Some (base, Suc len)) best)
      else run_scan ws (Suc i) None (better_run cur best))"

definition best_run :: "nat list \<Rightarrow> (nat \<times> nat) option" where
  "best_run ws =
     (case run_scan ws 0 None None of
        Some (base, len) \<Rightarrow> if len < 2 then None else Some (base, len)
      | None \<Rightarrow> None)"

definition in_run :: "(nat \<times> nat) option \<Rightarrow> nat \<Rightarrow> bool" where
  "in_run best i = (case best of Some (base, len) \<Rightarrow> base \<le> i \<and> i < base + len | None \<Rightarrow> False)"

definition v4_tail :: "(nat \<times> nat) option \<Rightarrow> nat list \<Rightarrow> nat \<Rightarrow> bool" where
  "v4_tail best ws i \<longleftrightarrow>
     i = 6 \<and> (best = Some (0, 6) \<or> (best = Some (0, 5) \<and> ws ! 5 = 0xffff))"

fun fmt6 :: "8 word list \<Rightarrow> nat list \<Rightarrow> (nat \<times> nat) option \<Rightarrow> nat list \<Rightarrow> string
    \<Rightarrow> int + string" where
  "fmt6 src ws best [] out = Inr out"
| "fmt6 src ws best (i # is) out =
     (if in_run best i then
        (if best = Some (i, snd (the best)) then fmt6 src ws best is (out @ '':'')
         else fmt6 src ws best is out)
      else
        (let out' = (if i \<noteq> 0 then out @ '':'' else out)
         in if v4_tail best ws i then
              (case inet_ntop4 (drop 12 src) (46 - length out') of
                 Inl e \<Rightarrow> Inl e
               | Inr quad \<Rightarrow> Inr (out' @ quad)) \<comment> \<open>break\<close>
            else fmt6 src ws best is (out' @ hexs (ws ! i))))"

definition inet_ntop6 :: "8 word list \<Rightarrow> nat \<Rightarrow> int + string" where
  "inet_ntop6 src sz =
     (let ws = words_of src; best = best_run ws
      in case fmt6 src ws best [0..<8] '''' of
           Inl e \<Rightarrow> Inl e
         | Inr out \<Rightarrow>
             (let tmp = (case best of
                           Some (base, len) \<Rightarrow> if base + len = 8 then out @ '':'' else out
                         | None \<Rightarrow> out)
              in if sz < length tmp + 1 then Inl ENOSPC else Inr tmp))"

subsection \<open>Dispatch on the address family\<close>

text \<open>\<open>Inl errno\<close> is -1 (or NULL), \<open>Inr None\<close> is 0, \<open>Inr (Some a)\<close> is 1.\<close>

definition inet_pton :: "int \<Rightarrow> string \<Rightarrow> int + 8 word list option" where
  "inet_pton af src =
     (if af = AF_INET then Inr (inet_pton4 src)
      else if af = AF_INET6 then Inr (inet_pton6 src)
      else Inl EAFNOSUPPORT)"

definition inet_ntop :: "int \<Rightarrow> 8 word list \<Rightarrow> nat \<Rightarrow> int + string" where
  "inet_ntop af src sz =
     (if af = AF_INET then inet_ntop4 src sz
      else if af = AF_INET6 then inet_ntop6 src sz
      else Inl EAFNOSUPPORT)"

subsection \<open>The abbreviated run\<close>

text \<open>What the scan has to find: a maximal block of zero words, the longest, leftmost.\<close>

definition zero_run :: "nat list \<Rightarrow> nat \<Rightarrow> nat \<Rightarrow> bool" where
  "zero_run ws base len \<longleftrightarrow>
     0 < len \<and> base + len \<le> length ws \<and> (\<forall>k. base \<le> k \<and> k < base + len \<longrightarrow> ws ! k = 0)"

lemma zero_run_nil: "\<not> zero_run [] b l"
  by (auto simp: zero_run_def)

definition run_ge :: "(nat \<times> nat) option \<Rightarrow> nat \<Rightarrow> nat \<Rightarrow> bool" where
  \<comment> \<open>the run found is longer than \<open>(b, l)\<close>, or as long and not further right\<close>
  "run_ge r b l = (case r of Some (base, len) \<Rightarrow> l < len \<or> l = len \<and> base \<le> b | None \<Rightarrow> False)"

text \<open>
  Invariant of the scan over a prefix: \<open>cur\<close> is the block of zeros that ends the prefix,
  and \<open>cur\<close> or \<open>best\<close> beats every block of the prefix.
\<close>

definition scan_inv :: "nat list \<Rightarrow> (nat \<times> nat) option \<Rightarrow> (nat \<times> nat) option \<Rightarrow> bool" where
  "scan_inv pre cur best \<longleftrightarrow>
     (case cur of
        Some (b, l) \<Rightarrow> zero_run pre b l \<and> b + l = length pre \<and> (0 < b \<longrightarrow> pre ! (b - 1) \<noteq> 0)
      | None \<Rightarrow> pre = [] \<or> last pre \<noteq> 0) \<and>
     (case best of Some (b, l) \<Rightarrow> zero_run pre b l | None \<Rightarrow> True) \<and>
     (case (cur, best) of (Some (cb, _), Some (b, l)) \<Rightarrow> b + l < cb | _ \<Rightarrow> True) \<and>
     (\<forall>b l. zero_run pre b l \<longrightarrow> run_ge best b l \<or> run_ge cur b l)"

lemma zero_run_snoc:
  "zero_run (pre @ [w]) b l \<longleftrightarrow>
     zero_run pre b l \<or>
     0 < l \<and> w = 0 \<and> b + l = Suc (length pre) \<and> (1 < l \<longrightarrow> zero_run pre b (l - 1))"
proof (cases "b + l \<le> length pre")
  case True
  then show ?thesis by (auto simp: zero_run_def nth_append)
next
  case False
  show ?thesis
  proof (cases "b + l = Suc (length pre)")
    case True
    then show ?thesis
      by (auto simp: zero_run_def nth_append less_Suc_eq)
  next
    case F: False
    with False show ?thesis by (auto simp: zero_run_def)
  qed
qed

lemma run_geI: "\<lbrakk> r = Some (x, y); l < y \<or> l = y \<and> x \<le> b \<rbrakk> \<Longrightarrow> run_ge r b l"
  by (simp add: run_ge_def)

lemma scan_inv_zero_None:
  assumes "scan_inv pre None best"
  shows "scan_inv (pre @ [0]) (Some (length pre, 1)) best"
proof -
  from assms have pre: "pre = [] \<or> last pre \<noteq> 0"
    and best: "\<And>b l. best = Some (b, l) \<Longrightarrow> zero_run pre b l"
    and all: "\<And>b l. zero_run pre b l \<Longrightarrow> run_ge best b l"
    by (auto simp: scan_inv_def run_ge_def split: option.splits)
  have no_end: "\<not> zero_run pre b l" if "b + l = length pre" for b l
  proof
    assume "zero_run pre b l"
    then have "0 < l" and all0: "\<forall>k. b \<le> k \<and> k < b + l \<longrightarrow> pre ! k = 0"
      by (auto simp: zero_run_def)
    have "b \<le> length pre - 1 \<and> length pre - 1 < b + l" using that \<open>0 < l\<close> by linarith
    with all0 have "pre ! (length pre - 1) = 0" by blast
    moreover have "pre \<noteq> []" using that \<open>0 < l\<close> by auto
    ultimately show False using pre by (auto simp: last_conv_nth)
  qed
  have "run_ge best b l \<or> run_ge (Some (length pre, 1)) b l" if "zero_run (pre @ [0]) b l" for b l
  proof (cases "zero_run pre b l")
    case False
    with that have l: "0 < l" "b + l = Suc (length pre)" "1 < l \<longrightarrow> zero_run pre b (l - 1)"
      by (auto simp: zero_run_snoc)
    with no_end [of b "l - 1"] have "l = 1" by (cases "1 < l") auto
    with l show ?thesis by (simp add: run_ge_def)
  qed (simp add: all)
  moreover have "zero_run (pre @ [0]) (length pre) 1" by (simp add: zero_run_snoc)
  moreover have "pre ! (length pre - 1) \<noteq> 0" if "0 < length pre"
    using that pre by (auto simp: last_conv_nth)
  moreover have "b + l < length pre" if "best = Some (b, l)" for b l
    using best [OF that] no_end [of b l] by (fastforce simp: zero_run_def)
  ultimately show ?thesis
    using best by (auto simp: scan_inv_def zero_run_snoc nth_append split: option.splits)
qed

lemma scan_inv_zero_Some:
  assumes "scan_inv pre (Some (cb, cl)) best"
  shows "scan_inv (pre @ [0]) (Some (cb, Suc cl)) best"
proof -
  from assms have cur: "zero_run pre cb cl" "cb + cl = length pre" "0 < cb \<longrightarrow> pre ! (cb - 1) \<noteq> 0"
    and best: "\<And>b l. best = Some (b, l) \<Longrightarrow> zero_run pre b l \<and> b + l < cb"
    and all: "\<And>b l. zero_run pre b l \<Longrightarrow> run_ge best b l \<or> run_ge (Some (cb, cl)) b l"
    by (auto simp: scan_inv_def split: option.splits)
  have "run_ge best b l \<or> run_ge (Some (cb, Suc cl)) b l" if "zero_run (pre @ [0]) b l" for b l
  proof (cases "zero_run pre b l")
    case True
    from all [OF this] show ?thesis by (auto simp: run_ge_def)
  next
    case False
    with that have l: "0 < l" "b + l = Suc (length pre)" "1 < l \<longrightarrow> zero_run pre b (l - 1)"
      by (auto simp: zero_run_snoc)
    have "cb \<le> b"
    proof (rule ccontr)
      assume "\<not> cb \<le> b"
      with l cur have "1 < l" by linarith
      with l have "\<forall>k. b \<le> k \<and> k < length pre \<longrightarrow> pre ! k = 0" by (auto simp: zero_run_def)
      moreover have "b \<le> cb - 1 \<and> cb - 1 < length pre"
        using cur \<open>\<not> cb \<le> b\<close> unfolding zero_run_def by linarith
      ultimately have "pre ! (cb - 1) = 0" by blast
      with cur \<open>\<not> cb \<le> b\<close> show False by auto
    qed
    with l cur show ?thesis by (auto simp: run_ge_def)
  qed
  moreover have "zero_run (pre @ [0]) cb (Suc cl)" using cur by (simp add: zero_run_snoc)
  moreover have "cb \<le> length pre" using cur by simp
  ultimately show ?thesis
    using best cur by (auto simp: scan_inv_def zero_run_snoc nth_append split: option.splits)
qed

lemma scan_inv_better:
  assumes "scan_inv pre cur best"
  shows "zero_run pre b l \<Longrightarrow> run_ge (better_run cur best) b l"
    and "better_run cur best = Some (x, y) \<Longrightarrow> zero_run pre x y"
proof -
  from assms have "zero_run pre b l \<Longrightarrow> run_ge best b l \<or> run_ge cur b l"
    and "\<And>cb cl b l. cur = Some (cb, cl) \<Longrightarrow> best = Some (b, l) \<Longrightarrow> b + l < cb"
    by (auto simp: scan_inv_def)
  then show "zero_run pre b l \<Longrightarrow> run_ge (better_run cur best) b l"
    by (fastforce simp: run_ge_def better_run_def split: option.splits)
  from assms show "better_run cur best = Some (x, y) \<Longrightarrow> zero_run pre x y"
    by (auto simp: scan_inv_def better_run_def split: option.splits if_splits)
qed

lemma scan_inv_nonzero:
  assumes "scan_inv pre cur best" "w \<noteq> 0"
  shows "scan_inv (pre @ [w]) None (better_run cur best)"
  using scan_inv_better [OF assms(1)] assms(2)
  by (auto simp: scan_inv_def zero_run_snoc split: option.splits)

lemma run_scan_correct:
  assumes "scan_inv pre cur best" "i = length pre"
  shows "(\<forall>b l. zero_run (pre @ ws) b l \<longrightarrow> run_ge (run_scan ws i cur best) b l) \<and>
    (\<forall>b l. run_scan ws i cur best = Some (b, l) \<longrightarrow> zero_run (pre @ ws) b l)"
  using assms
proof (induction ws arbitrary: pre i cur best)
  case Nil
  then show ?case using scan_inv_better [OF Nil(1)] by simp
next
  case (Cons w ws)
  show ?case
  proof (cases "w = 0")
    case True
    show ?thesis
    proof (cases cur)
      case None
      with True Cons.prems Cons.IH [of "pre @ [0]" "Some (length pre, 1)" best "Suc i"]
      show ?thesis using scan_inv_zero_None [of pre best] by simp
    next
      case (Some c)
      obtain cb cl where "c = (cb, cl)" by (cases c)
      with True Some Cons.prems Cons.IH [of "pre @ [0]" "Some (cb, Suc cl)" best "Suc i"]
      show ?thesis by (simp add: scan_inv_zero_Some)
    qed
  next
    case False
    with Cons.prems Cons.IH [of "pre @ [w]" None "better_run cur best" "Suc i"]
    show ?thesis by (simp add: scan_inv_nonzero)
  qed
qed

lemma best_run_longest:
  "zero_run ws b l \<Longrightarrow> 2 \<le> l \<Longrightarrow> run_ge (best_run ws) b l"
  "best_run ws = Some (b, l) \<Longrightarrow> zero_run ws b l \<and> 2 \<le> l"
proof -
  have "scan_inv [] None None" by (simp add: scan_inv_def zero_run_nil)
  from run_scan_correct [OF this, of 0 ws]
  have all: "\<And>b l. zero_run ws b l \<Longrightarrow> run_ge (run_scan ws 0 None None) b l"
    and is_run: "\<And>b l. run_scan ws 0 None None = Some (b, l) \<Longrightarrow> zero_run ws b l" by simp_all
  show "zero_run ws b l \<Longrightarrow> 2 \<le> l \<Longrightarrow> run_ge (best_run ws) b l"
    using all [of b l] by (fastforce simp: best_run_def run_ge_def split: option.splits)
  show "best_run ws = Some (b, l) \<Longrightarrow> zero_run ws b l \<and> 2 \<le> l"
    using is_run by (auto simp: best_run_def split: option.splits if_splits)
qed


subsection \<open>The text that is printed\<close>

text \<open>
  A closed form of the printer's output: hexadecimal words joined by colons, the
  abbreviated run replaced by a double colon, and the dotted tail of an encapsulated
  IPv4 address.
\<close>

fun colon_join :: "string list \<Rightarrow> string" where
  "colon_join [] = ''''"
| "colon_join [x] = x"
| "colon_join (x # xs) = x @ CHR '':'' # colon_join xs"

definition text6 :: "8 word list \<Rightarrow> string" where
  "text6 src =
     (let ws = words_of src in
      case best_run ws of
        None \<Rightarrow> colon_join (map hexs ws)
      | Some (b, l) \<Rightarrow>
          if v4_tail (Some (b, l)) ws 6
          then (if l = 6 then ''::'' else ''::ffff:'') @ dotted (drop 12 src)
          else colon_join (map hexs (take b ws)) @ ''::'' @ colon_join (map hexs (drop (b + l) ws)))"

lemma words_of_less: "i < 8 \<Longrightarrow> words_of a ! i < 65536"
  by (simp add: words_of_def)

lemma length_words_of [simp]: "length (words_of a) = 8"
  by (simp add: words_of_def)

lemma words_of_set: "w \<in> set (words_of a) \<Longrightarrow> w < 65536"
  by (auto simp: words_of_def)

lemma best_run_bounds: "best_run ws = Some (b, l) \<Longrightarrow> 2 \<le> l \<and> b + l \<le> length ws"
  using best_run_longest(2) [of ws b l] by (simp add: zero_run_def)

lemma hexs_0xffff: "hexs 65535 = ''ffff''"
  by (simp add: hexs.simps digits16_def)

lemma run_cases_8:
  assumes "2 \<le> l" "b + l \<le> 8"
  shows "b = 0 \<and> l \<in> {2,3,4,5,6,7,8} \<or> b = 1 \<and> l \<in> {2,3,4,5,6,7} \<or> b = 2 \<and> l \<in> {2,3,4,5,6} \<or>
    b = 3 \<and> l \<in> {2,3,4,5} \<or> b = 4 \<and> l \<in> {2,3,4} \<or> b = 5 \<and> l \<in> {2,3} \<or> b = 6 \<and> l = (2::nat)"
proof -
  have "b \<le> 6" using assms by linarith
  then have "b = 0 \<or> b = 1 \<or> b = 2 \<or> b = 3 \<or> b = 4 \<or> b = 5 \<or> b = 6" by presburger
  then show ?thesis
    using assms by (elim disjE; simp only: insert_iff empty_iff simp_thms; presburger)
qed

lemma upt_0_8: "[0..<8] = [0, 1, 2, 3, 4, 5, 6, 7 :: nat]"
  by (simp add: upt_rec)

lemma inet_ntop4_enough: "15 \<le> n \<Longrightarrow> inet_ntop4 a n = Inr (dotted a)"
  using length_dotted [of a] by (simp add: inet_ntop4_def Let_def)

lemma fmt6_None:
  assumes "length ws = 8"
  shows "fmt6 src ws None [0..<8] '''' = Inr (colon_join (map hexs ws))"
proof -
  from assms obtain w0 w1 w2 w3 w4 w5 w6 w7 where "ws = [w0, w1, w2, w3, w4, w5, w6, w7]"
    by (auto simp: length_8_exists)
  then show ?thesis by (simp add: upt_0_8 in_run_def v4_tail_def Let_def)
qed

lemma fmt6_v4:
  assumes "v4_tail (Some (b, l)) ws 6"
  shows "fmt6 src ws (Some (b, l)) [0..<8] '''' =
    Inr ((if l = 6 then ''::'' else ''::ffff:'') @ dotted (drop 12 src))"
proof -
  have "b = 0 \<and> l = 6 \<or> b = 0 \<and> l = 5 \<and> ws ! 5 = 65535"
    using assms by (auto simp: v4_tail_def)
  then show ?thesis
    by (elim disjE)
      (auto simp: upt_0_8 in_run_def v4_tail_def Let_def inet_ntop4_enough hexs_0xffff)
qed

lemma fmt6_Some:
  assumes "length ws = 8" "\<not> v4_tail (Some (b, l)) ws 6" "2 \<le> l" "b + l \<le> 8"
  shows "fmt6 src ws (Some (b, l)) [0..<8] '''' =
    Inr (colon_join (map hexs (take b ws)) @ (if b + l = 8 then '':'' else ''::'') @
      colon_join (map hexs (drop (b + l) ws)))"
proof -
  from assms obtain w0 w1 w2 w3 w4 w5 w6 w7 where ws: "ws = [w0, w1, w2, w3, w4, w5, w6, w7]"
    by (auto simp: length_8_exists)
  obtain best where best: "best = Some (b, l)" by simp
  have no_v4: "v4_tail best ws i = False" for i
    using assms(2) by (auto simp: v4_tail_def best)
  have step: "fmt6 src ws best (i # is) out =
     (if b \<le> i \<and> i < b + l then fmt6 src ws best is (if i = b then out @ '':'' else out)
      else fmt6 src ws best is ((if i \<noteq> 0 then out @ '':'' else out) @ hexs (ws ! i)))"
    for i "is" out
    by (auto simp: in_run_def no_v4 Let_def) (auto simp: best)
  show ?thesis
    using run_cases_8 [OF assms(3,4)] unfolding upt_0_8 best [symmetric]
    by (elim disjE conjE insertE) (simp_all add: step [unfolded ws] ws del: fmt6.simps(2))
qed

theorem inet_ntop6_eq_text6:
  "inet_ntop6 src sz =
    (if sz < length (text6 src) + 1 then Inl ENOSPC else Inr (text6 src))"
proof (cases "best_run (words_of src)")
  case None
  then show ?thesis by (simp add: inet_ntop6_def text6_def fmt6_None Let_def)
next
  case (Some r)
  obtain b l where r: "r = (b, l)" by (cases r)
  with Some best_run_bounds [of "words_of src" b l] have bounds: "2 \<le> l" "b + l \<le> 8" by simp_all
  show ?thesis
  proof (cases "v4_tail (Some (b, l)) (words_of src) 6")
    case True
    then have "b + l \<noteq> 8" by (auto simp: v4_tail_def)
    with True Some r show ?thesis
      by (simp only: inet_ntop6_def text6_def Let_def fmt6_v4 [OF True] sum.case option.case
          prod.case if_True if_False)
  next
    case False
    then show ?thesis
      using Some r fmt6_Some [OF _ False bounds, of src]
      by (simp add: inet_ntop6_def text6_def Let_def)
  qed
qed

lemma colon_join_length:
  "\<forall>x \<in> set xs. length x \<le> 4 \<Longrightarrow> length (colon_join xs) \<le> 5 * length xs - 1"
  by (induction xs rule: colon_join.induct) auto

lemma hexs_join_length:
  assumes "set ws \<subseteq> set (words_of a)"
  shows "length (colon_join (map hexs ws)) \<le> 5 * length ws - 1"
proof -
  have "\<forall>x \<in> set (map hexs ws). length x \<le> 4"
    using assms words_of_set length_hexs_4 by auto
  from colon_join_length [OF this] show ?thesis by simp
qed

theorem text6_length: "length (text6 src) \<le> 39"
proof (cases "best_run (words_of src)")
  case None
  then show ?thesis
    using hexs_join_length [of "words_of src" src] by (simp add: text6_def Let_def)
next
  case (Some r)
  obtain b l where r: "r = (b, l)" by (cases r)
  with Some best_run_bounds [of "words_of src" b l] have bounds: "2 \<le> l" "b + l \<le> 8" by simp_all
  have "set (take b (words_of src)) \<subseteq> set (words_of src)"
    "set (drop (b + l) (words_of src)) \<subseteq> set (words_of src)"
    by (auto dest: in_set_takeD in_set_dropD)
  from this [THEN hexs_join_length] bounds
  have "length (colon_join (map hexs (take b (words_of src)))) \<le> 5 * b"
    "length (colon_join (map hexs (drop (b + l) (words_of src)))) \<le> 5 * (8 - (b + l))"
    by (auto simp: min_def)
  moreover have "5 * b + 2 + 5 * (8 - (b + l)) \<le> 39" using bounds by linarith
  ultimately show ?thesis
    using Some r length_dotted [of "drop 12 src"] by (auto simp: text6_def Let_def)
qed

subsection \<open>Scanning what was printed\<close>

lemma xdigit_value_digits16 [simp, numconv]: "d < 16 \<Longrightarrow> xdigit_value (digits16 ! d) = Some d"
  by (simp only: xdigit_value_def digits16_strchr option.case)

lemma xdigit_value_digits10 [simp, numconv]: "d < 10 \<Longrightarrow> xdigit_value (digits10 ! d) = Some d"
  by (drule less_10_cases, elim disjE) (simp_all add: xdigit_value_def digits10_def)

lemma xdigit_value_colon [simp]: "xdigit_value (CHR '':'') = None"
  by (simp add: xdigit_value_def)

lemma xdigit_value_dot [simp]: "xdigit_value (CHR ''.'') = None"
  by (simp add: xdigit_value_def)

lemma pton6_loop_xdigit [simp]:
  "xdigit_value ch = Some d \<Longrightarrow> pton6_loop (ch # src) ct saw v b cp =
    (if 0xffff < v * 16 + d then None else pton6_loop src ct True (v * 16 + d) b cp)"
  by (simp add: Let_def)

lemma pton6_loop_colon [simp]:
  "pton6_loop (CHR '':'' # src) ct True v b cp =
     (if 16 < length b + 2 then None else pton6_loop src src False 0 (b @ word_bytes v) cp)"
  "pton6_loop (CHR '':'' # src) ct False v b None = pton6_loop src src False v b (Some (length b))"
  by simp_all

lemma pton6_loop_dot [simp]:
  "pton6_loop (CHR ''.'' # src) ct saw v b cp =
     (if length b + 4 \<le> 16 then
        (case inet_pton4 ct of Some quad \<Rightarrow> Some (False, v, b @ quad, cp) | None \<Rightarrow> None)
      else None)"
  by simp

declare pton6_loop.simps(2) [simp del]

lemma pton6_loop_hexs:
  "n < 65536 \<Longrightarrow> pton6_loop (hexs n @ rest) ct saw 0 b cp = pton6_loop rest ct True n b cp"
proof (induction n arbitrary: rest saw rule: hexs.induct)
  case (1 n)
  show ?case
  proof (cases "n < 16")
    case True
    then show ?thesis by (subst hexs.simps) simp
  next
    case False
    have "hexs n = hexs (n div 16) @ [digits16 ! (n mod 16)]"
      using False by (subst hexs.simps) simp
    then show ?thesis using 1 False by simp
  qed
qed

lemma pton6_loop_dec:
  assumes "n < 256"
  obtains v where "\<And>rest saw. pton6_loop (dec n @ rest) ct saw 0 b cp = pton6_loop rest ct True v b cp"
proof (cases "n < 10")
  case True
  then show ?thesis by (intro that [of n]) (subst dec.simps, simp)
next
  case ge10: False
  show ?thesis
  proof (cases "n < 100")
    case True
    with ge10 have "dec n = [digits10 ! (n div 10), digits10 ! (n mod 10)]"
      by (subst dec.simps, subst dec.simps) simp
    moreover have "n div 10 \<le> 9" "n mod 10 \<le> 9" using True by linarith+
    ultimately show ?thesis using True by (intro that [of "(n div 10) * 16 + n mod 10"]) simp
  next
    case False
    with assms have "\<not> n < 10" "\<not> n div 10 < 10" "n div 100 < 10" by linarith+
    then have "dec n = [digits10 ! (n div 100), digits10 ! (n div 10 mod 10), digits10 ! (n mod 10)]"
      by (subst dec.simps, subst dec.simps, subst dec.simps) (simp add: div_mult2_eq [symmetric])
    moreover have "n div 100 \<le> 2" "n div 10 mod 10 \<le> 9" "n mod 10 \<le> 9" using assms by linarith+
    ultimately show ?thesis
      by (intro that [of "((n div 100) * 16 + n div 10 mod 10) * 16 + n mod 10"]) simp
  qed
qed

lemma pton6_loop_dotted:
  assumes "length a = 4" "length b + 4 \<le> 16"
  shows "\<exists>v. pton6_loop (dotted a) (dotted a) saw 0 b cp = Some (False, v, b @ a, cp)"
proof -
  obtain v where v: "\<And>rest saw. pton6_loop (dec (unat (a ! 0)) @ rest) (dotted a) saw 0 b cp =
      pton6_loop rest (dotted a) True v b cp"
    by (rule pton6_loop_dec [of "unat (a ! 0)" "dotted a" b cp]) simp_all
  obtain rest where rest: "dotted a = dec (unat (a ! 0)) @ CHR ''.'' # rest"
    by (simp add: dotted_def)
  from v [of "CHR ''.'' # rest" saw, folded rest] show ?thesis
    using assms by simp
qed

lemma length_word_bytes [simp]: "length (word_bytes v) = 2"
  by (simp add: word_bytes_def)

lemma pton6_loop_join:
  assumes "ws \<noteq> []" "\<forall>w \<in> set ws. w < 65536" "length b + 2 * length ws \<le> 16"
  shows "\<exists>ct'. pton6_loop (colon_join (map hexs ws) @ rest) ct False 0 b cp =
    pton6_loop rest ct' True (last ws) (b @ concat (map word_bytes (butlast ws))) cp"
  using assms
proof (induction ws arbitrary: b ct)
  case (Cons w ws)
  show ?case
  proof (cases ws)
    case Nil
    with Cons show ?thesis by (auto simp: pton6_loop_hexs)
  next
    case (Cons w' ws')
    have "length (b @ word_bytes w) + 2 * length ws \<le> 16" using Cons.prems(3) by simp
    with Cons.IH [of "b @ word_bytes w"] Cons.prems Cons
    show ?thesis by (simp add: pton6_loop_hexs)
  qed
qed simp

lemma word_bytes_ffff: "word_bytes 65535 = [255, 255]"
  by (simp add: word_bytes_def word_unat_eq_iff take_bit_eq_mod)

lemma pton6_loop_ffff:
  "pton6_loop (''ffff:'' @ rest) ct False 0 b cp =
     (if 16 < length b + 2 then None else pton6_loop rest rest False 0 (b @ [255, 255]) cp)"
  using pton6_loop_hexs [of 65535 "CHR '':'' # rest" ct False b cp]
  by (simp add: hexs_0xffff word_bytes_ffff)

text \<open>The shift moves the bytes after the double colon to the end and fills with zeros.\<close>

lemma shift_step_app:
  assumes "length A = c + (n - i)" "16 - i = length A + Suc (length R)"
  shows "shift_step c n i (A @ x # R @ y # D) = A @ 0 # R @ x # D"
  using assms by (simp add: shift_step_def nth_append list_update_append)

lemma shift_tail_prefix:
  assumes "c + n + Suc k = 16" "length pre = c" "length mid = n" "j \<le> n"
  shows "fold (shift_step c n) [1..<Suc j] (pre @ mid @ replicate (Suc k) 0) =
     pre @ take (n - j) mid @ replicate (Suc k) 0 @ drop (n - j) mid"
  using assms(4)
proof (induction j)
  case 0
  then show ?case using assms by simp
next
  case (Suc j)
  define m where "m = n - Suc j"
  have m: "n - j = Suc m" "m < length mid" using Suc.prems assms by (auto simp: m_def)
  have mid: "take (Suc m) mid = take m mid @ [mid ! m]" by (rule take_Suc_conv_app_nth) (rule m)
  have dr: "drop m mid = mid ! m # drop (Suc m) mid" by (rule Cons_nth_drop_Suc [symmetric]) (rule m)
  have zs: "replicate (Suc k) (0 :: 8 word) = replicate k 0 @ [0]"
    by (simp add: replicate_append_same)
  have "[1..<Suc (Suc j)] = [1..<Suc j] @ [Suc j]" by (rule upt_Suc_append) simp
  then have "fold (shift_step c n) [1..<Suc (Suc j)] (pre @ mid @ replicate (Suc k) 0) =
    shift_step c n (Suc j)
      (fold (shift_step c n) [1..<Suc j] (pre @ mid @ replicate (Suc k) 0))"
    by (simp only: fold_append fold_simps comp_apply id_apply)
  also have "\<dots> = shift_step c n (Suc j)
      ((pre @ take m mid) @ mid ! m # replicate k 0 @ 0 # drop (Suc m) mid)"
    using Suc.IH Suc.prems by (simp only: m mid zs append_assoc append_Cons append_Nil Suc_leD)
  also have "\<dots> = (pre @ take m mid) @ 0 # replicate k 0 @ mid ! m # drop (Suc m) mid"
    using assms m Suc.prems by (intro shift_step_app) (auto simp: m_def min_def)
  finally show ?case by (simp add: m_def [symmetric] dr)
qed

lemma shift_tail_eq:
  assumes "c \<le> length tp" "length tp < 16"
  shows "shift_tail c (length tp - c) (tp @ replicate (16 - length tp) 0) =
    take c tp @ replicate (16 - length tp) 0 @ drop c tp"
proof -
  obtain k where k: "16 - length tp = Suc k" using assms by (cases "16 - length tp") auto
  have "shift_tail c (length tp - c) (take c tp @ drop c tp @ replicate (Suc k) 0) =
      take c tp @ take 0 (drop c tp) @ replicate (Suc k) 0 @ drop 0 (drop c tp)"
    unfolding shift_tail_def diff_self_eq_0 [symmetric, of "length tp - c"]
    by (rule shift_tail_prefix) (use assms k in auto)
  then show ?thesis unfolding k by (simp only: take_0 drop_0 append_Nil append_assoc [symmetric]
      append_take_drop_id)
qed

text \<open>After a full address the shift zeroes the bytes that follow the double colon.\<close>

lemma shift_tail_full:
  assumes "length tp = 16" "c \<le> 16"
  shows "shift_tail c (16 - c) tp = take c tp @ replicate (16 - c) 0"
proof -
  have "fold (shift_step c (16 - c)) [1..<Suc j] tp = take (16 - j) tp @ replicate j 0"
    if "j \<le> 16 - c" for j
    using that
  proof (induction j)
    case 0
    then show ?case using assms by simp
  next
    case (Suc j)
    have upt: "[1..<Suc (Suc j)] = [1..<Suc j] @ [Suc j]" by (rule upt_Suc_append) simp
    define m where "m = 16 - Suc j"
    have m: "16 - j = Suc m" "c + (16 - c - Suc j) = m" "m < length tp"
      using Suc.prems assms by (auto simp: m_def)
    have "take (Suc m) tp = take m tp @ [tp ! m]" by (rule take_Suc_conv_app_nth) (rule m)
    with Suc m have "fold (shift_step c (16 - c)) [1..<Suc (Suc j)] tp =
      shift_step c (16 - c) (Suc j) (take m tp @ tp ! m # replicate j 0)"
      unfolding upt by simp
    also have "\<dots> = take m tp @ 0 # replicate j 0"
      unfolding shift_step_def m(2) m_def [symmetric] using m(3)
      by (simp add: nth_append list_update_append)
    finally show ?case by (simp add: m_def)
  qed
  from this [of "16 - c"] assms show ?thesis by (simp add: shift_tail_def)
qed

lemma word_bytes_mk_word16 [simp]: "word_bytes (unat (mk_word16 h l)) = [h, l]"
proof -
  have "word_bytes (unat (mk_word16 h l)) = [of_nat (unat h), of_nat (256 * unat h + unat l)]"
    using unat_byte [of l] by (simp add: word_bytes_def unat_mk_word16)
  also have "of_nat (256 * unat h + unat l) = (of_nat (unat l) :: 8 word)"
    unfolding word_unat_eq_iff by (simp only: unat_of_nat) simp
  finally show ?thesis by simp
qed

definition bytes_of :: "nat list \<Rightarrow> 8 word list" where
  "bytes_of ws = concat (map word_bytes ws)"

lemma bytes_of_simps [simp]:
  "bytes_of [] = []" "bytes_of (w # ws) = word_bytes w @ bytes_of ws"
  "bytes_of (us @ ws) = bytes_of us @ bytes_of ws"
  by (simp_all add: bytes_of_def)

lemma length_bytes_of [simp]: "length (bytes_of ws) = 2 * length ws"
  by (induction ws) auto

lemma bytes_of_zeros: "\<forall>w \<in> set ws. w = 0 \<Longrightarrow> bytes_of ws = replicate (2 * length ws) 0"
  by (induction ws) (auto simp: word_bytes_def)

lemma bytes_of_butlast: "ws \<noteq> [] \<Longrightarrow> bytes_of (butlast ws) @ word_bytes (last ws) = bytes_of ws"
  using bytes_of_simps(3) [of "butlast ws" "[last ws]"] by simp

lemma bytes_of_words_of: "length src = 16 \<Longrightarrow> bytes_of (words_of src) = src"
proof -
  assume len: "length src = 16"
  have "bytes_of (words_of src) = concat (map (\<lambda>k. [src ! (2 * k), src ! (2 * k + 1)]) [0..<8])"
    by (simp add: bytes_of_def words_of_def comp_def)
  also have "\<dots> = map (\<lambda>k. src ! k) [0..<16]"
    by (simp add: upt_rec) (simp add: numeral_eq_Suc)
  also have "\<dots> = src" using map_nth [of src] len by simp
  finally show ?thesis .
qed

lemma hexs_hd: "hd (hexs n @ s) \<noteq> CHR '':''"
proof -
  have "hd (hexs n) \<noteq> CHR '':''" for n
  proof (induction n rule: hexs.induct)
    case (1 n)
    then show ?case
      by (subst hexs.simps) (auto simp: digits16_def dest!: less_16_cases)
  qed
  then show ?thesis by simp
qed

lemma colon_join_hd: "ws \<noteq> [] \<Longrightarrow> hd (colon_join (map hexs ws) @ s) \<noteq> CHR '':''"
  by (cases ws rule: list.exhaust, simp, cases "tl ws") (use hexs_hd in auto)

lemma colon_join_ne: "ws \<noteq> [] \<Longrightarrow> colon_join (map hexs ws) \<noteq> []"
  by (cases ws, simp, cases "tl ws") auto

text \<open>Scanning the words after the double colon, up to the end of the text.\<close>

lemma scan_tail:
  assumes "\<forall>w \<in> set ws. w < 65536" "length b + 2 * length ws < 16" "c = length b"
  shows "Option.bind (pton6_loop (colon_join (map hexs ws)) ct False 0 b (Some c)) pton6_finish =
    Some (b @ replicate (16 - (length b + 2 * length ws)) 0 @ bytes_of ws)"
proof (cases "ws = []")
  case True
  with assms show ?thesis using shift_tail_eq [of c b] by (simp add: pton6_finish_def)
next
  case False
  with pton6_loop_join [of ws b "[]" ct "Some c"] assms
  obtain ct' where loop: "pton6_loop (colon_join (map hexs ws)) ct False 0 b (Some c) =
      pton6_loop [] ct' True (last ws) (b @ bytes_of (butlast ws)) (Some c)"
    by (auto simp: bytes_of_def)
  have tp: "(b @ bytes_of (butlast ws)) @ word_bytes (last ws) = b @ bytes_of ws"
    using bytes_of_butlast [OF False] by simp
  have len: "length (b @ bytes_of (butlast ws)) + 2 \<le> 16"
    using assms False by (cases ws) auto
  from shift_tail_eq [of c "b @ bytes_of ws"] assms len show ?thesis
    unfolding loop by (simp add: pton6_finish_def tp [unfolded append_assoc])
qed

lemma inet_pton6_nocolon:
  "hd s \<noteq> CHR '':'' \<Longrightarrow> inet_pton6 s = Option.bind (pton6_loop s s False 0 [] None) pton6_finish"
  by (simp add: inet_pton6_def)

lemma inet_pton6_colons:
  "inet_pton6 (CHR '':'' # CHR '':'' # s) =
     Option.bind (pton6_loop s s False 0 [] (Some 0)) pton6_finish"
  by (simp add: inet_pton6_def)

lemma scan_run:
  assumes small: "\<forall>w \<in> set us. w < 65536" "\<forall>w \<in> set vs. w < 65536"
    and len: "length us + length vs < 8"
  shows "inet_pton6 (colon_join (map hexs us) @ ''::'' @ colon_join (map hexs vs)) =
    Some (bytes_of us @ replicate (16 - 2 * (length us + length vs)) 0 @ bytes_of vs)"
proof (cases "us = []")
  case True
  then show ?thesis
    using scan_tail [OF small(2), of "[]" 0 "colon_join (map hexs vs)"] len
    by (simp add: inet_pton6_colons)
next
  case False
  define rest where "rest = colon_join (map hexs vs)"
  define s where "s = colon_join (map hexs us) @ ''::'' @ rest"
  from pton6_loop_join [OF False small(1), of "[]" "''::'' @ rest" s None] len
  obtain ct' where loop: "pton6_loop s s False 0 [] None =
      pton6_loop (''::'' @ rest) ct' True (last us) (bytes_of (butlast us)) None"
    by (auto simp: s_def bytes_of_def)
  have "length (bytes_of (butlast us)) + 2 \<le> 16" using False len by (cases us) auto
  then have "pton6_loop s s False 0 [] None =
      pton6_loop rest rest False 0 (bytes_of us) (Some (length (bytes_of us)))"
    using bytes_of_butlast [OF False] by (simp add: loop)
  moreover have "hd s \<noteq> CHR '':''" using colon_join_hd [OF False] by (simp add: s_def)
  ultimately have "inet_pton6 s = Option.bind (pton6_loop rest rest False 0 (bytes_of us)
      (Some (length (bytes_of us)))) pton6_finish"
    by (simp only: inet_pton6_nocolon not_False_eq_True)
  also have "\<dots> = Some (bytes_of us @ replicate (16 - 2 * (length us + length vs)) 0 @ bytes_of vs)"
    using scan_tail [OF small(2), of "bytes_of us" "length (bytes_of us)" rest] len
    by (simp add: rest_def algebra_simps)
  finally show ?thesis by (simp only: s_def rest_def)
qed

lemma scan_full:
  assumes small: "\<forall>w \<in> set us. w < 65536" and len: "length us = 8"
  shows "inet_pton6 (colon_join (map hexs us)) = Some (bytes_of us)"
proof -
  have ne: "us \<noteq> []" using len by auto
  define s where "s = colon_join (map hexs us)"
  from pton6_loop_join [OF ne small, of "[]" "[]" s None] len
  obtain ct' where "pton6_loop s s False 0 [] None =
      pton6_loop [] ct' True (last us) (bytes_of (butlast us)) None"
    by (auto simp: s_def bytes_of_def)
  moreover have "hd s \<noteq> CHR '':''" using colon_join_hd [OF ne, of "[]"] by (simp add: s_def)
  ultimately show ?thesis
    using bytes_of_butlast [OF ne] len
    by (simp add: inet_pton6_nocolon s_def [symmetric] pton6_finish_def)
qed

lemma scan_v4:
  assumes "length a = 4"
  shows "inet_pton6 (''::'' @ dotted a) = Some (replicate 12 0 @ a)"
    and "inet_pton6 (''::ffff:'' @ dotted a) = Some (replicate 10 0 @ [255, 255] @ a)"
proof -
  obtain v where v: "pton6_loop (dotted a) (dotted a) False 0 [] (Some 0) =
      Some (False, v, a, Some 0)"
    using pton6_loop_dotted [OF assms, of "[]" False "Some 0"] by auto
  show "inet_pton6 (''::'' @ dotted a) = Some (replicate 12 0 @ a)"
    using shift_tail_eq [of 0 a] assms by (simp add: inet_pton6_colons v pton6_finish_def)
  obtain v where v: "pton6_loop (dotted a) (dotted a) False 0 [255, 255] (Some 0) =
      Some (False, v, [255, 255] @ a, Some 0)"
    using pton6_loop_dotted [OF assms, of "[255, 255]" False "Some 0"] by auto
  have "inet_pton6 (''::ffff:'' @ dotted a) =
      Option.bind (pton6_loop (''ffff:'' @ dotted a) (''ffff:'' @ dotted a) False 0 [] (Some 0))
        pton6_finish"
    using inet_pton6_colons by simp
  also have "\<dots> = Some (shift_tail 0 6 (([255, 255] @ a) @ replicate 10 0))"
    unfolding pton6_loop_ffff using assms v by (simp add: pton6_finish_def)
  finally show "inet_pton6 (''::ffff:'' @ dotted a) = Some (replicate 10 0 @ [255, 255] @ a)"
    using shift_tail_eq [of 0 "[255, 255] @ a"] assms by simp
qed

lemma zero_run_split:
  assumes "zero_run ws b l"
  shows "bytes_of ws = bytes_of (take b ws) @ replicate (2 * l) 0 @ bytes_of (drop (b + l) ws)"
proof -
  have "ws = take b ws @ take l (drop b ws) @ drop (b + l) ws"
    by (metis append_take_drop_id drop_drop add.commute)
  then have "bytes_of ws = bytes_of (take b ws) @ bytes_of (take l (drop b ws)) @
      bytes_of (drop (b + l) ws)"
    by (metis bytes_of_simps(3))
  moreover have "\<forall>w \<in> set (take l (drop b ws)). w = 0"
    using assms by (auto simp: zero_run_def in_set_conv_nth)
  moreover have "length (take l (drop b ws)) = l"
    using assms by (auto simp: zero_run_def min_def)
  ultimately show ?thesis using bytes_of_zeros by metis
qed

lemma split_prefix: "xs = us @ vs \<Longrightarrow> length us = n \<Longrightarrow> xs = us @ drop n xs"
  by simp

theorem inet_pton6_text6:
  assumes "length src = 16"
  shows "inet_pton6 (text6 src) = Some src"
proof (cases "best_run (words_of src)")
  case None
  then show ?thesis
    using scan_full [of "words_of src"] words_of_set bytes_of_words_of [OF assms]
    by (simp add: text6_def Let_def)
next
  case (Some r)
  obtain b l where r: "r = (b, l)" by (cases r)
  with Some best_run_longest(2) [of "words_of src" b l]
  have run: "zero_run (words_of src) b l" "2 \<le> l" by simp_all
  then have bound: "b + l \<le> 8" by (simp add: zero_run_def)
  note split = zero_run_split [OF run(1), unfolded bytes_of_words_of [OF assms]]
  show ?thesis
  proof (cases "v4_tail (Some (b, l)) (words_of src) 6")
    case False
    have "inet_pton6 (text6 src) = Some (bytes_of (take b (words_of src)) @
       replicate (16 - 2 * (b + (8 - (b + l)))) 0 @ bytes_of (drop (b + l) (words_of src)))"
      using scan_run [of "take b (words_of src)" "drop (b + l) (words_of src)"] words_of_set bound
        Some r False run(2)
      by (auto simp: text6_def Let_def min_def dest: in_set_takeD in_set_dropD)
    moreover have "16 - 2 * (b + (8 - (b + l))) = 2 * l" using bound by simp
    ultimately show ?thesis using split by simp
  next
    case True
    have len: "length (drop 12 src) = 4" using assms by simp
    from True consider "b = 0" "l = 6" | "b = 0" "l = 5" "words_of src ! 5 = 65535"
      by (auto simp: v4_tail_def)
    then show ?thesis
    proof cases
      case 1
      have "src = replicate 12 0 @ drop 12 src"
        by (rule split_prefix) (use split 1 in simp_all)
      with 1 True Some r scan_v4(1) [OF len] show ?thesis by (simp add: text6_def Let_def)
    next
      case 2
      have "drop 5 (words_of src) = words_of src ! 5 # drop 6 (words_of src)"
        using Cons_nth_drop_Suc [of 5 "words_of src"] by simp
      then have "src = replicate 10 0 @ [255, 255] @ bytes_of (drop 6 (words_of src))"
        using split 2 word_bytes_ffff by simp
      then have "src = (replicate 10 0 @ [255, 255]) @ bytes_of (drop 6 (words_of src))"
        by simp
      from split_prefix [OF this, of 12]
      have "src = replicate 10 0 @ [255, 255] @ drop 12 src" by simp
      with 2 True Some r scan_v4(2) [OF len] show ?thesis by (simp add: text6_def Let_def)
    qed
  qed
qed

subsection \<open>Texts the scanner should not accept\<close>

lemma scan_full_colons:
  assumes small: "\<forall>w \<in> set us. w < 65536" "\<forall>w \<in> set vs. w < 65536"
    and len: "length us + length vs = 8"
  shows "inet_pton6 (colon_join (map hexs us) @ ''::'' @ colon_join (map hexs vs)) =
    Some (bytes_of us @ replicate (2 * length vs) 0)"
proof -
  have tail: "Option.bind (pton6_loop (colon_join (map hexs vs)) ct False 0 (bytes_of us)
      (Some (length (bytes_of us)))) pton6_finish = Some (bytes_of us @ replicate (2 * length vs) 0)"
    for ct
  proof (cases "vs = []")
    case True
    then show ?thesis using len by (simp add: pton6_finish_def shift_tail_def)
  next
    case False
    with pton6_loop_join [of vs "bytes_of us" "[]" ct "Some (length (bytes_of us))"] small len
    obtain ct' where loop: "pton6_loop (colon_join (map hexs vs)) ct False 0 (bytes_of us)
        (Some (length (bytes_of us))) = pton6_loop [] ct' True (last vs)
          (bytes_of us @ bytes_of (butlast vs)) (Some (length (bytes_of us)))"
      by (auto simp: bytes_of_def [symmetric])
    have tp: "(bytes_of us @ bytes_of (butlast vs)) @ word_bytes (last vs) = bytes_of (us @ vs)"
      using bytes_of_butlast [OF False] by simp
    have "length (bytes_of us @ bytes_of (butlast vs)) + 2 \<le> 16"
      using False len by (cases vs) auto
    moreover have "16 - length us * 2 = length vs * 2" using len by arith
    ultimately show ?thesis
      using shift_tail_full [of "bytes_of (us @ vs)" "length (bytes_of us)"] len
      unfolding loop by (simp add: pton6_finish_def tp [unfolded append_assoc] mult.commute)
  qed
  show ?thesis
  proof (cases "us = []")
    case True
    with tail [of "colon_join (map hexs vs)"] show ?thesis by (simp add: inet_pton6_colons)
  next
    case False
    define rest where "rest = colon_join (map hexs vs)"
    define s where "s = colon_join (map hexs us) @ ''::'' @ rest"
    from pton6_loop_join [OF False small(1), of "[]" "''::'' @ rest" s None] len
    obtain ct' where loop: "pton6_loop s s False 0 [] None =
        pton6_loop (''::'' @ rest) ct' True (last us) (bytes_of (butlast us)) None"
      by (auto simp: s_def bytes_of_def)
    have "length (bytes_of (butlast us)) + 2 \<le> 16" using False len by (cases us) auto
    then have "pton6_loop s s False 0 [] None =
        pton6_loop rest rest False 0 (bytes_of us) (Some (length (bytes_of us)))"
      using bytes_of_butlast [OF False] by (simp add: loop)
    moreover have "hd s \<noteq> CHR '':''" using colon_join_hd [OF False] by (simp add: s_def)
    ultimately have "inet_pton6 s = Some (bytes_of us @ replicate (2 * length vs) 0)"
      using tail [of rest] by (simp only: inet_pton6_nocolon not_False_eq_True rest_def)
    then show ?thesis by (simp only: s_def rest_def)
  qed
qed

lemma scan_trailing_colon:
  assumes small: "\<forall>w \<in> set us. w < 65536" and len: "length us = 8"
  shows "inet_pton6 (colon_join (map hexs us) @ '':'') = Some (bytes_of us)"
proof -
  have ne: "us \<noteq> []" using len by auto
  define s where "s = colon_join (map hexs us) @ '':''"
  from pton6_loop_join [OF ne small, of "[]" "'':''" s None] len
  obtain ct' where "pton6_loop s s False 0 [] None =
      pton6_loop '':'' ct' True (last us) (bytes_of (butlast us)) None"
    by (auto simp: s_def bytes_of_def)
  moreover have "hd s \<noteq> CHR '':''" using colon_join_hd [OF ne] by (simp add: s_def)
  ultimately show ?thesis
    using bytes_of_butlast [OF ne] len
    by (simp add: inet_pton6_nocolon s_def [symmetric] pton6_finish_def)
qed

subsection \<open>Properties\<close>

subsection \<open>The length of the result\<close>

lemma pton6_loop_bounds:
  "pton6_loop src curtok saw_xdigit v before colonp = Some (x, v', before', colonp') \<Longrightarrow>
   length before \<le> 16 \<Longrightarrow> length before' \<le> 16"
proof (induction src curtok saw_xdigit v before colonp rule: pton6_loop.induct)
  case (2 ch src curtok saw_xdigit v before colonp)
  then show ?case
    by (auto simp: pton6_loop.simps(2) Let_def dest: inet_pton4_length split: option.splits if_splits)
qed simp

lemma length_shift_tail [simp]: "length (shift_tail c n tmp) = length tmp"
proof -
  have "length (fold (shift_step c n) is tmp) = length tmp" for "is"
    by (induction "is" arbitrary: tmp) (simp_all add: shift_step_def)
  then show ?thesis by (simp add: shift_tail_def)
qed

lemma pton6_finish_length:
  "pton6_finish (x, v, before, colonp) = Some a \<Longrightarrow> length before \<le> 16 \<Longrightarrow> length a = 16"
  by (auto simp: pton6_finish_def Let_def split: if_splits option.splits)

lemma inet_pton6_length: "inet_pton6 s = Some a \<Longrightarrow> length a = 16"
proof -
  have "length a = 16" if "Option.bind (pton6_loop src src False 0 [] None) pton6_finish = Some a" for src
    using that by (auto simp: bind_eq_Some_conv dest: pton6_finish_length pton6_loop_bounds)
  then show "inet_pton6 s = Some a \<Longrightarrow> length a = 16"
    by (auto simp: inet_pton6_def Let_def split: if_splits)
qed

lemma strchr_set: "strchr s c = Some k \<Longrightarrow> c \<in> set s"
  by (induction s arbitrary: k) (auto split: if_splits option.splits)

lemma xdigit_value_isxdigit: "xdigit_value c = Some d \<Longrightarrow> isxdigit c"
  unfolding xdigit_value_def isxdigit_def
  by (cases "strchr ''0123456789abcdef'' c")
    (auto simp del: strchr.simps dest: strchr_set)

lemma pton6_loop_nocolon:
  "pton6_loop src curtok saw_xdigit v before None = Some (x, v', before', colonp') \<Longrightarrow>
   CHR '':'' \<notin> set src \<Longrightarrow>
   colonp' = None \<and> (length before' = length before \<or> \<not> x \<and> length before' = length before + 4)"
proof (induction src curtok saw_xdigit v before "None :: nat option" rule: pton6_loop.induct)
  case (2 ch src curtok saw_xdigit v before)
  then show ?case
    by (auto simp: pton6_loop.simps(2) Let_def dest: inet_pton4_length split: option.splits if_splits)
qed (simp add: pton6_loop.simps(1))

text \<open>What the text of an IPv6 address looks like: it has a colon and starts with one or with a
  hexadecimal digit.\<close>

lemma inet_pton6_shape:
  assumes "inet_pton6 s = Some a"
  shows "CHR '':'' \<in> set s" "s \<noteq> []" "isxdigit (hd s) \<or> hd s = CHR '':''"
proof -
  have nil: "inet_pton6 [] = None"
    by (simp add: inet_pton6_def pton6_loop.simps(1) pton6_finish_def)
  then show ne: "s \<noteq> []" using assms by auto
  show "CHR '':'' \<in> set s"
  proof (rule ccontr)
    assume no: "CHR '':'' \<notin> set s"
    then have "hd s \<noteq> CHR '':''" using ne by (metis hd_in_set)
    then obtain st where st: "pton6_loop s s False 0 [] None = Some st" "pton6_finish st = Some a"
      using assms by (auto simp: inet_pton6_def bind_eq_Some_conv)
    obtain x v before colonp where eq: "st = (x, v, before, colonp)" by (cases st)
    show False
      using pton6_loop_nocolon [OF st(1) [unfolded eq] no] st(2) eq
      by (auto simp: pton6_finish_def Let_def split: if_splits)
  qed
  show "isxdigit (hd s) \<or> hd s = CHR '':''"
  proof (cases s)
    case (Cons c cs)
    have "xdigit_value c = None \<Longrightarrow> c \<noteq> CHR '':'' \<Longrightarrow> pton6_loop s s False 0 [] None = None"
      using inet_pton4_dot [of cs] by (simp add: Cons pton6_loop.simps(2))
    then show ?thesis
      using assms Cons xdigit_value_isxdigit [of c]
      by (cases "xdigit_value c"; cases "c = CHR '':''") (auto simp: inet_pton6_def)
  qed (use ne in simp)
qed

lemma inet_ntop6_46: "46 \<le> n \<Longrightarrow> inet_ntop6 a n = Inr (text6 a)"
  using text6_length [of a] by (simp add: inet_ntop6_eq_text6)

text \<open>C13: Type.  An address that \<open>inet_pton\<close> stores has the length of its family, 4 or 16
  bytes, whatever the text; so the copy into the caller's structure stays within it.\<close>

theorem inet_pton_length:
  "inet_pton af s = Inr (Some a) \<Longrightarrow> af = AF_INET \<and> length a = 4 \<or> af = AF_INET6 \<and> length a = 16"
  by (auto simp: inet_pton_def dest: inet_pton4_length inet_pton6_length split: if_splits)

theorem inet_pton_length_witness:
  "inet_pton AF_INET ''1.2.3.4'' = Inr (Some [1, 2, 3, 4]) \<and> length [1, 2, 3, 4 :: 8 word] = 4"
proof -
  have v4: "inet_pton AF_INET ''1.2.3.4'' = Inr (Some [1, 2, 3, 4])" by code_simp
  have "AF_INET \<noteq> AF_INET6" by (simp add: AF_INET_def AF_INET6_def)
  with inet_pton_length [OF v4] show ?thesis
    using v4 by metis
qed


text \<open>C4: an address printed by \<open>inet_ntop\<close> into a buffer of the documented size
  (\<open>INET_ADDRSTRLEN\<close> or \<open>INET6_ADDRSTRLEN\<close>) is printed, fits with its terminating NUL, and
  \<open>inet_pton\<close> reads the same bytes back, for both families.\<close>

theorem inet_pton_ntop:
  assumes "af = AF_INET \<and> length a = 4 \<and> sz = 16 \<or> af = AF_INET6 \<and> length a = 16 \<and> sz = 46"
  shows "\<exists>s. inet_ntop af a sz = Inr s \<and> length s < sz \<and> inet_pton af s = Inr (Some a)"
  using assms
proof (elim disjE conjE)
  assume "af = AF_INET" "length a = 4" "sz = 16"
  then show ?thesis
    using length_dotted [of a] by (simp add: inet_ntop_def inet_pton_def inet_ntop4_enough)
next
  assume "af = AF_INET6" "length a = 16" "sz = 46"
  then show ?thesis
    using text6_length [of a] inet_pton6_text6 [of a]
    by (simp add: inet_ntop_def inet_pton_def inet_ntop6_eq_text6 af_defs)
qed

theorem inet_pton_ntop_witness:
  "\<exists>s. inet_ntop AF_INET6 ([32, 1, 13, 184] @ replicate 11 0 @ [1]) 46 = Inr s \<and> length s < 46 \<and>
     inet_pton AF_INET6 s = Inr (Some ([32, 1, 13, 184] @ replicate 11 0 @ [1]))"
  by (rule inet_pton_ntop) simp

text \<open>\<open>inet_ntop6\<close> prints the closed form \<open>text6\<close> (hexadecimal words joined by colons,
  the run \<open>best_run\<close> abbreviated, an encapsulated IPv4 address dotted) whenever the buffer
  holds it and the NUL, and fails with \<open>ENOSPC\<close> otherwise; the text has at most 39 characters,
  so 40 bytes always suffice.\<close>

theorem inet_ntop6_text:
  "inet_ntop6 src sz = (if sz < length (text6 src) + 1 then Inl ENOSPC else Inr (text6 src)) \<and>
   length (text6 src) \<le> 39"
  by (simp only: inet_ntop6_eq_text6 text6_length simp_thms)

text \<open>C8: the run abbreviated by \<open>inet_ntop6\<close> is a block of at least two zero words, no block
  of zero words is longer, and no equally long one starts further left; it is absent exactly
  when no two consecutive words are zero.\<close>

theorem best_run_longest_leftmost:
  "case best_run ws of
     Some (b, l) \<Rightarrow> zero_run ws b l \<and> 2 \<le> l \<and>
       (\<forall>b' l'. \<not> (zero_run ws b' l' \<and> (l < l' \<or> l' = l \<and> b' < b)))
   | None \<Rightarrow> (\<forall>b'. \<not> zero_run ws b' 2)"
proof (cases "best_run ws")
  case None
  with best_run_longest(1) [of ws _ 2] show ?thesis by (auto simp: run_ge_def)
next
  case (Some r)
  obtain b l where r: "r = (b, l)" by (cases r)
  with Some best_run_longest(2) [of ws b l] have l: "zero_run ws b l" "2 \<le> l" by simp_all
  have "\<not> (zero_run ws b' l' \<and> (l < l' \<or> l' = l \<and> b' < b))" for b' l'
    using best_run_longest(1) [of ws b' l'] l Some r by (auto simp: run_ge_def)
  with l Some r show ?thesis by simp
qed

text \<open>\<open>inet_pton6\<close> accepts a full address followed by one more colon, and for a full
  address with a double colon inside it does not ignore the double colon, as its comment says,
  but replaces the words after it by zeros.\<close>

theorem inet_pton6_extra_colons:
  assumes "\<forall>w \<in> set us. w < 65536" "\<forall>w \<in> set vs. w < 65536" "length us + length vs = 8"
  shows "inet_pton6 (colon_join (map hexs (us @ vs)) @ '':'') = Some (bytes_of (us @ vs)) \<and>
    inet_pton6 (colon_join (map hexs us) @ ''::'' @ colon_join (map hexs vs)) =
      Some (bytes_of us @ replicate (2 * length vs) 0)"
  using assms by (intro conjI scan_trailing_colon scan_full_colons) auto

theorem inet_pton6_extra_colons_witness:
  "inet_pton6 (colon_join (map hexs ([1, 2, 3, 4, 5, 6] @ [7, 8])) @ '':'') =
     Some (bytes_of ([1, 2, 3, 4, 5, 6] @ [7, 8])) \<and>
   inet_pton6 (colon_join (map hexs [1, 2, 3, 4, 5, 6]) @ ''::'' @ colon_join (map hexs [7, 8])) =
     Some (bytes_of [1, 2, 3, 4, 5, 6] @ replicate (2 * length [7, 8::nat]) 0)"
  by (rule inet_pton6_extra_colons) simp_all

end
