(* ===== verification/Cksum.thy ===== *)
theory Cksum
  imports Unp_Prelude
begin

text \<open>
  The Internet checksum, \<open>in_cksum\<close> of libfree/in_cksum.c, used by the ping and traceroute
  programs on every ICMP packet.  The packet is the list of its bytes; the machine is little
  endian, so \<open>*w++\<close> reads the low byte first.  The accumulator is the code's 32-bit \<open>sum\<close>.

  Proved here: for packets of up to 131074 bytes the accumulator does not overflow and the
  result is the complement of the one's complement sum; a packet that carries its own
  checksum has the checksum 0.
\<close>

unbundle bit_operations_syntax

subsection \<open>The code\<close>

fun cksum_loop :: "8 word list \<Rightarrow> 32 word \<Rightarrow> 32 word" where
  "cksum_loop (b0 # b1 # w) acc = cksum_loop w (acc + ucast (mk_word16 b1 b0))"
| "cksum_loop [b0] acc = acc + ucast (mk_word16 0 b0)" \<comment> \<open>mop up an odd byte\<close>
| "cksum_loop [] acc = acc"

definition fold_carries :: "32 word \<Rightarrow> 32 word" where
  "fold_carries acc =
     (let acc = drop_bit 16 acc + (acc AND 0xffff) in acc + drop_bit 16 acc)"

definition in_cksum :: "8 word list \<Rightarrow> 16 word" where
  "in_cksum addr = ucast (NOT (fold_carries (cksum_loop addr 0)))"

subsection \<open>The one's complement sum\<close>

fun word_sum :: "8 word list \<Rightarrow> nat" where
  "word_sum (b0 # b1 # w) = unat (mk_word16 b1 b0) + word_sum w"
| "word_sum [b0] = unat b0"
| "word_sum [] = 0"

definition ones_sum :: "nat \<Rightarrow> nat" where
  \<comment> \<open>the representative in \<open>1 .. 65535\<close> modulo 65535, and 0 only for 0\<close>
  "ones_sum s = (if s = 0 then 0 else (s - 1) mod 65535 + 1)"

lemma word_sum_bound: "word_sum bs \<le> 65535 * ((length bs + 1) div 2)"
proof (induction bs rule: word_sum.induct)
  case (1 b0 b1 w)
  have "unat (mk_word16 b1 b0) \<le> 65535" using unat_word16 [of "mk_word16 b1 b0"] by linarith
  with 1 show ?case by simp
next
  case (2 b0)
  have "unat b0 \<le> 65535" using unat_byte [of b0] by linarith
  then show ?case by simp
qed simp

lemma word_sum_append:
  "even (length p) \<Longrightarrow> word_sum (p @ q) = word_sum p + word_sum q"
  by (induction p rule: word_sum.induct) auto

lemma unat_ucast_32_16: "unat (ucast w :: 32 word) = unat w" for w :: "16 word"
proof -
  have "unat w < 4294967296" using unat_word16 [of w] by linarith
  then show ?thesis by (simp add: unsigned_ucast_eq take_bit_eq_mod)
qed

lemma unat_cksum_loop:
  "unat acc + word_sum bs < 2 ^ 32 \<Longrightarrow> unat (cksum_loop bs acc) = unat acc + word_sum bs"
proof (induction bs acc rule: cksum_loop.induct)
  case (1 b0 b1 w acc)
  have "unat (ucast (mk_word16 b1 b0) :: 32 word) = unat (mk_word16 b1 b0)"
    by (rule unat_ucast_32_16)
  with 1 have "unat (acc + ucast (mk_word16 b1 b0)) = unat acc + unat (mk_word16 b1 b0)"
    by (subst unat_add_lem [THEN iffD1]) simp_all
  with 1 show ?case by simp
next
  case (2 b0 acc)
  have "unat (ucast (mk_word16 0 b0) :: 32 word) = unat b0"
    unfolding unat_ucast_32_16 by (simp add: unat_mk_word16)
  with 2 show ?case by (simp, subst unat_add_lem [THEN iffD1]) simp_all
qed simp

lemma unat_high: "unat (drop_bit 16 s) = unat s div 65536" for s :: "32 word"
  by (simp add: drop_bit_eq_div unat_div_distrib)

lemma unat_low: "unat (s AND 0xffff) = unat s mod 65536" for s :: "32 word"
proof -
  have "(0xffff :: 32 word) = mask 16" by (simp add: mask_eq_exp_minus_1)
  then have "unat (s AND 0xffff) = unat (take_bit 16 s)" by (simp only: take_bit_eq_mask)
  then show ?thesis by (simp only: unsigned_take_bit_eq) (simp only: take_bit_eq_mod, simp)
qed

lemma unat_add_32: "unat a + unat b < 2 ^ 32 \<Longrightarrow> unat (a + b) = unat a + unat b"
  for a b :: "32 word"
  by (subst unat_add_lem [THEN iffD1]) simp_all

lemma fold_mod_65535:
  assumes "s < 2 ^ 32" "t = s div 65536 + s mod 65536"
  shows "(t + t div 65536) mod 65536 = ones_sum s"
proof -
  have s: "s = 65536 * (s div 65536) + s mod 65536" by simp
  have bounds: "s div 65536 \<le> 65535" "s mod 65536 \<le> 65535" using assms(1) by simp_all
  have t0: "t = 0 \<longleftrightarrow> s = 0" using s assms(2) by auto
  show ?thesis
  proof (cases "s = 0")
    case True
    with t0 show ?thesis by (simp add: ones_sum_def)
  next
    case False
    with t0 have "1 \<le> t" by simp
    have st: "s - 1 = 65535 * (s div 65536) + (t - 1)" using s \<open>1 \<le> t\<close> assms(2) by linarith
    then have ones: "ones_sum s = (t - 1) mod 65535 + 1" using False by (simp add: ones_sum_def)
    have "t \<le> 131070" using assms(2) bounds by linarith
    then consider "t \<le> 65535" | "65536 \<le> t" "t \<le> 131070" by linarith
    then show ?thesis
    proof cases
      case 1
      with \<open>1 \<le> t\<close> show ?thesis by (simp add: ones)
    next
      case 2
      then have "t div 65536 = 1" "(t - 1) mod 65535 = t - 65536"
        by (simp_all add: div_nat_eqI mod_nat_eqI)
      moreover have "(t + 1) mod 65536 = t + 1 - 65536"
        using 2 by (simp add: le_mod_geq)
      ultimately show ?thesis using 2 ones by simp
    qed
  qed
qed

lemma unat_fold_carries: "unat (fold_carries s) mod 65536 = ones_sum (unat s)"
proof -
  have s: "unat s < 2 ^ 32" using unsigned_less [of s] by simp
  define t where "t = drop_bit 16 s + (s AND 0xffff)"
  have t: "unat t = unat s div 65536 + unat s mod 65536"
    unfolding t_def using s by (subst unat_add_32) (simp_all add: unat_high unat_low)
  moreover have "unat s div 65536 \<le> 65535" "unat s mod 65536 \<le> 65535" using s by simp_all
  ultimately have "unat t \<le> 131070" by linarith
  then have "unat (t + drop_bit 16 t) = unat t + unat t div 65536"
    by (subst unat_add_32) (simp_all add: unat_high)
  with fold_mod_65535 [OF s t] show ?thesis
    by (simp add: fold_carries_def Let_def t_def [symmetric])
qed

lemma ones_sum_le: "ones_sum s \<le> 65535"
proof -
  have "(s - 1) mod 65535 < 65535" by (rule mod_less_divisor) simp
  then show ?thesis by (simp only: ones_sum_def split: if_split) linarith
qed

lemma unat_not16: "unat (NOT w) = 65535 - unat w" for w :: "16 word"
proof -
  have "NOT w = - 1 - w" by (simp add: not_eq_complement)
  moreover have "unat (- 1 - w) = unat (- 1 :: 16 word) - unat w"
    by (rule unat_sub) simp
  moreover have "unat (- 1 :: 16 word) = 65535" by (simp add: unsigned_minus_1_eq_mask mask_eq_exp_minus_1)
  ultimately show ?thesis by simp
qed

lemma unat_in_cksum:
  assumes "length bs \<le> 131074"
  shows "unat (in_cksum bs) = 65535 - ones_sum (word_sum bs)"
proof -
  have "(length bs + 1) div 2 \<le> 65537" using assms by simp
  then have "65535 * ((length bs + 1) div 2) \<le> 65535 * 65537" by (rule mult_le_mono2)
  moreover have "65535 * 65537 < (2 :: nat) ^ 32" by simp
  ultimately have "word_sum bs < 2 ^ 32" using word_sum_bound [of bs] by linarith
  then have loop: "unat (cksum_loop bs 0) = word_sum bs"
    using unat_cksum_loop [of 0 bs] by simp
  have "in_cksum bs = NOT (ucast (fold_carries (cksum_loop bs 0)))"
    unfolding in_cksum_def by (rule bit_word_eqI) (simp add: bit_simps)
  moreover have "unat (ucast (fold_carries (cksum_loop bs 0)) :: 16 word) = ones_sum (word_sum bs)"
    using unat_fold_carries [of "cksum_loop bs 0"]
    by (simp add: unsigned_ucast_eq take_bit_eq_mod loop)
  ultimately show ?thesis by (simp only: unat_not16)
qed

subsection \<open>Properties\<close>

text \<open>C9: for every packet of at most 131074 bytes the 32-bit accumulator does not overflow
  and one addition of the carries is enough: the result is the complement of the one's
  complement sum of the 16-bit words, an odd last byte padded with a zero byte.\<close>

theorem in_cksum_ones_complement:
  assumes "length bs \<le> 131074"
  shows "unat (in_cksum bs) = 65535 - ones_sum (word_sum bs)"
  using assms by (rule unat_in_cksum)

theorem in_cksum_ones_complement_witness:
  "unat (in_cksum [8, 0, 0, 0, 255]) = 65535 - ones_sum (word_sum [8, 0, 0, 0, 255])"
  by (rule in_cksum_ones_complement) simp

lemma in_cksum_fill:
  assumes "even (length p)" "length p + length q + 2 \<le> 131074"
    and "c = in_cksum (p @ [0, 0] @ q)"
  shows "in_cksum (p @ [lo_byte c, hi_byte c] @ q) = 0"
proof -
  define s where "s = word_sum (p @ [0, 0] @ q)"
  have s: "s = word_sum p + word_sum q"
    using assms(1) by (simp add: s_def word_sum_append unat_mk_word16)
  have c: "unat c = 65535 - ones_sum s"
    using unat_in_cksum [of "p @ [0, 0] @ q"] assms by (simp add: s_def)
  have sum: "word_sum (p @ [lo_byte c, hi_byte c] @ q) = s + unat c"
    using assms(1) by (simp add: word_sum_append s)
  have "ones_sum (s + unat c) = 65535"
  proof (cases "s = 0")
    case True
    then show ?thesis using c by (simp add: ones_sum_def)
  next
    case False
    define m where "m = (s - 1) mod 65535"
    have "m < 65535" by (simp add: m_def)
    moreover have "s - 1 = 65535 * ((s - 1) div 65535) + m" by (simp add: m_def)
    moreover have "unat c = 65535 - (m + 1)" using c False by (simp add: ones_sum_def m_def)
    ultimately have "s + unat c - 1 = 65535 * ((s - 1) div 65535) + 65534"
      using False by linarith
    then show ?thesis using False by (simp add: ones_sum_def)
  qed
  then have "unat (in_cksum (p @ [lo_byte c, hi_byte c] @ q)) = 0"
    using unat_in_cksum [of "p @ [lo_byte c, hi_byte c] @ q"] assms(2) sum by simp
  then show ?thesis by (simp add: unsigned_eq_0_iff)
qed

text \<open>C10: a packet whose zeroed checksum field is filled with its checksum, as the sender
  does it, has the checksum 0, which is what a receiver tests.\<close>

theorem in_cksum_verifies:
  assumes "even (length p)" "length p + length q + 2 \<le> 131074"
    and "c = in_cksum (p @ [0, 0] @ q)"
  shows "in_cksum (p @ [lo_byte c, hi_byte c] @ q) = 0"
  using assms by (rule in_cksum_fill)

theorem in_cksum_verifies_witness:
  "in_cksum ([8, 0] @ [lo_byte (in_cksum ([8, 0] @ [0, 0] @ [7, 1, 9])),
     hi_byte (in_cksum ([8, 0] @ [0, 0] @ [7, 1, 9]))] @ [7, 1, 9]) = 0"
  by (rule in_cksum_verifies [OF _ _ refl]) simp_all

end
