(* ===== verification/Posix.thy ===== *)
theory Posix
  imports Unp_Prelude
begin

text \<open>
  The system interface as the sources use it: socket addresses, system calls, and a
  state-passing monad for code that calls the kernel.

  The kernel is not part of the repository.  A run is given by a script, the list of the
  answers the kernel will give; \<open>sys c\<close> takes the next answer, provided it is one that call
  \<open>c\<close> may give (\<open>fits\<close>), records the call and the answer in the trace and sets \<open>errno\<close>
  from a failing answer.  When the script ends, or its next answer does not fit the call,
  the process blocks.  A theorem about all scripts is a theorem about all behaviours of the
  kernel.  \<open>Exited\<close> is \<open>exit\<close>, \<open>Undef\<close> a step that C leaves undefined (an index out of
  bounds, an uninitialised read).

  Every loop that calls the kernel is \<open>loop body s\<close>, run with the length of the script as
  fuel.  The locale \<open>consuming\<close> states that an iteration that goes on has taken an answer
  from the script; under it the fuel is always enough and \<open>loop\<close> satisfies its own
  unfolding, so a loop is never cut short by the model.
\<close>

subsection \<open>Addresses\<close>

text \<open>
  A socket address of one of the families the configuration has.  Ports are kept in network
  byte order, as the code stores them; addresses are their bytes.
\<close>

datatype sockaddr =
    SaIn "16 word" "8 word list" \<comment> \<open>\<open>sin_port\<close>, \<open>sin_addr\<close>\<close>
  | SaIn6 "16 word" "8 word list" nat \<comment> \<open>\<open>sin6_port\<close>, \<open>sin6_addr\<close>, \<open>sin6_scope_id\<close>\<close>
  | SaUn string \<comment> \<open>\<open>sun_path\<close>\<close>
  | SaDl nat nat string \<comment> \<open>\<open>sdl_index\<close>, \<open>sdl_nlen\<close>, \<open>sdl_data\<close>: the name, then the link address\<close>
  | SaOther int

fun sa_family :: "sockaddr \<Rightarrow> int" where
  "sa_family (SaIn _ _) = AF_INET"
| "sa_family (SaIn6 _ _ _) = AF_INET6"
| "sa_family (SaUn _) = AF_UNIX"
| "sa_family (SaDl _ _ _) = AF_LINK"
| "sa_family (SaOther f) = f"

text \<open>The length of the structure (\<open>sizeof\<close>; 104 bytes of path for a Unix domain address).\<close>

fun sa_len :: "sockaddr \<Rightarrow> nat" where
  "sa_len (SaIn _ _) = 16"
| "sa_len (SaIn6 _ _ _) = 28"
| "sa_len (SaUn _) = 106"
| "sa_len (SaDl _ _ _) = 20"
| "sa_len (SaOther _) = 16"

record addrinfo =
  ai_flags :: int
  ai_family :: int
  ai_socktype :: int
  ai_protocol :: int
  ai_addr :: sockaddr
  ai_canonname :: "string option"

subsection \<open>Calls and answers\<close>

datatype syscall =
    SysSocket int int int
  | SysClose int
  | SysBind int sockaddr
  | SysConnect int sockaddr
  | SysListen int int
  | SysAccept int
  | SysRead int nat
  | SysWrite int string
  | SysSend int string int
  | SysRecv int nat int
  | SysRecvfrom int nat int
  | SysRecvmsg int nat int
  | SysSendto int string int sockaddr
  | SysShutdown int int
  | SysGetsockopt int int int
  | SysSetsockopt int int int int
  | SysSetsockoptReq int int int int "sockaddr list"
      \<comment> \<open>an option that is a structure: an interface index and addresses\<close>
  | SysGetsockname int
  | SysGetpeername int
  | SysSelect int "int list" "int list" "(int \<times> int) option"
  | SysPoll "(int \<times> int) list" int
  | SysFork
  | SysWaitpid int int
  | SysFcntl int int int
  | SysGetaddrinfo "string option" "string option" addrinfo
  | SysGethostbyname string "int option" \<comment> \<open>with a family: \<open>gethostbyname2\<close>\<close>
  | SysFgets int nat
  | SysPut int string \<comment> \<open>\<open>printf\<close>, \<open>fputs\<close> on a stream\<close>
  | SysFree string
  | SysTime
  | SysOther string "int list" "string list"

record sysret =
  r_val :: int \<comment> \<open>the C return value\<close>
  r_err :: int \<comment> \<open>\<open>errno\<close>, when the call fails\<close>
  r_data :: string
  r_addr :: sockaddr
  r_rset :: "int list"
  r_wset :: "int list"
  r_ais :: "addrinfo list"
  r_addrs :: "8 word list list" \<comment> \<open>\<open>h_addr_list\<close>\<close>
  r_num :: int \<comment> \<open>a second value: an option value, microseconds\<close>

definition ok :: "int \<Rightarrow> sysret" where
  "ok v = \<lparr>r_val = v, r_err = 0, r_data = [], r_addr = SaOther 0, r_rset = [], r_wset = [],
     r_ais = [], r_addrs = [], r_num = 0\<rparr>"

definition fail :: "int \<Rightarrow> sysret" where
  "fail e = (ok (- 1))\<lparr>r_err := e\<rparr>"

definition okdata :: "string \<Rightarrow> sysret" where
  "okdata s = (ok (int (length s)))\<lparr>r_data := s\<rparr>"

definition okaddr :: "int \<Rightarrow> sockaddr \<Rightarrow> sysret" where
  "okaddr v sa = (ok v)\<lparr>r_addr := sa\<rparr>"

lemmas ret_defs = ok_def fail_def okdata_def okaddr_def

text \<open>
  The answers a call may give: what the standard promises and the code relies on.  A read
  returns at most the bytes asked for, a write takes at most the bytes given, a failing call
  of either kind returns -1, and a successful \<open>getaddrinfo\<close> gives at least one address.  The
  addresses \<open>gethostbyname\<close> gives are all of one Internet family, the one asked for if there is
  one, and of its length.
\<close>

definition fits_read :: "nat \<Rightarrow> sysret \<Rightarrow> bool" where
  "fits_read n r \<longleftrightarrow> (r_val r = - 1 \<and> r_data r = [] \<or> r_val r = int (length (r_data r))) \<and>
     length (r_data r) \<le> n"

definition fits_write :: "string \<Rightarrow> sysret \<Rightarrow> bool" where
  "fits_write s r \<longleftrightarrow> - 1 \<le> r_val r \<and> r_val r \<le> int (length s)"

definition fits_host :: "int option \<Rightarrow> sysret \<Rightarrow> bool" where
  "fits_host family r \<longleftrightarrow> r_val r = 0 \<or>
     (r_num r = AF_INET \<and> list_all (\<lambda>a. length a = 4) (r_addrs r) \<or>
      r_num r = AF_INET6 \<and> list_all (\<lambda>a. length a = 16) (r_addrs r)) \<and>
     (case family of None \<Rightarrow> True | Some f \<Rightarrow> r_num r = f)"

definition fits_select :: "int list \<Rightarrow> int list \<Rightarrow> sysret \<Rightarrow> bool" where
  "fits_select rs ws r \<longleftrightarrow>
     (r_val r = - 1 \<or>
      set (r_rset r) \<subseteq> set rs \<and> set (r_wset r) \<subseteq> set ws \<and> distinct (r_rset r) \<and> distinct (r_wset r) \<and>
      r_val r = int (length (r_rset r)) + int (length (r_wset r)))"

fun fits :: "syscall \<Rightarrow> sysret \<Rightarrow> bool" where
  "fits (SysRead fd n) r = fits_read n r"
| "fits (SysRecv fd n fl) r = fits_read n r"
| "fits (SysRecvfrom fd n fl) r = fits_read n r"
| "fits (SysRecvmsg fd n fl) r = fits_read n r"
| "fits (SysWrite fd s) r = fits_write s r"
| "fits (SysSend fd s fl) r = fits_write s r"
| "fits (SysSendto fd s fl sa) r = fits_write s r"
| "fits (SysFgets fd n) r = (length (r_data r) < n)"
| "fits (SysSelect n rs ws t) r = fits_select rs ws r"
| "fits (SysSocket f t p) r = (- 1 \<le> r_val r)"
| "fits (SysAccept fd) r = (- 1 \<le> r_val r)"
| "fits (SysBind fd sa) r = (r_val r = 0 \<or> r_val r = - 1)"
| "fits (SysConnect fd sa) r = (r_val r = 0 \<or> r_val r = - 1)"
| "fits (SysListen fd b) r = (r_val r = 0 \<or> r_val r = - 1)"
| "fits (SysGetaddrinfo h s hints) r = (r_val r = 0 \<longrightarrow> r_ais r \<noteq> [])"
| "fits (SysGethostbyname h f) r = fits_host f r"
| "fits (SysClose fd) r = (r_val r = 0 \<or> r_val r = - 1)"
| "fits _ r = True"

subsection \<open>The monad\<close>

record world =
  script :: "sysret list"
  trace :: "(syscall \<times> sysret) list"
  errno :: int
  daemon_proc :: int \<comment> \<open>the global of lib/error.c\<close>
  strerror :: "int \<Rightarrow> string" \<comment> \<open>the messages of the C library\<close>

datatype 'a res = Val 'a | Exited int | Undef | Blocked

type_synonym 'a io = "world \<Rightarrow> 'a res \<times> world"

definition start :: "sysret list \<Rightarrow> world" where
  "start rs = \<lparr>script = rs, trace = [], errno = 0, daemon_proc = 0,
     strerror = (\<lambda>_. [])\<rparr>"

definition ret :: "'a \<Rightarrow> 'a io" where
  "ret a w = (Val a, w)"

definition bind :: "'a io \<Rightarrow> ('a \<Rightarrow> 'b io) \<Rightarrow> 'b io" where
  "bind m f w =
     (case m w of
        (Val a, w') \<Rightarrow> f a w'
      | (Exited c, w') \<Rightarrow> (Exited c, w')
      | (Undef, w') \<Rightarrow> (Undef, w')
      | (Blocked, w') \<Rightarrow> (Blocked, w'))"

definition seq :: "'a io \<Rightarrow> 'b io \<Rightarrow> 'b io" where
  "seq m n = bind m (\<lambda>_. n)"

definition sys :: "syscall \<Rightarrow> sysret io" where
  "sys c w =
     (case script w of
        r # rs \<Rightarrow>
          if fits c r then
            (Val r, w\<lparr>script := rs, trace := trace w @ [(c, r)],
                      errno := (if r_val r < 0 then r_err r else errno w)\<rparr>)
          else (Blocked, w)
      | [] \<Rightarrow> (Blocked, w))"

definition call :: "syscall \<Rightarrow> int io" where
  \<comment> \<open>a call of which only the return value is used\<close>
  "call c = bind (sys c) (\<lambda>r. ret (r_val r))"

definition say :: "syscall \<Rightarrow> unit io" where
  \<comment> \<open>an output whose result the code ignores\<close>
  "say c w = (Val (), w\<lparr>trace := trace w @ [(c, ok 0)]\<rparr>)"

definition exit_with :: "int \<Rightarrow> 'a io" where
  "exit_with c w = (Exited c, w)"

definition undef :: "'a io" where
  "undef w = (Undef, w)"

definition get_errno :: "int io" where
  "get_errno w = (Val (errno w), w)"

definition set_errno :: "int \<Rightarrow> unit io" where
  "set_errno e w = (Val (), w\<lparr>errno := e\<rparr>)"

definition get_world :: "world io" where
  "get_world w = (Val w, w)"

definition set_daemon_proc :: "int \<Rightarrow> unit io" where
  "set_daemon_proc v w = (Val (), w\<lparr>daemon_proc := v\<rparr>)"

definition guard :: "bool \<Rightarrow> unit io" where
  "guard b = (if b then ret () else undef)"

fun do_all :: "unit io list \<Rightarrow> unit io" where
  \<comment> \<open>statements in sequence\<close>
  "do_all [] = ret ()"
| "do_all (m # ms) = seq m (do_all ms)"

definition only_if :: "bool \<Rightarrow> unit io \<Rightarrow> unit io" where
  "only_if b m = (if b then m else ret ())"

subsection \<open>Loops\<close>

fun loopn :: "nat \<Rightarrow> ('s \<Rightarrow> ('s + 'a) io) \<Rightarrow> 's \<Rightarrow> 'a io" where
  "loopn 0 body s w = (Blocked, w)"
| "loopn (Suc n) body s w =
     (case body s w of
        (Val (Inl s'), w') \<Rightarrow> loopn n body s' w'
      | (Val (Inr a), w') \<Rightarrow> (Val a, w')
      | (Exited c, w') \<Rightarrow> (Exited c, w')
      | (Undef, w') \<Rightarrow> (Undef, w')
      | (Blocked, w') \<Rightarrow> (Blocked, w'))"

definition loop :: "('s \<Rightarrow> ('s + 'a) io) \<Rightarrow> 's \<Rightarrow> 'a io" where
  "loop body s w = loopn (Suc (length (script w))) body s w"

definition again :: "'s \<Rightarrow> ('s + 'a) io" where "again s = ret (Inl s)"
definition stop :: "'a \<Rightarrow> ('s + 'a) io" where "stop a = ret (Inr a)"

text \<open>A \<open>for\<close> loop over a list, with a body that may stop it.\<close>

fun for_each :: "'x list \<Rightarrow> ('x \<Rightarrow> 's \<Rightarrow> ('s + 'a) io) \<Rightarrow> 's \<Rightarrow> ('s + 'a) io" where
  "for_each [] body s = ret (Inl s)"
| "for_each (x # xs) body s =
     bind (body x s) (\<lambda>v. case v of Inl s' \<Rightarrow> for_each xs body s' | Inr a \<Rightarrow> ret (Inr a))"

subsection \<open>Weakest preconditions\<close>

text \<open>
  \<open>wp m Q w\<close>: the run of \<open>m\<close> from \<open>w\<close> ends with a result and a world that satisfy \<open>Q\<close>.
  The rules below compute it for every statement but the loop, which has the invariant rule.
\<close>

definition wp :: "'a io \<Rightarrow> ('a res \<Rightarrow> world \<Rightarrow> bool) \<Rightarrow> world \<Rightarrow> bool" where
  "wp m Q w = (case m w of (r, w') \<Rightarrow> Q r w')"

definition on_val :: "('a \<Rightarrow> world \<Rightarrow> bool) \<Rightarrow> ('b res \<Rightarrow> world \<Rightarrow> bool) \<Rightarrow> 'a res \<Rightarrow> world \<Rightarrow> bool" where
  "on_val P Q r w =
     (case r of Val a \<Rightarrow> P a w | Exited c \<Rightarrow> Q (Exited c) w | Undef \<Rightarrow> Q Undef w
      | Blocked \<Rightarrow> Q Blocked w)"

lemma on_val_simps [simp]:
  "on_val P Q (Val a) = P a" "on_val P Q (Exited c) = Q (Exited c)"
  "on_val P Q Undef = Q Undef" "on_val P Q Blocked = Q Blocked"
  by (simp_all add: on_val_def fun_eq_iff)

definition logged :: "syscall \<Rightarrow> sysret \<Rightarrow> world \<Rightarrow> world" where
  \<comment> \<open>the world after call \<open>c\<close> was answered \<open>r\<close>\<close>
  "logged c r w = w\<lparr>script := tl (script w), trace := trace w @ [(c, r)],
     errno := (if r_val r < 0 then r_err r else errno w)\<rparr>"

definition said :: "syscall \<Rightarrow> world \<Rightarrow> world" where
  "said c w = w\<lparr>trace := trace w @ [(c, ok 0)]\<rparr>"

lemma wp_ret [simp]: "wp (ret a) Q = Q (Val a)"
  by (simp add: wp_def ret_def fun_eq_iff)

lemma wp_bind [simp]: "wp (bind m f) Q = wp m (on_val (\<lambda>a. wp (f a) Q) Q)"
  by (simp add: wp_def bind_def fun_eq_iff split: prod.splits res.splits)

lemma wp_seq [simp]: "wp (seq m n) Q = wp m (on_val (\<lambda>_. wp n Q) Q)"
  by (simp add: seq_def)

lemma wp_sys [simp]:
  "wp (sys c) Q w =
     (case script w of
        r # rs \<Rightarrow> if fits c r then Q (Val r) (logged c r w) else Q Blocked w
      | [] \<Rightarrow> Q Blocked w)"
  by (simp add: wp_def sys_def logged_def split: list.split)

lemma wp_call [simp]:
  "wp (call c) Q w =
     (case script w of
        r # rs \<Rightarrow> if fits c r then Q (Val (r_val r)) (logged c r w) else Q Blocked w
      | [] \<Rightarrow> Q Blocked w)"
  by (simp add: call_def split: list.split)

lemma wp_say [simp]: "wp (say c) Q w = Q (Val ()) (said c w)"
  by (simp add: wp_def say_def said_def)

lemma wp_exit [simp]: "wp (exit_with c) Q = Q (Exited c)"
  by (simp add: wp_def exit_with_def fun_eq_iff)

lemma wp_undef [simp]: "wp undef Q = Q Undef"
  by (simp add: wp_def undef_def fun_eq_iff)

lemma wp_get_errno [simp]: "wp get_errno Q w = Q (Val (errno w)) w"
  by (simp add: wp_def get_errno_def)

lemma wp_set_errno [simp]: "wp (set_errno e) Q w = Q (Val ()) (w\<lparr>errno := e\<rparr>)"
  by (simp add: wp_def set_errno_def)

lemma wp_get_world [simp]: "wp get_world Q w = Q (Val w) w"
  by (simp add: wp_def get_world_def)

lemma wp_set_daemon_proc [simp]:
  "wp (set_daemon_proc v) Q w = Q (Val ()) (w\<lparr>daemon_proc := v\<rparr>)"
  by (simp add: wp_def set_daemon_proc_def)

lemma wp_guard [simp]: "wp (guard b) Q w = (if b then Q (Val ()) w else Q Undef w)"
  by (simp add: guard_def)

lemma wp_only_if [simp]: "wp (only_if b m) Q w = (if b then wp m Q w else Q (Val ()) w)"
  by (simp add: only_if_def)

lemma wp_again [simp]: "wp (again s) Q = Q (Val (Inl s))"
  by (simp add: again_def)

lemma wp_stop [simp]: "wp (stop a) Q = Q (Val (Inr a))"
  by (simp add: stop_def)

lemma wp_if [simp]: "wp (if b then m else n) Q w = (if b then wp m Q w else wp n Q w)"
  by simp

lemma wp_ifI: "(b \<Longrightarrow> wp m Q w) \<Longrightarrow> (\<not> b \<Longrightarrow> wp n Q w) \<Longrightarrow> wp (if b then m else n) Q w"
  by simp

lemma bind_ret: "bind (ret a) f = f a"
  by (simp add: bind_def ret_def fun_eq_iff)

lemma wp_conseq: "wp m P w \<Longrightarrow> (\<And>r w'. P r w' \<Longrightarrow> Q r w') \<Longrightarrow> wp m Q w"
  by (auto simp: wp_def)

lemma wpD: "wp m Q w \<Longrightarrow> m w = (r, w') \<Longrightarrow> Q r w'"
  by (simp add: wp_def)

lemma logged_simps [simp]:
  "script (logged c r w) = tl (script w)"
  "trace (logged c r w) = trace w @ [(c, r)]"
  "errno (logged c r w) = (if r_val r < 0 then r_err r else errno w)"
  by (simp_all add: logged_def)

lemma said_simps [simp]:
  "script (said c w) = script w"
  "trace (said c w) = trace w @ [(c, ok 0)]"
  "errno (said c w) = errno w"
  by (simp_all add: said_def)

subsection \<open>Loops take answers from the script\<close>

text \<open>
  \<open>shrinks m\<close>: \<open>m\<close> only takes answers from the front of the script.  \<open>eats m\<close>: when \<open>m\<close> returns, it has taken an
  answer.  \<open>cont_eats m\<close>: the same for a loop body that goes on.
\<close>

definition shrinks :: "'a io \<Rightarrow> bool" where
  "shrinks m \<longleftrightarrow> (\<forall>w. suffix (script (snd (m w))) (script w))"

definition eats :: "'a io \<Rightarrow> bool" where
  "eats m \<longleftrightarrow> shrinks m \<and> (\<forall>w a w'. m w = (Val a, w') \<longrightarrow> length (script w') < length (script w))"

definition cont_eats :: "('s + 'a) io \<Rightarrow> bool" where
  "cont_eats m \<longleftrightarrow> shrinks m \<and>
     (\<forall>w s w'. m w = (Val (Inl s), w') \<longrightarrow> length (script w') < length (script w))"

named_theorems eating

lemma shrinks_ret [eating]: "shrinks (ret a)"
  and shrinks_sys [eating]: "shrinks (sys c)"
  and shrinks_say [eating]: "shrinks (say c)"
  and shrinks_exit [eating]: "shrinks (exit_with e)"
  and shrinks_undef [eating]: "shrinks undef"
  and shrinks_get_errno [eating]: "shrinks get_errno"
  and shrinks_set_errno [eating]: "shrinks (set_errno e)"
  and shrinks_get_world [eating]: "shrinks get_world"
  and shrinks_set_daemon_proc [eating]: "shrinks (set_daemon_proc v)"
  by (simp_all add: shrinks_def ret_def sys_def say_def exit_with_def undef_def get_errno_def
      set_errno_def get_world_def set_daemon_proc_def suffix_Cons split: list.splits)

lemma shrinks_suffix: "shrinks m \<Longrightarrow> m w = (r, w') \<Longrightarrow> suffix (script w') (script w)"
  unfolding shrinks_def by (metis snd_conv)

lemma shrinks_bind [eating]:
  assumes "shrinks m" "\<And>a. shrinks (f a)"
  shows "shrinks (bind m f)"
  unfolding shrinks_def
proof
  fix w
  obtain r w' where m: "m w = (r, w')" by (cases "m w")
  have "suffix (script w') (script w)" using assms(1) m by (rule shrinks_suffix)
  moreover have "suffix (script (snd (f a w'))) (script w')" for a
    using assms(2) unfolding shrinks_def by blast
  ultimately show "suffix (script (snd (bind m f w))) (script w)"
    by (cases r) (auto simp: bind_def m intro: suffix_order.trans)
qed

lemma eats_shrinks: "eats m \<Longrightarrow> shrinks m" and cont_eats_shrinks: "cont_eats b \<Longrightarrow> shrinks b"
  by (simp_all add: eats_def cont_eats_def)

lemma eats_sys [eating]: "eats (sys c)"
  by (auto simp: eats_def shrinks_sys sys_def split: list.splits if_splits)

lemma eats_exit [eating]: "eats (exit_with c)"
  and eats_undef [eating]: "eats undef"
  by (simp_all add: eats_def shrinks_exit shrinks_undef exit_with_def undef_def)

lemma shrinksD: "shrinks m \<Longrightarrow> m w = (r, w') \<Longrightarrow> length (script w') \<le> length (script w)"
  by (rule suffix_length_le) (rule shrinks_suffix)

lemma wp_shrinks: "shrinks m \<Longrightarrow> wp m Q w \<Longrightarrow> wp m (\<lambda>r w'. Q r w' \<and> suffix (script w') (script w)) w"
  by (auto simp: wp_def dest: shrinks_suffix split: prod.splits)

lemma bind_eq_Val:
  "bind m f w = (Val b, w'') \<longleftrightarrow> (\<exists>a w'. m w = (Val a, w') \<and> f a w' = (Val b, w''))"
  by (auto simp: bind_def split: prod.splits res.splits)

lemma eats_bind1:
  assumes "eats m" "\<And>a. shrinks (f a)"
  shows "eats (bind m f)"
  using assms unfolding eats_def
  by (auto simp: bind_eq_Val intro: shrinks_bind le_less_trans dest!: shrinksD [OF assms(2)])

lemma eats_bind2:
  assumes "shrinks m" "\<And>a. eats (f a)"
  shows "eats (bind m f)"
  using assms unfolding eats_def
  by (auto simp: bind_eq_Val intro: shrinks_bind dest!: shrinksD [OF assms(1)])
    (meson order_less_le_trans)

lemma cont_eats_bind1:
  assumes "eats m" "\<And>a. shrinks (f a)"
  shows "cont_eats (bind m f)"
  using eats_bind1 [OF assms] by (auto simp: eats_def cont_eats_def)

lemma cont_eats_bind2:
  assumes "shrinks m" "\<And>a. cont_eats (f a)"
  shows "cont_eats (bind m f)"
  using assms unfolding cont_eats_def
  by (auto simp: bind_eq_Val intro: shrinks_bind dest!: shrinksD [OF assms(1)])
    (meson order_less_le_trans)

lemma cont_eats_eats: "eats m \<Longrightarrow> cont_eats m"
  by (simp add: eats_def cont_eats_def)

lemma cont_eats_stop: "cont_eats (stop a)"
  by (simp add: cont_eats_def stop_def shrinks_ret) (simp add: ret_def)

lemma shrinks_again [eating]: "shrinks (again s)" and shrinks_stop [eating]: "shrinks (stop a)"
  by (simp_all add: again_def stop_def shrinks_ret)

lemma shrinks_seq [eating]: "shrinks m \<Longrightarrow> shrinks n \<Longrightarrow> shrinks (seq m n)"
  by (simp add: seq_def shrinks_bind)

lemma shrinks_call [eating]: "shrinks (call c)"
  by (simp add: call_def shrinks_bind shrinks_sys shrinks_ret)

lemma eats_call: "eats (call c)"
  unfolding call_def by (intro eats_bind1 eats_sys shrinks_ret)

lemma shrinks_guard [eating]: "shrinks (guard b)"
  by (simp add: guard_def shrinks_ret shrinks_undef)

lemma shrinks_only_if [eating]: "shrinks m \<Longrightarrow> shrinks (only_if b m)"
  by (simp add: only_if_def shrinks_ret)

lemma shrinks_if [eating]:
  "(b \<Longrightarrow> shrinks m) \<Longrightarrow> (\<not> b \<Longrightarrow> shrinks n) \<Longrightarrow> shrinks (if b then m else n)"
  by simp

lemma shrinks_let [eating]: "(\<And>x. shrinks (f x)) \<Longrightarrow> shrinks (let x = a in f x)"
  by simp

lemma shrinks_case_option [eating]:
  "shrinks m \<Longrightarrow> (\<And>x. shrinks (f x)) \<Longrightarrow> shrinks (case v of None \<Rightarrow> m | Some x \<Rightarrow> f x)"
  by (cases v) simp_all

lemma shrinks_case_sum [eating]:
  "(\<And>x. shrinks (f x)) \<Longrightarrow> (\<And>x. shrinks (g x)) \<Longrightarrow> shrinks (case v of Inl x \<Rightarrow> f x | Inr x \<Rightarrow> g x)"
  by (cases v) simp_all

lemma shrinks_case_list [eating]:
  "shrinks m \<Longrightarrow> (\<And>x xs. shrinks (f x xs)) \<Longrightarrow> shrinks (case v of [] \<Rightarrow> m | x # xs \<Rightarrow> f x xs)"
  by (cases v) simp_all

lemma shrinks_case_prod [eating]:
  "(\<And>x y. shrinks (f x y)) \<Longrightarrow> shrinks (case v of (x, y) \<Rightarrow> f x y)"
  by (cases v) simp

lemma shrinks_do_all [eating]: "\<forall>m \<in> set ms. shrinks m \<Longrightarrow> shrinks (do_all ms)"
  by (induction ms) (simp_all add: shrinks_ret shrinks_seq)

lemma shrinks_loopn:
  assumes "\<And>s. shrinks (body s)"
  shows "shrinks (loopn n body s)"
proof (induction n arbitrary: s)
  case (Suc n)
  show ?case
    unfolding shrinks_def
  proof
    fix w
    obtain r w' where b: "body s w = (r, w')" by (cases "body s w")
    have "suffix (script w') (script w)" using shrinks_suffix [OF assms b] .
    moreover have "suffix (script (snd (loopn n body s' w'))) (script w')" for s'
      using Suc.IH unfolding shrinks_def by blast
    ultimately show "suffix (script (snd (loopn (Suc n) body s w))) (script w)"
      by (auto simp: b intro: suffix_order.trans split: res.splits sum.splits)
  qed
qed (simp add: shrinks_def)

lemma shrinks_loop [eating]: "(\<And>s. shrinks (body s)) \<Longrightarrow> shrinks (loop body s)"
  unfolding shrinks_def loop_def using shrinks_loopn [of body, unfolded shrinks_def] by blast

lemma shrinks_for_each [eating]:
  "(\<And>x s. shrinks (body x s)) \<Longrightarrow> shrinks (for_each xs body s)"
  by (induction xs arbitrary: s) (auto intro!: eating split: sum.splits)

lemma cont_eats_if:
  "(b \<Longrightarrow> cont_eats m) \<Longrightarrow> (\<not> b \<Longrightarrow> cont_eats n) \<Longrightarrow> cont_eats (if b then m else n)"
  by simp

lemma cont_eats_let: "(\<And>x. cont_eats (f x)) \<Longrightarrow> cont_eats (let x = a in f x)"
  by simp

lemma cont_eats_case_prod:
  "(\<And>x y. cont_eats (f x y)) \<Longrightarrow> cont_eats (case v of (x, y) \<Rightarrow> f x y)"
  by (cases v) simp

lemma cont_eats_case_list:
  "cont_eats m \<Longrightarrow> (\<And>x xs. cont_eats (f x xs)) \<Longrightarrow>
   cont_eats (case v of [] \<Rightarrow> m | x # xs \<Rightarrow> f x xs)"
  by (cases v) simp_all

lemma cont_eats_exit: "cont_eats (exit_with c)" and cont_eats_undef: "cont_eats undef"
  using eats_exit eats_undef cont_eats_eats by blast+

text \<open>Rules for loop bodies that begin with a call, after tests of the loop's state.\<close>

lemmas body_eating = cont_eats_bind1 cont_eats_stop cont_eats_if cont_eats_let cont_eats_case_prod
  cont_eats_case_list cont_eats_exit cont_eats_undef eats_sys eats_call eating

subsection \<open>The loop's laws\<close>

definition body_post :: "('s \<Rightarrow> world \<Rightarrow> bool) \<Rightarrow> ('a res \<Rightarrow> world \<Rightarrow> bool) \<Rightarrow> ('s + 'a) res \<Rightarrow> world \<Rightarrow> bool" where
  \<comment> \<open>the invariant when the loop goes on, the postcondition when it ends\<close>
  "body_post I Q r w =
     (case r of Val (Inl s) \<Rightarrow> I s w | Val (Inr a) \<Rightarrow> Q (Val a) w
      | Exited c \<Rightarrow> Q (Exited c) w | Undef \<Rightarrow> Q Undef w | Blocked \<Rightarrow> Q Blocked w)"

lemma body_post_simps [simp]:
  "body_post I Q (Val (Inl s)) = I s" "body_post I Q (Val (Inr a)) = Q (Val a)"
  "body_post I Q (Exited c) = Q (Exited c)" "body_post I Q Undef = Q Undef"
  "body_post I Q Blocked = Q Blocked"
  by (simp_all add: body_post_def fun_eq_iff)

subsection \<open>Triples\<close>

text \<open>
  \<open>triple P m Q E\<close>: from a world with \<open>P\<close>, \<open>m\<close> never reaches undefined behaviour, its result
  satisfies \<open>Q\<close>, and if it ends the process or waits for ever the world satisfies \<open>E\<close>.
\<close>

definition ends :: "('a \<Rightarrow> world \<Rightarrow> bool) \<Rightarrow> (world \<Rightarrow> bool) \<Rightarrow> 'a res \<Rightarrow> world \<Rightarrow> bool" where
  "ends Q E r w = (case r of Val a \<Rightarrow> Q a w | Undef \<Rightarrow> False | _ \<Rightarrow> E w)"

lemma ends_simps [simp]:
  "ends Q E (Val a) = Q a" "ends Q E (Exited c) = E" "ends Q E Blocked = E"
  "ends Q E Undef w = False"
  by (simp_all add: ends_def fun_eq_iff)

lemma ends_bind:
  assumes "wp m (ends P E) w" "\<And>a w'. P a w' \<Longrightarrow> wp (f a) (ends Q E) w'"
  shows "wp (bind m f) (ends Q E) w"
  unfolding wp_bind
  by (rule wp_conseq [OF assms(1)]) (use assms(2) in \<open>auto simp: ends_def on_val_def split: res.splits\<close>)

lemma ends_seq:
  "wp m (ends P E) w \<Longrightarrow> (\<And>a w'. P a w' \<Longrightarrow> wp n (ends Q E) w') \<Longrightarrow> wp (seq m n) (ends Q E) w"
  unfolding seq_def by (rule ends_bind)

lemma ends_conseq:
  assumes "wp m (ends P E) w" "\<And>a w'. P a w' \<Longrightarrow> Q a w'"
  shows "wp m (ends Q E) w"
  by (rule wp_conseq [OF assms(1)]) (use assms(2) in \<open>auto simp: ends_def split: res.splits\<close>)

lemma ends_for_each:
  assumes "I s w"
    and "\<And>x s w. x \<in> set xs \<Longrightarrow> I s w \<Longrightarrow>
      wp (body x s) (ends (\<lambda>v w'. case v of Inl s' \<Rightarrow> I s' w' | Inr a \<Rightarrow> A a w') E) w"
  shows "wp (for_each xs body s) (ends (\<lambda>v w'. case v of Inl s' \<Rightarrow> I s' w' | Inr a \<Rightarrow> A a w') E) w"
  using assms
proof (induction xs arbitrary: s w)
  case (Cons x xs)
  show ?case
    unfolding for_each.simps
    by (rule ends_bind [OF Cons.prems(2) [OF _ Cons.prems(1)]])
      (use Cons in \<open>auto split: sum.split_asm sum.split\<close>)
qed simp

definition triple :: "(world \<Rightarrow> bool) \<Rightarrow> 'a io \<Rightarrow> ('a \<Rightarrow> world \<Rightarrow> bool) \<Rightarrow> (world \<Rightarrow> bool) \<Rightarrow> bool" where
  "triple P m Q E \<longleftrightarrow> (\<forall>w. P w \<longrightarrow> wp m (ends Q E) w)"

lemma tripleI: "(\<And>w. P w \<Longrightarrow> wp m (ends Q E) w) \<Longrightarrow> triple P m Q E"
  by (simp add: triple_def)

lemma tripleD: "triple P m Q E \<Longrightarrow> P w \<Longrightarrow> wp m (ends Q E) w"
  by (simp add: triple_def)

lemma triple_conseq:
  assumes "triple P m Q E" "\<And>w. P' w \<Longrightarrow> P w" "\<And>a w. Q a w \<Longrightarrow> Q' a w" "\<And>w. E w \<Longrightarrow> E' w"
  shows "triple P' m Q' E'"
proof (rule tripleI)
  fix w assume "P' w"
  from wp_conseq [OF tripleD [OF assms(1) assms(2) [OF this]]]
  show "wp m (ends Q' E') w"
    by (rule wp_conseq) (use assms(3,4) in \<open>auto simp: ends_def split: res.splits\<close>)
qed

lemma triple_bind:
  assumes "triple P m Q E" "\<And>a. triple (Q a) (f a) R E"
  shows "triple P (bind m f) R E"
proof (rule tripleI)
  fix w assume "P w"
  from tripleD [OF assms(1) this] show "wp (bind m f) (ends R E) w"
    unfolding wp_bind
    by (rule wp_conseq) (use assms(2) in \<open>auto simp: ends_def on_val_def triple_def split: res.splits\<close>)
qed

lemma triple_seq: "triple P m (\<lambda>_. Q) E \<Longrightarrow> triple Q n R E \<Longrightarrow> triple P (seq m n) R E"
  unfolding seq_def by (rule triple_bind)

lemma triple_ret: "triple (Q a) (ret a) Q E"
  by (rule tripleI) simp

lemma triple_if:
  "(b \<Longrightarrow> triple P m Q E) \<Longrightarrow> (\<not> b \<Longrightarrow> triple P n Q E) \<Longrightarrow> triple P (if b then m else n) Q E"
  by simp

text \<open>
  \<open>safe Q\<close> as a postcondition: a result satisfies \<open>Q\<close>, and the code neither ends the process
  nor reaches undefined behaviour.
\<close>

definition safe :: "('a \<Rightarrow> world \<Rightarrow> bool) \<Rightarrow> 'a res \<Rightarrow> world \<Rightarrow> bool" where
  "safe Q r w = (case r of Val a \<Rightarrow> Q a w | Blocked \<Rightarrow> True | _ \<Rightarrow> False)"

lemma safe_simps [simp]:
  "safe Q (Val a) = Q a" "safe Q (Exited c) w = False" "safe Q Undef w = False" "safe Q Blocked w = True"
  by (simp_all add: safe_def fun_eq_iff)

lemma safe_conseq:
  assumes "wp m (safe Q) w" "\<And>a w'. Q a w' \<Longrightarrow> Q' a w'"
  shows "wp m (safe Q') w"
  by (rule wp_conseq [OF assms(1)]) (use assms(2) in \<open>auto simp: safe_def split: res.splits\<close>)

lemma safe_bind:
  assumes "wp m (safe Q) w" "\<And>a w'. Q a w' \<Longrightarrow> wp (f a) (safe R) w'"
  shows "wp (bind m f) (safe R) w"
  unfolding wp_bind
  by (rule wp_conseq [OF assms(1)]) (use assms(2) in \<open>auto simp: safe_def on_val_def split: res.splits\<close>)

lemma safe_seq:
  assumes "wp m (safe Q) w" "\<And>a w'. Q a w' \<Longrightarrow> wp n (safe R) w'"
  shows "wp (seq m n) (safe R) w"
  unfolding seq_def using assms by (rule safe_bind)

lemma safe_for_each:
  assumes "I s w"
    and "\<And>x s w. x \<in> set xs \<Longrightarrow> I s w \<Longrightarrow>
      wp (body x s) (safe (\<lambda>v. case v of Inl s' \<Rightarrow> I s' | Inr a \<Rightarrow> E a)) w"
  shows "wp (for_each xs body s) (safe (\<lambda>v. case v of Inl s' \<Rightarrow> I s' | Inr a \<Rightarrow> E a)) w"
  using assms
proof (induction xs arbitrary: s w)
  case Nil
  then show ?case by simp
next
  case (Cons x xs)
  have body: "wp (body x s) (safe (\<lambda>v. case v of Inl s' \<Rightarrow> I s' | Inr a \<Rightarrow> E a)) w"
    by (rule Cons.prems) (simp_all add: Cons.prems)
  have rest: "wp (for_each xs body s') (safe (\<lambda>v. case v of Inl s' \<Rightarrow> I s' | Inr a \<Rightarrow> E a)) w'"
    if "I s' w'" for s' w'
    by (rule Cons.IH [OF that]) (simp add: Cons.prems)
  show ?case
    unfolding for_each.simps
    by (rule safe_bind [OF body]) (auto split: sum.splits intro: rest)
qed

subsection \<open>Code only adds to the trace\<close>

text \<open>
  \<open>appends P m\<close>: a run of \<open>m\<close> only adds entries to the trace, each of them with \<open>P\<close>.
  \<open>since w w'\<close> are the entries added between two worlds.
\<close>

definition appends :: "(syscall \<times> sysret \<Rightarrow> bool) \<Rightarrow> 'a io \<Rightarrow> bool" where
  "appends P m \<longleftrightarrow> (\<forall>w. \<exists>new. trace (snd (m w)) = trace w @ new \<and> list_all P new)"

definition since :: "world \<Rightarrow> world \<Rightarrow> (syscall \<times> sysret) list" where
  "since w w' = drop (length (trace w)) (trace w')"

definition grown :: "world \<Rightarrow> world \<Rightarrow> bool" where
  "grown w w' \<longleftrightarrow> prefix (trace w) (trace w')"

lemma grown_refl [simp]: "grown w w" and since_refl [simp]: "since w w = []"
  by (simp_all add: grown_def since_def)

lemma grown_trans: "grown w w' \<Longrightarrow> grown w' w'' \<Longrightarrow> grown w w''"
  by (simp add: grown_def)

lemma grown_trace: "trace w' = trace w @ new \<Longrightarrow> grown w w' \<and> since w w' = new"
  by (simp add: grown_def since_def)

lemma since_trans: "grown w w' \<Longrightarrow> grown w' w'' \<Longrightarrow> since w w'' = since w w' @ since w' w''"
  by (auto simp: grown_def since_def elim!: prefixE)

lemma grown_logged [simp]: "grown w w' \<Longrightarrow> grown w (logged c r w')"
  "grown w w' \<Longrightarrow> since w (logged c r w') = since w w' @ [(c, r)]"
  by (auto simp: grown_def since_def elim!: prefixE)

lemma grown_said [simp]: "grown w w' \<Longrightarrow> grown w (said c w')"
  "grown w w' \<Longrightarrow> since w (said c w') = since w w' @ [(c, ok 0)]"
  by (auto simp: grown_def since_def elim!: prefixE)

named_theorems appending

lemma appends_ret [appending]: "appends P (ret a)"
  and appends_sys [appending]: "(\<And>r. P (c, r)) \<Longrightarrow> appends P (sys c)"
  and appends_say [appending]: "P (c, ok 0) \<Longrightarrow> appends P (say c)"
  and appends_exit [appending]: "appends P (exit_with e)"
  and appends_undef [appending]: "appends P undef"
  by (simp_all add: appends_def ret_def sys_def say_def exit_with_def undef_def split: list.splits)

lemma appends_bind [appending]:
  assumes "appends P m" "\<And>a. appends P (f a)"
  shows "appends P (bind m f)"
  unfolding appends_def
proof
  fix w
  obtain r w' where m: "m w = (r, w')" by (cases "m w")
  then obtain new where new: "trace w' = trace w @ new" "list_all P new"
    using assms(1) unfolding appends_def by (metis snd_conv)
  have more: "\<exists>new'. trace (snd (f a w')) = trace w' @ new' \<and> list_all P new'" for a
    using assms(2) unfolding appends_def by blast
  show "\<exists>new. trace (snd (bind m f w)) = trace w @ new \<and> list_all P new"
  proof (cases r)
    case (Val a)
    then show ?thesis using more [of a] new by (auto simp: bind_def m)
  qed (use new in \<open>simp_all add: bind_def m\<close>)
qed

lemma appends_seq [appending]: "appends P m \<Longrightarrow> appends P n \<Longrightarrow> appends P (seq m n)"
  by (simp add: seq_def appends_bind)

lemma appends_call [appending]: "(\<And>r. P (c, r)) \<Longrightarrow> appends P (call c)"
  by (simp add: call_def appends_bind appends_sys appends_ret)

lemma appends_guard [appending]: "appends P (guard b)"
  by (simp add: guard_def appends_ret appends_undef)

lemma appends_only_if [appending]: "appends P m \<Longrightarrow> appends P (only_if b m)"
  by (simp add: only_if_def appends_ret)

lemma appends_steps [appending]: "appends P (again s)" "appends P (stop a)"
  by (simp_all add: again_def stop_def appends_ret)

lemma appends_if [appending]:
  "(b \<Longrightarrow> appends P m) \<Longrightarrow> (\<not> b \<Longrightarrow> appends P n) \<Longrightarrow> appends P (if b then m else n)"
  by simp

lemma appends_case_option [appending]:
  "appends P m \<Longrightarrow> (\<And>x. appends P (f x)) \<Longrightarrow> appends P (case v of None \<Rightarrow> m | Some x \<Rightarrow> f x)"
  by (cases v) simp_all

lemma appends_case_sum [appending]:
  "(\<And>x. appends P (f x)) \<Longrightarrow> (\<And>x. appends P (g x)) \<Longrightarrow> appends P (case v of Inl x \<Rightarrow> f x | Inr x \<Rightarrow> g x)"
  by (cases v) simp_all

lemma appends_case_list [appending]:
  "appends P m \<Longrightarrow> (\<And>x xs. appends P (f x xs)) \<Longrightarrow> appends P (case v of [] \<Rightarrow> m | x # xs \<Rightarrow> f x xs)"
  by (cases v) simp_all

lemma appends_case_prod [appending]:
  "(\<And>x y. appends P (f x y)) \<Longrightarrow> appends P (case v of (x, y) \<Rightarrow> f x y)"
  by (cases v) simp

lemma appends_case_prod_app [appending]:
  "(\<And>x y. appends P (f x y s)) \<Longrightarrow> appends P ((case v of (x, y) \<Rightarrow> f x y) s)"
  by (cases v) simp

lemma appends_get_world [appending]: "appends P get_world"
  by (simp add: appends_def get_world_def)

lemma appends_let [appending]: "(\<And>x. appends P (f x)) \<Longrightarrow> appends P (let x = a in f x)"
  by simp

lemma appends_do_all [appending]: "list_all (appends P) ms \<Longrightarrow> appends P (do_all ms)"
  by (induction ms) (simp_all add: appends_ret appends_seq)

lemma appends_for_each [appending]:
  "(\<And>x s. appends P (body x s)) \<Longrightarrow> appends P (for_each xs body s)"
  by (induction xs arbitrary: s) (auto intro!: appending split: sum.splits)

lemma appends_loopn:
  assumes "\<And>s. appends P (body s)"
  shows "appends P (loopn n body s)"
proof (induction n arbitrary: s)
  case (Suc n)
  have "loopn (Suc n) body s = bind (body s) (\<lambda>v. case v of Inl s' \<Rightarrow> loopn n body s' | Inr a \<Rightarrow> ret a)"
    by (auto simp: bind_def ret_def fun_eq_iff split: prod.split res.split sum.split)
  then show ?case by (auto simp del: loopn.simps intro!: appending assms Suc.IH)
qed (simp add: appends_def)

lemma appends_loop [appending]: "(\<And>s. appends P (body s)) \<Longrightarrow> appends P (loop body s)"
  using appends_loopn [of P body] unfolding appends_def loop_def by blast

lemma appends_get_errno [appending]: "appends P get_errno"
  by (simp add: appends_def get_errno_def)

lemma appends_mono: "appends P m \<Longrightarrow> (\<And>e. P e \<Longrightarrow> Q e) \<Longrightarrow> appends Q m"
  unfolding appends_def by (metis list.pred_mono_strong)

lemma wp_appends:
  assumes "appends P m" "wp m Q w"
  shows "wp m (\<lambda>r w'. Q r w' \<and> grown w w' \<and> list_all P (since w w')) w"
proof -
  obtain r w' where m: "m w = (r, w')" by (cases "m w")
  then obtain new where "trace w' = trace w @ new" "list_all P new"
    using assms(1) unfolding appends_def by (metis snd_conv)
  with assms(2) m grown_trace [of w' w new] show ?thesis by (simp add: wp_def)
qed

lemma safe_appends:
  assumes "appends P m" "wp m (safe Q) w"
  shows "wp m (safe (\<lambda>a w'. Q a w' \<and> grown w w' \<and> list_all P (since w w'))) w"
  by (rule wp_conseq [OF wp_appends [OF assms]]) (auto simp: safe_def split: res.splits)

text \<open>\<open>yields Q\<close> as a postcondition: if there is a result it satisfies \<open>Q\<close>.\<close>

definition yields :: "('a \<Rightarrow> world \<Rightarrow> bool) \<Rightarrow> 'a res \<Rightarrow> world \<Rightarrow> bool" where
  "yields Q r w = (case r of Val a \<Rightarrow> Q a w | _ \<Rightarrow> True)"

lemma yields_simps [simp]:
  "yields Q (Val a) = Q a" "yields Q (Exited c) w = True" "yields Q Undef w = True" "yields Q Blocked w = True"
  by (simp_all add: yields_def fun_eq_iff)

lemma yields_conseq:
  assumes "wp m (yields Q) w" "\<And>a w'. Q a w' \<Longrightarrow> Q' a w'"
  shows "wp m (yields Q') w"
  by (rule wp_conseq [OF assms(1)]) (use assms(2) in \<open>auto simp: yields_def split: res.splits\<close>)

lemma yields_bind:
  assumes "wp m (yields Q) w" "\<And>a w'. Q a w' \<Longrightarrow> wp (f a) (yields R) w'"
  shows "wp (bind m f) (yields R) w"
  unfolding wp_bind
  by (rule wp_conseq [OF assms(1)]) (use assms(2) in \<open>auto simp: yields_def on_val_def split: res.splits\<close>)

lemma yields_seq:
  assumes "wp m (yields Q) w" "\<And>a w'. Q a w' \<Longrightarrow> wp n (yields R) w'"
  shows "wp (seq m n) (yields R) w"
  unfolding seq_def using assms by (rule yields_bind)

text \<open>The first \<open>n\<close> rounds of a loop that does not end.\<close>

fun iterate :: "nat \<Rightarrow> ('s \<Rightarrow> ('s + 'a) io) \<Rightarrow> 's \<Rightarrow> 's io" where
  "iterate 0 body s = ret s"
| "iterate (Suc n) body s = bind (body s) (\<lambda>v. case v of Inl s' \<Rightarrow> iterate n body s' | Inr _ \<Rightarrow> undef)"

lemma wp_iterate:
  assumes "\<And>k s w. I k s w \<Longrightarrow> wp (body s) (yields (\<lambda>v w'. case v of Inl s' \<Rightarrow> I (Suc k) s' w' | Inr _ \<Rightarrow> True)) w"
    and "I k s w"
  shows "wp (iterate n body s) (yields (I (k + n))) w"
  using assms(2)
proof (induction n arbitrary: k s w)
  case (Suc n)
  show ?case
    unfolding iterate.simps
    by (rule yields_bind [OF assms(1) [OF Suc.prems]]) (use Suc.IH [of "Suc k"] in \<open>auto split: sum.split\<close>)
qed simp

locale consuming =
  fixes body :: "'s \<Rightarrow> ('s + 'a) io"
  assumes consumes: "cont_eats (body s)"
begin

lemma shrinks_body: "shrinks (body s)"
  using consumes by (rule cont_eats_shrinks)

lemma fuel_enough:
  "length (script w) < m \<Longrightarrow> length (script w) < n \<Longrightarrow> loopn m body s w = loopn n body s w"
proof (induction m arbitrary: n s w)
  case (Suc m)
  then obtain n' where n: "n = Suc n'" by (cases n) auto
  have "length (script w') < length (script w)" if "body s w = (Val (Inl s'), w')" for s' w'
    using consumes [of s] that unfolding cont_eats_def by blast
  with Suc n show ?case
    by (auto split: prod.splits res.splits sum.splits) (metis less_trans_Suc not_less_eq)
qed simp

lemma cont_less:
  "body s w = (Val (Inl s'), w') \<Longrightarrow> length (script w') < length (script w)"
  using consumes [of s] unfolding cont_eats_def by blast

text \<open>The loop is its body followed by the loop: the fuel never ends it.\<close>

lemma loop_unfold:
  "loop body s = bind (body s) (\<lambda>v. case v of Inl s' \<Rightarrow> loop body s' | Inr a \<Rightarrow> ret a)"
proof
  fix w
  obtain r w' where b: "body s w = (r, w')" by (cases "body s w")
  show "loop body s w = bind (body s) (\<lambda>v. case v of Inl s' \<Rightarrow> loop body s' | Inr a \<Rightarrow> ret a) w"
  proof (cases "\<exists>s'. r = Val (Inl s')")
    case True
    then obtain s' where r: "r = Val (Inl s')" by blast
    have "loopn (length (script w)) body s' w' = loopn (Suc (length (script w'))) body s' w'"
      using cont_less [OF b [unfolded r]] by (intro fuel_enough) simp_all
    then show ?thesis by (simp add: loop_def bind_def b r)
  next
    case False
    with b show ?thesis
      by (cases r) (auto simp: loop_def bind_def ret_def split: sum.splits)
  qed
qed

lemma loop_iterate:
  assumes "\<And>s w a w'. body s w \<noteq> (Val (Inr a), w')"
  shows "loop body s = bind (iterate n body s) (loop body)"
proof (induction n arbitrary: s)
  case (Suc n)
  have "loop body s = bind (body s) (\<lambda>v. case v of Inl s' \<Rightarrow> loop body s' | Inr a \<Rightarrow> ret a)"
    by (rule loop_unfold)
  also have "\<dots> = bind (body s) (\<lambda>v. case v of Inl s' \<Rightarrow> bind (iterate n body s') (loop body) | Inr a \<Rightarrow> ret a)"
    by (rule arg_cong [where f = "bind (body s)"], rule ext) (simp add: Suc.IH [symmetric] split: sum.split)
  also have "\<dots> = bind (iterate (Suc n) body s) (loop body)"
    using assms [of s] by (auto simp: bind_def fun_eq_iff split: prod.splits res.splits sum.splits)
  finally show ?case .
qed (simp add: bind_def ret_def fun_eq_iff)

lemma wp_loop:
  assumes "I s w"
    and "\<And>s w. I s w \<Longrightarrow> wp (body s) (body_post I Q) w"
  shows "wp (loop body s) Q w"
  using assms(1)
proof (induction "length (script w)" arbitrary: s w rule: less_induct)
  case less
  obtain r w' where b: "body s w = (r, w')" by (cases "body s w")
  have post: "body_post I Q r w'"
    using assms(2) [OF less.prems] b by (simp add: wp_def)
  show ?case
  proof (cases "\<exists>s'. r = Val (Inl s')")
    case True
    then obtain s' where r: "r = Val (Inl s')" by blast
    have "wp (loop body s') Q w'"
      using less.hyps [OF cont_less [OF b [unfolded r]]] post r by simp
    then show ?thesis by (subst loop_unfold) (simp add: wp_def bind_def b r)
  next
    case False
    then show ?thesis
      using post by (subst loop_unfold)
        (auto simp: wp_def bind_def b ret_def body_post_def split: res.splits sum.splits)
  qed
qed

lemma triple_loop:
  assumes "\<And>s. triple (I s) (body s) (\<lambda>v. case v of Inl s' \<Rightarrow> I s' | Inr a \<Rightarrow> Q a) E"
  shows "triple (I s) (loop body s) Q E"
proof (rule tripleI)
  fix w
  assume "I s w"
  then show "wp (loop body s) (ends Q E) w"
  proof (rule wp_loop [where I = I])
    fix s' w'
    assume "I s' w'"
    from tripleD [OF assms this]
    show "wp (body s') (body_post I (ends Q E)) w'"
      by (rule wp_conseq) (auto simp: ends_def body_post_def split: res.splits sum.splits)
  qed
qed

end

end
