(* ===== verification/Wrappers.thy ===== *)
theory Wrappers
  imports Posix Inet6
begin

text \<open>
  The error routines of lib/error.c and the wrapper functions of lib/wrapunix.c,
  lib/wrapsock.c, lib/wrapstdio.c, lib/wraplib.c and lib/signal.c: each calls the function of
  the same name in lower case and ends the process with a message when it fails.

  Proved here: a message never overruns the buffer it is formatted in, \<open>Accept\<close> retries
  aborted connections and nothing else, and \<open>Write\<close> returns only after a complete write.
\<close>

subsection \<open>lib/error.c\<close>

definition LOG_ERR :: int where "LOG_ERR = 3"
definition LOG_INFO :: int where "LOG_INFO = 6"

definition snprintf :: "nat \<Rightarrow> string \<Rightarrow> string" where
  \<comment> \<open>what \<open>snprintf(buf, n, ...)\<close> leaves in the buffer of the formatted text\<close>
  "snprintf n s = take (n - 1) (c_string s)"

definition err_text :: "bool \<Rightarrow> string \<Rightarrow> string \<Rightarrow> string" where
  \<comment> \<open>\<open>buf\<close> of \<open>err_doit\<close>: its argument \<open>msg\<close> is the text of \<open>fmt\<close> and \<open>ap\<close>\<close>
  "err_text errnoflag msg errstr =
     (let buf = snprintf MAXLINE msg;
          n = length buf;
          buf = (if errnoflag then buf @ snprintf (MAXLINE - n) ('': '' @ errstr) else buf)
      in buf @ [newline])"

definition err_doit :: "bool \<Rightarrow> int \<Rightarrow> string \<Rightarrow> unit io" where
  "err_doit errnoflag level msg =
     bind get_world (\<lambda>w.
     let buf = err_text errnoflag msg (strerror w (errno w)) in
     if daemon_proc w \<noteq> 0 then say (SysOther ''syslog'' [level] [buf])
     else do_all [
       say (SysOther ''fflush'' [STDOUT_FILENO] []),
       say (SysPut STDERR_FILENO buf),
       say (SysOther ''fflush'' [STDERR_FILENO] [])])"

definition err_ret :: "string \<Rightarrow> unit io" where
  "err_ret msg = err_doit True LOG_INFO msg"

definition err_sys :: "string \<Rightarrow> 'a io" where
  "err_sys msg = seq (err_doit True LOG_ERR msg) (exit_with 1)"

definition err_dump :: "string \<Rightarrow> 'a io" where
  \<comment> \<open>\<open>abort()\<close>: the process dies of SIGABRT (6), status 134\<close>
  "err_dump msg = seq (err_doit True LOG_ERR msg) (exit_with 134)"

definition err_msg :: "string \<Rightarrow> unit io" where
  "err_msg msg = err_doit False LOG_INFO msg"

definition err_quit :: "string \<Rightarrow> 'a io" where
  "err_quit msg = seq (err_doit False LOG_ERR msg) (exit_with 1)"

definition unless_neg1 :: "string \<Rightarrow> int \<Rightarrow> int io" where
  "unless_neg1 msg n = (if n = - 1 then err_sys msg else ret n)"

definition unless_neg :: "string \<Rightarrow> int \<Rightarrow> int io" where
  "unless_neg msg n = (if n < 0 then err_sys msg else ret n)"

definition unless_null :: "string \<Rightarrow> int \<Rightarrow> int io" where
  "unless_null msg p = (if p = 0 then err_sys msg else ret p)"

definition void :: "'a io \<Rightarrow> unit io" where
  "void m = bind m (\<lambda>_. ret ())"

text \<open>What an error exit does: it writes one message and ends with status 1.\<close>

definition err_world :: "bool \<Rightarrow> int \<Rightarrow> string \<Rightarrow> world \<Rightarrow> world" where
  "err_world flag level msg w =
     (let buf = err_text flag msg (strerror w (errno w)) in
      if daemon_proc w \<noteq> 0 then said (SysOther ''syslog'' [level] [buf]) w
      else said (SysOther ''fflush'' [STDERR_FILENO] [])
        (said (SysPut STDERR_FILENO buf) (said (SysOther ''fflush'' [STDOUT_FILENO] []) w)))"

lemma wp_err_doit [simp]:
  "wp (err_doit flag level msg) Q w = Q (Val ()) (err_world flag level msg w)"
  by (simp add: err_doit_def err_world_def Let_def)

lemma wp_err_sys [simp]: "wp (err_sys msg) Q w = Q (Exited 1) (err_world True LOG_ERR msg w)"
  by (simp add: err_sys_def)

lemma wp_err_quit [simp]: "wp (err_quit msg) Q w = Q (Exited 1) (err_world False LOG_ERR msg w)"
  by (simp add: err_quit_def)

lemma wp_err_ret [simp]: "wp (err_ret msg) Q w = Q (Val ()) (err_world True LOG_INFO msg w)"
  by (simp add: err_ret_def)

lemma wp_err_msg [simp]: "wp (err_msg msg) Q w = Q (Val ()) (err_world False LOG_INFO msg w)"
  by (simp add: err_msg_def)

lemma err_world_script [simp]: "script (err_world flag level msg w) = script w"
  by (simp add: err_world_def Let_def)

lemma shrinks_err_doit [eating]: "shrinks (err_doit flag level msg)"
  unfolding err_doit_def by (intro eating) (auto intro: eating)

lemma shrinks_err_ret [eating]: "shrinks (err_ret msg)"
  and shrinks_err_msg [eating]: "shrinks (err_msg msg)"
  and shrinks_err_sys [eating]: "shrinks (err_sys msg)"
  and shrinks_err_quit [eating]: "shrinks (err_quit msg)"
  unfolding err_ret_def err_msg_def err_sys_def err_quit_def by (intro eating)+

lemma shrinks_unless [eating]: "shrinks (unless_neg1 msg n)" "shrinks (unless_neg msg n)"
    "shrinks (unless_null msg n)"
  unfolding unless_neg1_def unless_neg_def unless_null_def by (intro eating)+

lemma shrinks_void [eating]: "shrinks m \<Longrightarrow> shrinks (void m)"
  unfolding void_def by (intro eating)

lemma eats_err_sys: "eats (err_sys msg)"
  unfolding err_sys_def seq_def by (intro eats_bind2 eating eats_exit)

lemma eats_err_quit: "eats (err_quit msg)"
  unfolding err_quit_def seq_def by (intro eats_bind2 eating eats_exit)

lemma cont_eats_err_sys: "cont_eats (err_sys msg)" and cont_eats_err_quit: "cont_eats (err_quit msg)"
  by (rule cont_eats_eats, rule eats_err_sys) (rule cont_eats_eats, rule eats_err_quit)

lemma wp_unless [simp]:
  "wp (unless_neg1 msg n) Q w =
     (if n = - 1 then Q (Exited 1) (err_world True LOG_ERR msg w) else Q (Val n) w)"
  "wp (unless_neg msg n) Q w =
     (if n < 0 then Q (Exited 1) (err_world True LOG_ERR msg w) else Q (Val n) w)"
  "wp (unless_null msg n) Q w =
     (if n = 0 then Q (Exited 1) (err_world True LOG_ERR msg w) else Q (Val n) w)"
  by (simp_all add: unless_neg1_def unless_neg_def unless_null_def)

subsection \<open>Counting in a trace\<close>

text \<open>
  What a run has done so far is computed from its trace, call by call.  The locale \<open>tally\<close> is
  such a computation that does not look at messages; it is carried through the primitives.
\<close>

locale tally =
  fixes step :: "'s \<Rightarrow> syscall \<times> sysret \<Rightarrow> 's" and start :: 's
  assumes silent_put: "step s (SysPut fd t, r) = s"
    and silent_err: "nm \<in> {''syslog'', ''fflush''} \<Longrightarrow> step s (SysOther nm is ss, r) = s"
begin

definition total :: "world \<Rightarrow> 's" where
  "total w = foldl step start (trace w)"

lemma total_logged [simp]: "total (logged c r w) = step (total w) (c, r)"
  and total_said [simp]: "total (said c w) = step (total w) (c, ok 0)"
  and total_errno [simp]: "total (w\<lparr>errno := e\<rparr>) = total w"
  and total_daemon [simp]: "total (w\<lparr>daemon_proc := v\<rparr>) = total w"
  by (simp_all add: total_def)

lemma total_err [simp]: "total (err_world flag level msg w) = total w"
  by (simp add: err_world_def Let_def silent_put silent_err)

lemma total_start: "total (Posix.start rs) = start"
  by (simp add: total_def Posix.start_def)

text \<open>Programs that leave the total as it is, however they end.\<close>

definition quiet :: "'a io \<Rightarrow> bool" where
  "quiet m \<longleftrightarrow> (\<forall>w. wp m (\<lambda>_ w'. total w' = total w) w)"

lemma quietI: "(\<And>w. wp m (\<lambda>_ w'. total w' = total w) w) \<Longrightarrow> quiet m"
  by (simp add: quiet_def)

lemma quiet_wp: "quiet m \<Longrightarrow> wp m (\<lambda>_ w'. total w' = total w) w"
  by (simp add: quiet_def)

lemma quietD: "quiet m \<Longrightarrow> wp m (yields (\<lambda>_ w'. total w' = total w)) w"
  by (rule wp_conseq [OF quiet_wp]) (auto simp: yields_def split: res.splits)

lemma quiet_bind:
  assumes "quiet m" "\<And>a. quiet (f a)"
  shows "quiet (bind m f)"
proof (rule quietI)
  fix w
  have "on_val (\<lambda>a. wp (f a) (\<lambda>_ w'. total w' = total w)) (\<lambda>_ w'. total w' = total w) r w1"
    if "total w1 = total w" for r w1
    using that quiet_wp [OF assms(2), of _ w1] by (simp add: on_val_def split: res.splits)
  then show "wp (bind m f) (\<lambda>_ w'. total w' = total w) w"
    unfolding wp_bind by (rule wp_conseq [OF quiet_wp [OF assms(1)]])
qed

lemma quiet_seq: "quiet m \<Longrightarrow> quiet n \<Longrightarrow> quiet (seq m n)"
  unfolding seq_def by (rule quiet_bind)

lemma quiet_if: "(b \<Longrightarrow> quiet m) \<Longrightarrow> (\<not> b \<Longrightarrow> quiet n) \<Longrightarrow> quiet (if b then m else n)"
  by simp

lemma quiet_only_if: "quiet m \<Longrightarrow> quiet (only_if b m)"
  by (simp add: only_if_def quiet_def)

lemma quiet_plain [simp]: "quiet (ret a)" "quiet (guard b)" "quiet (say (SysPut fd t))"
  "quiet (err_msg s)" "quiet (err_ret s)" "quiet (err_sys s :: 'c io)" "quiet (err_quit s :: 'd io)"
  "quiet (set_errno e)" "quiet get_errno" "quiet (again x :: ('e + 'f) io)" "quiet (stop y :: ('g + 'h) io)"
  "quiet (unless_neg s n)" "quiet (unless_neg1 s n)" "quiet (unless_null s n)" "quiet (undef :: 'i io)"
  "quiet (exit_with c :: 'j io)"
  unfolding quiet_def by (simp_all add: silent_put)

lemma quiet_do_all: "(\<And>m. m \<in> set ms \<Longrightarrow> quiet m) \<Longrightarrow> quiet (do_all ms)"
  by (induction ms) (simp_all add: quiet_seq)

lemma quiet_case_sum:
  "(\<And>a. x = Inl a \<Longrightarrow> quiet (f a)) \<Longrightarrow> (\<And>b. x = Inr b \<Longrightarrow> quiet (g b)) \<Longrightarrow> quiet (case x of Inl a \<Rightarrow> f a | Inr b \<Rightarrow> g b)"
  by (cases x) simp_all

lemma quiet_case_option:
  "quiet m \<Longrightarrow> (\<And>b. x = Some b \<Longrightarrow> quiet (g b)) \<Longrightarrow> quiet (case x of None \<Rightarrow> m | Some b \<Rightarrow> g b)"
  by (cases x) simp_all

lemma quiet_case_list:
  "quiet m \<Longrightarrow> (\<And>y ys. quiet (g y ys)) \<Longrightarrow> quiet (case x of [] \<Rightarrow> m | y # ys \<Rightarrow> g y ys)"
  by (cases x) simp_all

lemma quiet_case_prod: "(\<And>a b. quiet (f a b)) \<Longrightarrow> quiet (case x of (a, b) \<Rightarrow> f a b)"
  by (cases x) simp

lemma quiet_sys: "(\<And>s r. step s (c, r) = s) \<Longrightarrow> quiet (sys c)"
  and quiet_call: "(\<And>s r. step s (c, r) = s) \<Longrightarrow> quiet (call c)"
  and quiet_say: "(\<And>s r. step s (c, r) = s) \<Longrightarrow> quiet (say c)"
  unfolding quiet_def by (simp_all split: list.split)

lemma quiet_loopn: "(\<And>s. quiet (body s)) \<Longrightarrow> quiet (loopn n body s)"
proof (induction n arbitrary: s)
  case (Suc n)
  show ?case
  proof (rule quietI)
    fix w
    obtain r w1 where b: "body s w = (r, w1)" by (cases "body s w")
    then have "total w1 = total w"
      using quiet_wp [OF Suc.prems, of s w] by (simp add: wp_def)
    then show "wp (loopn (Suc n) body s) (\<lambda>_ w'. total w' = total w) w"
      using b quiet_wp [OF Suc.IH [OF Suc.prems], of _ w1]
      by (auto simp: wp_def split: res.splits sum.splits prod.splits)
  qed
qed (rule quietI, simp add: wp_def)

lemma quiet_loop: "(\<And>s. quiet (body s)) \<Longrightarrow> quiet (loop body s)"
  by (rule quietI) (use quiet_wp [OF quiet_loopn, of body] in \<open>simp add: wp_def loop_def del: loopn.simps\<close>)

lemmas quiet_intros = quiet_bind quiet_seq quiet_if quiet_only_if quiet_do_all quiet_case_sum
  quiet_case_option quiet_case_list quiet_case_prod quiet_loop quiet_plain

end

lemma wp_void [simp]: "wp (void m) Q w = wp m (on_val (\<lambda>_. Q (Val ())) Q) w"
proof -
  have "wp (ret ()) Q = Q (Val ())" by (simp add: fun_eq_iff)
  then show ?thesis by (simp add: void_def)
qed

subsection \<open>\<open>printf\<close> and \<open>perror\<close>\<close>

definition perror :: "string \<Rightarrow> unit io" where
  "perror s =
     bind get_world (\<lambda>w. say (SysPut STDERR_FILENO (s @ '': '' @ strerror w (errno w) @ [newline])))"

definition printf :: "string \<Rightarrow> unit io" where
  "printf s = say (SysPut STDOUT_FILENO s)"

lemma wp_perror [simp]:
  "wp (perror s) Q w = Q (Val ()) (said (SysPut STDERR_FILENO (s @ '': '' @ strerror w (errno w) @ [newline])) w)"
  by (simp add: perror_def)

lemma wp_printf [simp]: "wp (printf s) Q w = Q (Val ()) (said (SysPut STDOUT_FILENO s) w)"
  by (simp add: printf_def)

lemma shrinks_perror [eating]: "shrinks (perror s)" and shrinks_printf [eating]: "shrinks (printf s)"
  unfolding perror_def printf_def by (intro eating)+

subsection \<open>lib/signal.c\<close>

text \<open>Of the handler only its name matters here; \<open>Inl ()\<close> stands for \<open>SIG_ERR\<close>.\<close>

definition SIGALRM :: int where "SIGALRM = 14"
definition SIGCHLD :: int where "SIGCHLD = 20"
definition SIGPIPE :: int where "SIGPIPE = 13"
definition SIGHUP :: int where "SIGHUP = 1"
definition SIGINT :: int where "SIGINT = 2"
definition SIGTERM :: int where "SIGTERM = 15"
definition SA_RESTART :: int where "SA_RESTART = 2"

definition signal :: "int \<Rightarrow> string \<Rightarrow> (unit + string) io" where
  "signal signo func =
     (let sa_flags = (if signo = SIGALRM then 0 \<comment> \<open>no \<open>SA_INTERRUPT\<close> on this system\<close>
                      else SA_RESTART)
      in bind (sys (SysOther ''sigaction'' [signo, sa_flags] [func])) (\<lambda>r.
         ret (if r_val r < 0 then Inl () else Inr (r_data r))))"

definition Signal :: "int \<Rightarrow> string \<Rightarrow> string io" where
  "Signal signo func =
     bind (signal signo func) (\<lambda>v. case v of Inl _ \<Rightarrow> err_sys ''signal error'' | Inr f \<Rightarrow> ret f)"

subsection \<open>lib/wrapunix.c\<close>

text \<open>Pointers that are only handed on are the integer the call returned, 0 for \<open>NULL\<close>.\<close>

definition Calloc :: "int \<Rightarrow> int \<Rightarrow> int io" where
  "Calloc n sz =
     bind (call (SysOther ''calloc'' [n, sz] [])) (unless_null ''calloc error'')"

definition Close :: "int \<Rightarrow> unit io" where
  "Close fd =
     void (bind (call (SysClose fd)) (unless_neg1 ''close error''))"

lemma shrinks_Close [eating]: "shrinks (Close fd)"
  unfolding Close_def by (intro eating)

definition Dup2 :: "int \<Rightarrow> int \<Rightarrow> unit io" where
  "Dup2 fd1 fd2 =
     void (bind (call (SysOther ''dup2'' [fd1, fd2] [])) (unless_neg1 ''dup2 error''))"

definition Fcntl :: "int \<Rightarrow> int \<Rightarrow> int \<Rightarrow> int io" where
  "Fcntl fd cmd arg =
     bind (call (SysFcntl fd cmd arg)) (unless_neg1 ''fcntl error'')"

definition Gettimeofday :: "(int \<times> int) io" where
  \<comment> \<open>seconds and microseconds\<close>
  "Gettimeofday =
     bind (sys SysTime) (\<lambda>r.
     bind (unless_neg1 ''gettimeofday error'' (r_val r)) (\<lambda>s. ret (s, r_num r)))"

definition Ioctl :: "int \<Rightarrow> int \<Rightarrow> int \<Rightarrow> int io" where
  "Ioctl fd request arg =
     bind (call (SysOther ''ioctl'' [fd, request, arg] [])) (unless_neg1 ''ioctl error'')"

definition Fork :: "int io" where
  "Fork =
     bind (call (SysFork)) (unless_neg1 ''fork error'')"

definition Malloc :: "int \<Rightarrow> int io" where
  "Malloc sz =
     bind (call (SysOther ''malloc'' [sz] [])) (unless_null ''malloc error'')"

definition Mkstemp :: "string \<Rightarrow> (int \<times> string) io" where
  \<comment> \<open>the descriptor and what has become of the template\<close>
  "Mkstemp template =
     bind (sys (SysOther ''mkstemp'' [] [template])) (\<lambda>r.
     if r_val r < 0 then err_quit ''mkstemp error'' else ret (r_val r, r_data r))"

definition Mmap :: "int \<Rightarrow> int \<Rightarrow> int \<Rightarrow> int \<Rightarrow> int \<Rightarrow> int \<Rightarrow> int io" where
  "Mmap addr len prot flags fd offset =
     bind (call (SysOther ''mmap'' [addr, len, prot, flags, fd, offset] [])) (unless_neg1 ''mmap error'')"

definition Open :: "string \<Rightarrow> int \<Rightarrow> int \<Rightarrow> int io" where
  "Open pathname oflag mode =
     bind (call (SysOther ''open'' [oflag, mode] [pathname])) (unless_neg1 (''open error for '' @ pathname))"

definition Pipe :: "(int \<times> int) io" where
  \<comment> \<open>the two descriptors stored in \<open>fds\<close>\<close>
  "Pipe =
     bind (sys (SysOther ''pipe'' [] [])) (\<lambda>r.
     bind (unless_neg ''pipe error'' (r_val r)) (\<lambda>_.
     case r_rset r of [fd0, fd1] \<Rightarrow> ret (fd0, fd1) | _ \<Rightarrow> undef))"

definition Read :: "int \<Rightarrow> nat \<Rightarrow> (int \<times> string) io" where
  "Read fd nbytes =
     bind (sys (SysRead fd nbytes)) (\<lambda>r.
     bind (unless_neg1 ''read error'' (r_val r)) (\<lambda>n. ret (n, r_data r)))"

definition Sigaddset :: "int \<Rightarrow> int \<Rightarrow> unit io" where
  "Sigaddset sigs signo =
     void (bind (call (SysOther ''sigaddset'' [sigs, signo] [])) (unless_neg1 ''sigaddset error''))"

definition Sigdelset :: "int \<Rightarrow> int \<Rightarrow> unit io" where
  "Sigdelset sigs signo =
     void (bind (call (SysOther ''sigdelset'' [sigs, signo] [])) (unless_neg1 ''sigdelset error''))"

definition Sigemptyset :: "int \<Rightarrow> unit io" where
  "Sigemptyset sigs =
     void (bind (call (SysOther ''sigemptyset'' [sigs] [])) (unless_neg1 ''sigemptyset error''))"

definition Sigfillset :: "int \<Rightarrow> unit io" where
  "Sigfillset sigs =
     void (bind (call (SysOther ''sigfillset'' [sigs] [])) (unless_neg1 ''sigfillset error''))"

definition Sigismember :: "int \<Rightarrow> int \<Rightarrow> int io" where
  "Sigismember sigs signo =
     bind (call (SysOther ''sigismember'' [sigs, signo] [])) (unless_neg1 ''sigismember error'')"

definition Sigpending :: "int \<Rightarrow> unit io" where
  "Sigpending sigs =
     void (bind (call (SysOther ''sigpending'' [sigs] [])) (unless_neg1 ''sigpending error''))"

definition Sigprocmask :: "int \<Rightarrow> int \<Rightarrow> int \<Rightarrow> unit io" where
  "Sigprocmask how sigs oset =
     void (bind (call (SysOther ''sigprocmask'' [how, sigs, oset] [])) (unless_neg1 ''sigprocmask error''))"

definition Strdup :: "string \<Rightarrow> int io" where
  "Strdup str =
     bind (call (SysOther ''strdup'' [] [str])) (unless_null ''strdup error'')"

definition Sysconf :: "int \<Rightarrow> int io" where
  "Sysconf nm =
     seq (set_errno 0) (bind (call (SysOther ''sysconf'' [nm] [])) (unless_neg1 ''sysconf error''))"

definition Sysctl :: "int \<Rightarrow> string \<Rightarrow> unit io" where
  "Sysctl nm newp =
     void (bind (call (SysOther ''sysctl'' [nm] [newp])) (unless_neg1 ''sysctl error''))"

definition Unlink :: "string \<Rightarrow> unit io" where
  "Unlink pathname =
     void (bind (call (SysOther ''unlink'' [] [pathname])) (unless_neg1 (''unlink error for '' @ pathname)))"

definition Wait :: "(int \<times> int) io" where
  \<comment> \<open>the child and its status\<close>
  "Wait =
     bind (sys (SysOther ''wait'' [] [])) (\<lambda>r.
     bind (unless_neg1 ''wait error'' (r_val r)) (\<lambda>pid. ret (pid, r_num r)))"

definition Waitpid :: "int \<Rightarrow> int \<Rightarrow> (int \<times> int) io" where
  "Waitpid pid options =
     bind (sys (SysWaitpid pid options)) (\<lambda>r.
     bind (unless_neg1 ''waitpid error'' (r_val r)) (\<lambda>retpid. ret (retpid, r_num r)))"

definition Write :: "int \<Rightarrow> string \<Rightarrow> unit io" where
  "Write fd s =
     bind (call (SysWrite fd s)) (\<lambda>n.
     if n \<noteq> int (length s) then err_sys ''write error'' else ret ())"

lemma shrinks_Write [eating]: "shrinks (Write fd s)"
  unfolding Write_def by (intro eating)

subsection \<open>lib/wrapsock.c\<close>


definition accept_body :: "int \<Rightarrow> unit \<Rightarrow> (unit + sysret) io" where
  "accept_body fd = (\<lambda>_.
     bind (sys (SysAccept fd)) (\<lambda>r.
     if r_val r < 0 then
       bind get_errno (\<lambda>e.
       if e = EPROTO \<or> e = ECONNABORTED then again () else err_sys ''accept error'')
     else stop r))"

definition Accept :: "int \<Rightarrow> sysret io" where
  \<comment> \<open>the descriptor is \<open>r_val\<close>, the peer's address \<open>r_addr\<close>\<close>
  "Accept fd = loop (accept_body fd) ()"

definition Bind :: "int \<Rightarrow> sockaddr \<Rightarrow> unit io" where
  "Bind fd sa =
     void (bind (call (SysBind fd sa)) (unless_neg ''bind error''))"

definition Connect :: "int \<Rightarrow> sockaddr \<Rightarrow> unit io" where
  "Connect fd sa =
     void (bind (call (SysConnect fd sa)) (unless_neg ''connect error''))"

definition Getpeername :: "int \<Rightarrow> sockaddr io" where
  "Getpeername fd =
     bind (sys (SysGetpeername fd)) (\<lambda>r.
     bind (unless_neg ''getpeername error'' (r_val r)) (\<lambda>_. ret (r_addr r)))"

definition Getsockname :: "int \<Rightarrow> sockaddr io" where
  "Getsockname fd =
     bind (sys (SysGetsockname fd)) (\<lambda>r.
     bind (unless_neg ''getsockname error'' (r_val r)) (\<lambda>_. ret (r_addr r)))"

definition Getsockopt :: "int \<Rightarrow> int \<Rightarrow> int \<Rightarrow> int io" where
  \<comment> \<open>the value of the option\<close>
  "Getsockopt fd level optname =
     bind (sys (SysGetsockopt fd level optname)) (\<lambda>r.
     bind (unless_neg ''getsockopt error'' (r_val r)) (\<lambda>_. ret (r_num r)))"

definition Inet6_rth_space :: "int \<Rightarrow> int \<Rightarrow> int io" where
  "Inet6_rth_space ty segments =
     bind (call (SysOther ''inet6_rth_space'' [ty, segments] [])) (\<lambda>v.
     if v < 0 then err_quit ''inet6_rth_space error'' else ret v)"

definition Inet6_rth_init :: "int \<Rightarrow> int \<Rightarrow> int \<Rightarrow> int \<Rightarrow> int io" where
  "Inet6_rth_init rthbuf rthlen ty segments =
     bind (call (SysOther ''inet6_rth_init'' [rthbuf, rthlen, ty, segments] [])) (\<lambda>v.
     if v = 0 then err_quit ''inet6_rth_init error'' else ret v)"

definition Inet6_rth_add :: "int \<Rightarrow> string \<Rightarrow> unit io" where
  "Inet6_rth_add rthbuf addr =
     bind (call (SysOther ''inet6_rth_add'' [rthbuf] [addr])) (\<lambda>v.
     if v < 0 then err_quit ''inet6_rth_add error'' else ret ())"

definition Inet6_rth_reverse :: "int \<Rightarrow> int \<Rightarrow> unit io" where
  "Inet6_rth_reverse inp out =
     bind (call (SysOther ''inet6_rth_reverse'' [inp, out] [])) (\<lambda>v.
     if v < 0 then err_quit ''inet6_rth_reverse error'' else ret ())"

definition Inet6_rth_segments :: "int \<Rightarrow> int io" where
  "Inet6_rth_segments rthbuf =
     bind (call (SysOther ''inet6_rth_segments'' [rthbuf] [])) (\<lambda>v.
     if v < 0 then err_quit ''inet6_rth_segments error'' else ret v)"

definition Inet6_rth_getaddr :: "int \<Rightarrow> int \<Rightarrow> int io" where
  "Inet6_rth_getaddr rthbuf idx =
     bind (call (SysOther ''inet6_rth_getaddr'' [rthbuf, idx] [])) (\<lambda>v.
     if v = 0 then err_quit ''inet6_rth_getaddr error'' else ret v)"

definition Kqueue :: "int io" where
  "Kqueue =
     bind (call (SysOther ''kqueue'' [] [])) (unless_neg ''kqueue error'')"

definition Kevent :: "int \<Rightarrow> int \<Rightarrow> int \<Rightarrow> int io" where
  "Kevent kq nchanges nevents =
     bind (call (SysOther ''kevent'' [kq, nchanges, nevents] [])) (unless_neg ''kevent error'')"

definition Listen :: "int \<Rightarrow> int \<Rightarrow> unit io" where
  \<comment> \<open>\<open>getenv\<close> answers 0 for \<open>NULL\<close>\<close>
  "Listen fd backlog =
     bind (sys (SysOther ''getenv'' [] [''LISTENQ''])) (\<lambda>r.
     let backlog = (if r_val r \<noteq> 0 then atoi (r_data r) else backlog)
     in void (bind (call (SysListen fd backlog)) (unless_neg ''listen error'')))"

definition Poll :: "(int \<times> int) list \<Rightarrow> int \<Rightarrow> sysret io" where
  "Poll fdarray timeout =
     bind (sys (SysPoll fdarray timeout)) (\<lambda>r.
     bind (unless_neg ''poll error'' (r_val r)) (\<lambda>_. ret r))"

definition Recv :: "int \<Rightarrow> nat \<Rightarrow> int \<Rightarrow> sysret io" where
  "Recv fd nbytes flags =
     bind (sys (SysRecv fd nbytes flags)) (\<lambda>r.
     bind (unless_neg ''recv error'' (r_val r)) (\<lambda>_. ret r))"

definition Recvfrom :: "int \<Rightarrow> nat \<Rightarrow> int \<Rightarrow> sysret io" where
  "Recvfrom fd nbytes flags =
     bind (sys (SysRecvfrom fd nbytes flags)) (\<lambda>r.
     bind (unless_neg ''recvfrom error'' (r_val r)) (\<lambda>_. ret r))"

definition Recvmsg :: "int \<Rightarrow> nat \<Rightarrow> int \<Rightarrow> sysret io" where
  \<comment> \<open>the message is given by the room in its buffers\<close>
  "Recvmsg fd room flags =
     bind (sys (SysRecvmsg fd room flags)) (\<lambda>r.
     bind (unless_neg ''recvmsg error'' (r_val r)) (\<lambda>_. ret r))"

definition Select :: "int \<Rightarrow> int list \<Rightarrow> int list \<Rightarrow> (int \<times> int) option \<Rightarrow> sysret io" where
  "Select nfds readfds writefds timeout =
     bind (sys (SysSelect nfds readfds writefds timeout)) (\<lambda>r.
     bind (unless_neg ''select error'' (r_val r)) (\<lambda>_. ret r))"

definition Send :: "int \<Rightarrow> string \<Rightarrow> int \<Rightarrow> unit io" where
  "Send fd s flags =
     bind (call (SysSend fd s flags)) (\<lambda>n.
     if n \<noteq> int (length s) then err_sys ''send error'' else ret ())"

definition Sendto :: "int \<Rightarrow> string \<Rightarrow> int \<Rightarrow> sockaddr \<Rightarrow> unit io" where
  "Sendto fd s flags sa =
     bind (call (SysSendto fd s flags sa)) (\<lambda>n.
     if n \<noteq> int (length s) then err_sys ''sendto error'' else ret ())"

definition Sendmsg :: "int \<Rightarrow> string list \<Rightarrow> int \<Rightarrow> unit io" where
  \<comment> \<open>the message is given by the contents of its \<open>msg_iov\<close>\<close>
  "Sendmsg fd iov flags =
     (let nbytes = sum_list (map length iov)
      in bind (call (SysOther ''sendmsg'' [fd, flags] iov)) (\<lambda>n.
         if n \<noteq> int nbytes then err_sys ''sendmsg error'' else ret ()))"

definition Setsockopt :: "int \<Rightarrow> int \<Rightarrow> int \<Rightarrow> int \<Rightarrow> unit io" where
  "Setsockopt fd level optname optval =
     void (bind (call (SysSetsockopt fd level optname optval)) (unless_neg ''setsockopt error''))"

definition Shutdown :: "int \<Rightarrow> int \<Rightarrow> unit io" where
  "Shutdown fd how =
     void (bind (call (SysShutdown fd how)) (unless_neg ''shutdown error''))"

definition Sockatmark :: "int \<Rightarrow> int io" where
  "Sockatmark fd =
     bind (call (SysOther ''sockatmark'' [fd] [])) (unless_neg ''sockatmark error'')"

definition Socket :: "int \<Rightarrow> int \<Rightarrow> int \<Rightarrow> int io" where
  "Socket family ty protocol =
     bind (call (SysSocket family ty protocol)) (unless_neg ''socket error'')"

definition Socketpair :: "int \<Rightarrow> int \<Rightarrow> int \<Rightarrow> (int \<times> int) io" where
  "Socketpair family ty protocol =
     bind (sys (SysOther ''socketpair'' [family, ty, protocol] [])) (\<lambda>r.
     bind (unless_neg ''socketpair error'' (r_val r)) (\<lambda>_.
     case r_rset r of [fd0, fd1] \<Rightarrow> ret (fd0, fd1) | _ \<Rightarrow> undef))"

subsection \<open>lib/wrapstdio.c and lib/wraplib.c\<close>


definition Fclose :: "int \<Rightarrow> unit io" where
  "Fclose fp =
     bind (call (SysOther ''fclose'' [fp] [])) (\<lambda>n.
     if n \<noteq> 0 then err_sys ''fclose error'' else ret ())"

definition Fdopen :: "int \<Rightarrow> string \<Rightarrow> int io" where
  "Fdopen fd ty =
     bind (call (SysOther ''fdopen'' [fd] [ty])) (unless_null ''fdopen error'')"

definition Fgets :: "nat \<Rightarrow> int \<Rightarrow> string option io" where
  \<comment> \<open>\<open>fgets\<close> answers 0 for \<open>NULL\<close>; \<open>r_num\<close> is then \<open>ferror\<close>\<close>
  "Fgets n stream =
     bind (sys (SysFgets stream n)) (\<lambda>r.
     if r_val r = 0 \<and> r_num r \<noteq> 0 then err_sys ''fgets error''
     else ret (if r_val r = 0 then None else Some (r_data r)))"

definition Fopen :: "string \<Rightarrow> string \<Rightarrow> int io" where
  "Fopen filename mode =
     bind (call (SysOther ''fopen'' [] [filename, mode])) (unless_null ''fopen error'')"

definition Fputs :: "string \<Rightarrow> int \<Rightarrow> unit io" where
  "Fputs s stream =
     bind (call (SysPut stream s)) (\<lambda>n. if n = - 1 then err_sys ''fputs error'' else ret ())"

definition Inet_ntop :: "int \<Rightarrow> 8 word list \<Rightarrow> bool \<Rightarrow> nat \<Rightarrow> string io" where
  \<comment> \<open>\<open>strptr\<close> says whether the third argument is non-null\<close>
  "Inet_ntop family addrptr strptr len =
     (if \<not> strptr then err_quit ''NULL 3rd argument to inet_ntop''
      else (case inet_ntop family addrptr len of
              Inl e \<Rightarrow> seq (set_errno e) (err_sys ''inet_ntop error'')
            | Inr s \<Rightarrow> ret s))"

definition Inet_pton :: "int \<Rightarrow> string \<Rightarrow> 8 word list io" where
  "Inet_pton family strptr =
     (case inet_pton family strptr of
        Inl e \<Rightarrow> seq (set_errno e) (err_sys (''inet_pton error for '' @ strptr))
      | Inr None \<Rightarrow> err_quit (''inet_pton error for '' @ strptr)
      | Inr (Some a) \<Rightarrow> ret a)"

subsection \<open>Laws of the wrappers\<close>

lemma length_snprintf: "length (snprintf n s) \<le> n - 1"
  by (simp add: snprintf_def)

lemma err_text_length: "length (err_text flag msg e) \<le> MAXLINE"
proof -
  define buf where "buf = snprintf MAXLINE msg"
  have "length buf \<le> MAXLINE - 1" unfolding buf_def by (rule length_snprintf)
  then have 1: "length buf < MAXLINE" by (simp add: MAXLINE_def)
  have "length (snprintf (MAXLINE - length buf) ('': '' @ e)) \<le> MAXLINE - length buf - 1"
    by (rule length_snprintf)
  with 1 have 2: "length buf + length (snprintf (MAXLINE - length buf) ('': '' @ e)) < MAXLINE"
    by linarith
  show ?thesis
    using 1 2 by (cases flag) (simp_all add: err_text_def Let_def buf_def [symmetric])
qed

lemma accept_eats: "cont_eats (accept_body fd s)"
  unfolding accept_body_def by (intro body_eating eating cont_eats_err_sys)

interpretation accept: consuming "accept_body fd" for fd
  by unfold_locales (rule accept_eats)

lemma appends_err_doit [appending]: "appends (\<lambda>_. True) (err_doit flag level msg)"
  unfolding err_doit_def by (intro appending TrueI) (auto intro: appending)

lemma appends_err_sys [appending]: "appends (\<lambda>_. True) (err_sys msg)"
  and appends_err_quit [appending]: "appends (\<lambda>_. True) (err_quit msg)"
  unfolding err_sys_def err_quit_def by (intro appending)+

lemma appends_Accept [appending]: "appends (\<lambda>_. True) (Accept fd)"
  unfolding Accept_def accept_body_def by (intro appending TrueI)

lemma shrinks_Accept [eating]: "shrinks (Accept fd)"
  unfolding Accept_def by (intro eating accept.shrinks_body)

lemma eats_Accept: "eats (Accept fd)"
proof -
  have "eats (bind (accept_body fd ()) (\<lambda>v. case v of Inl s' \<Rightarrow> loop (accept_body fd) s' | Inr a \<Rightarrow> ret a))"
    by (intro eats_bind1 eating accept.shrinks_body)
      (auto simp: accept_body_def intro!: eats_bind1 eats_sys eating)
  then show ?thesis unfolding Accept_def by (simp add: accept.loop_unfold [symmetric])
qed

text \<open>The connections an \<open>Accept\<close> has skipped: aborted before they were accepted.\<close>

definition aborted :: "sysret \<Rightarrow> bool" where
  "aborted r \<longleftrightarrow> r_val r < 0 \<and> (r_err r = EPROTO \<or> r_err r = ECONNABORTED)"

definition accept_log :: "int \<Rightarrow> sysret list \<Rightarrow> (syscall \<times> sysret) list" where
  "accept_log fd rs = map (\<lambda>r. (SysAccept fd, r)) rs"

definition accepted :: "int \<Rightarrow> (syscall \<times> sysret) list \<Rightarrow> sysret res \<Rightarrow> world \<Rightarrow> bool" where
  \<comment> \<open>what holds after \<open>Accept\<close>, \<open>log\<close> being the trace before it\<close>
  "accepted fd log r w =
     (case r of
        Val a \<Rightarrow> 0 \<le> r_val a \<and>
          (\<exists>skipped. trace w = log @ accept_log fd (skipped @ [a]) \<and> list_all aborted skipped)
      | Exited c \<Rightarrow> c = 1 \<and>
          (\<exists>skipped r. prefix (log @ accept_log fd (skipped @ [r])) (trace w) \<and>
             list_all aborted skipped \<and> r_val r < 0 \<and> \<not> aborted r)
      | Undef \<Rightarrow> False
      | Blocked \<Rightarrow> \<exists>skipped. trace w = log @ accept_log fd skipped \<and> list_all aborted skipped)"

lemma err_world_prefix: "prefix (trace w) (trace (err_world flag level msg w))"
  by (simp add: err_world_def Let_def said_def)

lemma wp_Accept: "wp (Accept fd) (accepted fd (trace w)) w"
  unfolding Accept_def
proof (rule accept.wp_loop [where I = "\<lambda>_ w'. \<exists>skipped. trace w' = trace w @ accept_log fd skipped \<and>
    list_all aborted skipped"])
  show "\<exists>skipped. trace w = trace w @ accept_log fd skipped \<and> list_all aborted skipped"
    by (intro exI [of _ "[]"]) (simp add: accept_log_def)
next
  fix s :: unit and w' :: world
  assume "\<exists>skipped. trace w' = trace w @ accept_log fd skipped \<and> list_all aborted skipped"
  then obtain skipped where w': "trace w' = trace w @ accept_log fd skipped"
    "list_all aborted skipped" by blast
  have log: "trace w' @ [(SysAccept fd, r)] = trace w @ accept_log fd (skipped @ [r])" for r
    by (simp add: w' accept_log_def)
  have more: "\<exists>skipped. trace w' @ [(SysAccept fd, r)] = trace w @ accept_log fd skipped \<and>
      list_all aborted skipped" if "r_val r < 0" "r_err r = EPROTO \<or> r_err r = ECONNABORTED" for r
    using that w'(2) log by (intro exI [of _ "skipped @ [r]"]) (simp add: aborted_def)
  have fin: "\<exists>skipped. trace w' @ [(SysAccept fd, r)] = trace w @ accept_log fd (skipped @ [r]) \<and>
      list_all aborted skipped" for r
    using w'(2) log by (intro exI [of _ skipped]) simp
  have quit: "\<exists>skipped r'. prefix (trace w @ accept_log fd (skipped @ [r']))
        (trace (err_world flag level msg (logged (SysAccept fd) r w'))) \<and>
      list_all aborted skipped \<and> r_val r' < 0 \<and> \<not> aborted r'"
    if "r_val r < 0" "r_err r \<noteq> EPROTO" "r_err r \<noteq> ECONNABORTED" for r flag level msg
    using that w'(2) log [of r] err_world_prefix [of "logged (SysAccept fd) r w'" flag level msg]
    by (intro exI [of _ skipped] exI [of _ r]) (simp add: aborted_def logged_def)
  show "wp (accept_body fd s) (body_post
      (\<lambda>_ w'. \<exists>skipped. trace w' = trace w @ accept_log fd skipped \<and> list_all aborted skipped)
      (accepted fd (trace w))) w'"
    using more fin quit w' by (auto simp: accept_body_def accepted_def split: list.split)
qed

subsection \<open>Properties\<close>

text \<open>The error message of \<open>err_doit\<close>, with the text of \<open>errno\<close> and the newline appended
  by \<open>strcat\<close>, and its NUL fit \<open>buf[MAXLINE + 1]\<close>, for every format result and every
  \<open>strerror\<close>.\<close>

theorem err_doit_buffer: "length (err_text errnoflag msg errstr) + 1 \<le> MAXLINE + 1"
  using err_text_length [of errnoflag msg errstr] by simp

text \<open>\<open>Accept\<close> returns the first connection the kernel gives, a nonnegative descriptor,
  after any number of connections aborted before they were accepted; it ends the process, with
  status 1, only after a failure of another kind, and waits only after aborted connections.\<close>

theorem Accept_retries: "wp (Accept fd) (accepted fd (trace w)) w"
  by (rule wp_Accept)

end
