(* ===== verification/StreamIO.thy ===== *)
theory StreamIO
  imports Wrappers
begin

text \<open>
  Reading and writing byte streams: lib/readn.c, lib/writen.c, the line readers of
  lib/readline.c, threads/readline.c, server/readline.c, server/readline_r.c and
  test/readline1.c, and the echo loops of lib/str_echo.c, lib/str_cli.c, lib/dg_echo.c and
  lib/dg_cli.c.

  The bytes a run has read from or written to a descriptor are computed from the trace
  (\<open>stream_in\<close>, \<open>stream_out\<close>), so the theorems hold for every way the kernel may split
  the stream into pieces and for every pattern of interrupted calls.  The locale
  \<open>byte_source\<close> is the contract between a line reader and the function that gives it the
  next byte; it is interpreted by the buffered and by the unbuffered reader.
\<close>

subsection \<open>The bytes of a trace\<close>

definition bytes_in :: "int \<Rightarrow> syscall \<times> sysret \<Rightarrow> string" where
  "bytes_in fd e = (case e of (SysRead fd' n, r) \<Rightarrow> if fd' = fd then r_data r else [] | _ \<Rightarrow> [])"

definition bytes_out :: "int \<Rightarrow> syscall \<times> sysret \<Rightarrow> string" where
  "bytes_out fd e =
     (case e of (SysWrite fd' s, r) \<Rightarrow> if fd' = fd then take (nat (r_val r)) s else [] | _ \<Rightarrow> [])"

definition stream_in :: "int \<Rightarrow> (syscall \<times> sysret) list \<Rightarrow> string" where
  "stream_in fd log = concat (map (bytes_in fd) log)"

definition stream_out :: "int \<Rightarrow> (syscall \<times> sysret) list \<Rightarrow> string" where
  "stream_out fd log = concat (map (bytes_out fd) log)"

lemma stream_in_simps [simp]:
  "stream_in fd [] = []" "stream_in fd (a @ b) = stream_in fd a @ stream_in fd b"
  "stream_in fd [e] = bytes_in fd e"
  by (simp_all add: stream_in_def)

lemma stream_out_simps [simp]:
  "stream_out fd [] = []" "stream_out fd (a @ b) = stream_out fd a @ stream_out fd b"
  "stream_out fd [e] = bytes_out fd e"
  by (simp_all add: stream_out_def)

lemma bytes_in_simps [simp]:
  "bytes_in fd (SysRead fd' n, r) = (if fd' = fd then r_data r else [])"
  "bytes_in fd (SysWrite fd' s, r) = []" "bytes_in fd (SysPut fd' s, r) = []"
  "bytes_in fd (SysOther nm is ss, r) = []" "bytes_in fd (SysFgets fd' m, r) = []"
  by (simp_all add: bytes_in_def)

lemma bytes_out_simps [simp]:
  "bytes_out fd (SysWrite fd' s, r) = (if fd' = fd then take (nat (r_val r)) s else [])"
  "bytes_out fd (SysRead fd' n, r) = []" "bytes_out fd (SysPut fd' s, r) = []"
  "bytes_out fd (SysOther nm is ss, r) = []" "bytes_out fd (SysFgets fd' m, r) = []"
  by (simp_all add: bytes_out_def)

lemma fits_readD:
  assumes "fits_read n r"
  shows "r_val r < 0 \<Longrightarrow> r_data r = []" "0 \<le> r_val r \<Longrightarrow> r_val r = int (length (r_data r))"
    "length (r_data r) \<le> n"
  using assms by (auto simp: fits_read_def)

lemma fits_read_nat: "fits_read n r \<Longrightarrow> \<not> r_val r < 0 \<Longrightarrow> nat (r_val r) = length (r_data r)"
proof -
  assume "fits_read n r" "\<not> r_val r < 0"
  then have "r_val r = int (length (r_data r))" using fits_readD(2) [of n r] by simp
  then show ?thesis by (simp only: nat_int)
qed

lemma fits_read_neg: "fits_read n r \<Longrightarrow> r_val r < 0 \<Longrightarrow> r_data r = []"
  using fits_readD(1) [of n r] by simp

lemma fits_read_length: "fits_read n r \<Longrightarrow> length (r_data r) \<le> n"
  by (simp add: fits_read_def)

subsection \<open>lib/readn.c\<close>

text \<open>
  The loop keeps \<open>nleft\<close> and the bytes stored before \<open>ptr\<close>.  The result is the return value
  and the contents of the buffer.
\<close>

definition readn_body :: "int \<Rightarrow> nat \<Rightarrow> nat \<times> string \<Rightarrow> ((nat \<times> string) + (int \<times> string)) io" where
  "readn_body fd n = (\<lambda>(nleft, buf).
     if 0 < nleft then
       bind (sys (SysRead fd nleft)) (\<lambda>r.
       let nread = r_val r in
       if nread < 0 then
         bind get_errno (\<lambda>e.
         if e = EINTR then again (nleft, buf) \<comment> \<open>and call read() again\<close>
         else stop (- 1, buf))
       else if nread = 0 then stop (int (n - nleft), buf) \<comment> \<open>EOF\<close>
       else again (nleft - nat nread, buf @ r_data r))
     else stop (int (n - nleft), buf))"

definition readn :: "int \<Rightarrow> nat \<Rightarrow> (int \<times> string) io" where
  "readn fd n = loop (readn_body fd n) (n, [])"

definition Readn :: "int \<Rightarrow> nat \<Rightarrow> (int \<times> string) io" where
  "Readn fd nbytes =
     bind (readn fd nbytes) (\<lambda>(n, buf). if n < 0 then err_sys ''readn error'' else ret (n, buf))"

subsection \<open>lib/writen.c\<close>

definition writen_body :: "int \<Rightarrow> nat \<Rightarrow> string \<Rightarrow> (string + int) io" where
  \<comment> \<open>the state is the \<open>nleft\<close> bytes from \<open>ptr\<close> on\<close>
  "writen_body fd n = (\<lambda>rest.
     if 0 < length rest then
       bind (call (SysWrite fd rest)) (\<lambda>nwritten.
       if nwritten \<le> 0 then
         bind get_errno (\<lambda>e.
         if nwritten < 0 \<and> e = EINTR then again rest \<comment> \<open>and call write() again\<close>
         else stop (- 1)) \<comment> \<open>error\<close>
       else again (drop (nat nwritten) rest))
     else stop (int n))"

definition writen :: "int \<Rightarrow> string \<Rightarrow> int io" where
  "writen fd s = loop (writen_body fd (length s)) s"

definition Writen :: "int \<Rightarrow> string \<Rightarrow> unit io" where
  "Writen fd s =
     bind (writen fd s) (\<lambda>n. if n \<noteq> int (length s) then err_sys ''writen error'' else ret ())"

interpretation readn: consuming "readn_body fd n" for fd n
  by unfold_locales
    (unfold readn_body_def Let_def, intro body_eating eating)

interpretation writen: consuming "writen_body fd n" for fd n
  by unfold_locales
    (unfold writen_body_def, intro body_eating eating)

lemma shrinks_readn [eating]: "shrinks (readn fd n)"
  unfolding readn_def by (intro eating readn.shrinks_body)

lemma shrinks_writen [eating]: "shrinks (writen fd s)"
  unfolding writen_def by (intro eating writen.shrinks_body)

lemma shrinks_Writen [eating]: "shrinks (Writen fd s)"
  unfolding Writen_def by (intro eating)

text \<open>
  What a call has added to the trace: \<open>extends P log w\<close> says that the trace of \<open>w\<close> is
  \<open>log\<close> followed by a part that satisfies \<open>P\<close>.
\<close>

definition extends :: "((syscall \<times> sysret) list \<Rightarrow> bool) \<Rightarrow> (syscall \<times> sysret) list \<Rightarrow> world \<Rightarrow> bool" where
  "extends P log w \<longleftrightarrow> (\<exists>new. trace w = log @ new \<and> P new)"

lemma extends_refl: "P [] \<Longrightarrow> trace w = log \<Longrightarrow> extends P log w"
  by (simp add: extends_def)

lemma extends_logged: "extends (\<lambda>new. P (new @ [(c, r)])) log w \<Longrightarrow> extends P log (logged c r w)"
  by (auto simp: extends_def)

lemma extends_weaken: "extends P log w \<Longrightarrow> (\<And>new. P new \<Longrightarrow> Q new) \<Longrightarrow> extends Q log w"
  by (auto simp: extends_def)

definition readn_post :: "int \<Rightarrow> nat \<Rightarrow> (syscall \<times> sysret) list \<Rightarrow> (int \<times> string) res \<Rightarrow> world \<Rightarrow> bool" where
  "readn_post fd n log r w =
     (case r of
        Val (v, buf) \<Rightarrow> extends (\<lambda>new. stream_in fd new = buf \<and> length buf \<le> n \<and>
          (v = - 1 \<and> errno w \<noteq> EINTR \<or>
           v = int (length buf) \<and> (length buf = n \<or>
             (\<exists>m r. new \<noteq> [] \<and> last new = (SysRead fd m, r) \<and> r_val r = 0 \<and> 0 < m)))) log w
      | Blocked \<Rightarrow> True
      | _ \<Rightarrow> False)"

definition readn_inv :: "int \<Rightarrow> nat \<Rightarrow> (syscall \<times> sysret) list \<Rightarrow> nat \<times> string \<Rightarrow> world \<Rightarrow> bool" where
  "readn_inv fd n log s w \<longleftrightarrow> fst s + length (snd s) = n \<and> extends (\<lambda>new. stream_in fd new = snd s) log w"

lemma wp_readn: "wp (readn fd n) (readn_post fd n (trace w)) w"
  unfolding readn_def
proof (rule readn.wp_loop [where I = "readn_inv fd n (trace w)"])
  show "readn_inv fd n (trace w) (n, []) w"
    by (simp add: readn_inv_def extends_refl)
next
  fix s w'
  assume inv: "readn_inv fd n (trace w) s w'"
  obtain nleft buf where s: "s = (nleft, buf)" by (cases s)
  with inv have len: "nleft + length buf = n"
    and ext: "extends (\<lambda>new. stream_in fd new = buf) (trace w) w'" by (auto simp: readn_inv_def)
  have log: "extends (\<lambda>new. stream_in fd new = buf @ r_data r \<and> new \<noteq> [] \<and>
      last new = (SysRead fd nleft, r)) (trace w) (logged (SysRead fd nleft) r w')" for r
    by (rule extends_logged, rule extends_weaken [OF ext]) simp
  show "wp (readn_body fd n s) (body_post (readn_inv fd n (trace w)) (readn_post fd n (trace w))) w'"
  proof (cases "script w'")
    case Nil
    then show ?thesis using ext s len
      by (auto simp: readn_body_def readn_post_def elim!: extends_weaken)
  next
    case (Cons r rs)
    show ?thesis
      using s ext Cons len log [of r]
      by (auto simp: readn_body_def readn_post_def readn_inv_def Let_def fits_read_nat fits_read_neg
          dest: fits_readD fits_read_length elim!: extends_weaken)
  qed
qed

definition writen_post :: "int \<Rightarrow> string \<Rightarrow> (syscall \<times> sysret) list \<Rightarrow> int res \<Rightarrow> world \<Rightarrow> bool" where
  "writen_post fd s log r w =
     (case r of
        Val v \<Rightarrow> v = int (length s) \<and> extends (\<lambda>new. stream_out fd new = s \<and> (\<forall>fd'. stream_in fd' new = [])) log w \<or>
          v = - 1 \<and> extends (\<lambda>new. prefix (stream_out fd new) s \<and> (\<forall>fd'. stream_in fd' new = [])) log w
      | Blocked \<Rightarrow> extends (\<lambda>new. prefix (stream_out fd new) s \<and> (\<forall>fd'. stream_in fd' new = [])) log w
      | _ \<Rightarrow> False)"

definition writen_inv :: "int \<Rightarrow> string \<Rightarrow> (syscall \<times> sysret) list \<Rightarrow> string \<Rightarrow> world \<Rightarrow> bool" where
  "writen_inv fd s log rest w \<longleftrightarrow> extends (\<lambda>new. stream_out fd new @ rest = s \<and> (\<forall>fd'. stream_in fd' new = [])) log w"

lemma wp_writen: "wp (writen fd s) (writen_post fd s (trace w)) w"
  unfolding writen_def
proof (rule writen.wp_loop [where I = "writen_inv fd s (trace w)"])
  show "writen_inv fd s (trace w) s w"
    by (simp add: writen_inv_def extends_refl)
next
  fix rest w'
  assume "writen_inv fd s (trace w) rest w'"
  then have ext: "extends (\<lambda>new. stream_out fd new @ rest = s \<and> (\<forall>fd'. stream_in fd' new = [])) (trace w) w'"
    by (simp add: writen_inv_def)
  then have pre: "extends (\<lambda>new. prefix (stream_out fd new) s \<and> (\<forall>fd'. stream_in fd' new = [])) (trace w) w'"
    by (auto elim!: extends_weaken simp: prefix_def)
  have log: "extends (\<lambda>new. stream_out fd new @ drop (nat (r_val r)) rest = s \<and> (\<forall>fd'. stream_in fd' new = [])) (trace w)
      (logged (SysWrite fd rest) r w')" for r
    by (rule extends_logged, rule extends_weaken [OF ext]) simp
  have log': "extends (\<lambda>new. prefix (stream_out fd new) s \<and> (\<forall>fd'. stream_in fd' new = [])) (trace w)
      (logged (SysWrite fd rest) r w')" for r
    by (rule extends_weaken [OF log [of r]]) (auto simp: prefix_def)
  show "wp (writen_body fd (length s) rest)
      (body_post (writen_inv fd s (trace w)) (writen_post fd s (trace w))) w'"
  proof (cases "script w'")
    case Nil
    then show ?thesis using ext pre by (auto simp: writen_body_def writen_post_def elim!: extends_weaken)
  next
    case (Cons r rs)
    show ?thesis
      using ext pre Cons log [of r] log' [of r]
      by (auto simp: writen_body_def writen_post_def writen_inv_def elim!: extends_weaken)
  qed
qed

definition Writen_post :: "int \<Rightarrow> string \<Rightarrow> (syscall \<times> sysret) list \<Rightarrow> unit res \<Rightarrow> world \<Rightarrow> bool" where
  "Writen_post fd s log r w =
     (case r of
        Val _ \<Rightarrow> extends (\<lambda>new. stream_out fd new = s \<and> (\<forall>fd'. stream_in fd' new = [])) log w
      | Undef \<Rightarrow> False
      | Exited c \<Rightarrow> c = 1 \<and>
          extends (\<lambda>new. prefix (stream_out fd new) s \<and> (\<forall>fd'. stream_in fd' new = [])) log w
      | Blocked \<Rightarrow> extends (\<lambda>new. prefix (stream_out fd new) s \<and> (\<forall>fd'. stream_in fd' new = [])) log w)"

lemma extends_said: "extends (\<lambda>new. P (new @ [(c, ok 0)])) log w \<Longrightarrow> extends P log (said c w)"
  by (auto simp: extends_def said_def)

lemma extends_err:
  assumes "extends P log w"
    and "\<And>new n is ss r. P new \<Longrightarrow> P (new @ [(SysOther n is ss, r)])"
    and "\<And>new fd s r. P new \<Longrightarrow> P (new @ [(SysPut fd s, r)])"
  shows "extends P log (err_world flag level msg w)"
proof -
  have "extends P log (said (SysOther ''syslog'' [level] [buf]) w)" for buf
    by (rule extends_said, rule extends_weaken [OF assms(1)], intro assms(2,3))
  moreover have "extends P log (said (SysOther ''fflush'' [STDERR_FILENO] [])
      (said (SysPut STDERR_FILENO buf) (said (SysOther ''fflush'' [STDOUT_FILENO] []) w)))" for buf
    by (intro extends_said, rule extends_weaken [OF assms(1)], intro assms(2,3))
  ultimately show ?thesis by (simp add: err_world_def Let_def)
qed

lemma wp_Writen: "wp (Writen fd s) (Writen_post fd s (trace w)) w"
proof -
  have "on_val (\<lambda>n. wp (if n \<noteq> int (length s) then err_sys ''writen error'' else ret ())
      (Writen_post fd s (trace w))) (Writen_post fd s (trace w)) r w'"
    if post: "writen_post fd s (trace w) r w'" for r w'
    using post
    by (cases r) (auto simp: writen_post_def Writen_post_def intro!: extends_err elim!: extends_weaken)
  then show ?thesis
    unfolding Writen_def wp_bind by (rule wp_conseq [OF wp_writen])
qed

subsection \<open>The line readers\<close>

text \<open>
  \<open>my_read\<close> of lib/readline.c: the static variables \<open>read_cnt\<close> and \<open>read_ptr\<close> (as the
  bytes that are left from \<open>read_ptr\<close> on).  The result is the return value and \<open>*ptr\<close>.
\<close>

record rline =
  rl_cnt :: int
  rl_rest :: string

definition rl_init :: rline where "rl_init = \<lparr>rl_cnt = 0, rl_rest = []\<rparr>"

definition next_byte :: "rline \<Rightarrow> (int \<times> char \<times> rline) io" where
  \<comment> \<open>\<open>read_cnt--; *ptr = *read_ptr++; return(1)\<close>\<close>
  "next_byte st =
     (case rl_rest st of
        c # rest \<Rightarrow> ret (1, c, \<lparr>rl_cnt = rl_cnt st - 1, rl_rest = rest\<rparr>)
      | [] \<Rightarrow> undef)"

definition refill_body :: "int \<Rightarrow> rline \<Rightarrow> (rline + (int \<times> rline)) io" where
  \<comment> \<open>from \<open>again:\<close> on; 1 means that there are bytes\<close>
  "refill_body fd = (\<lambda>st.
     bind (sys (SysRead fd MAXLINE)) (\<lambda>r.
     let st = st\<lparr>rl_cnt := r_val r\<rparr> in
     if rl_cnt st < 0 then
       bind get_errno (\<lambda>e. if e = EINTR then again st else stop (- 1, st))
     else if rl_cnt st = 0 then stop (0, st)
     else stop (1, st\<lparr>rl_rest := r_data r\<rparr>)))"

definition my_read :: "int \<Rightarrow> rline \<Rightarrow> (int \<times> char \<times> rline) io" where
  "my_read fd st =
     (if rl_cnt st \<le> 0 then
        bind (loop (refill_body fd) st) (\<lambda>(rc, st).
        if rc \<le> 0 then ret (rc, CHR 0x00, st) else next_byte st)
      else next_byte st)"

text \<open>
  The loop of \<open>readline\<close>, over the function that gives the next byte: \<open>k\<close> is the number of
  iterations left (\<open>maxlen - n\<close>), \<open>buf\<close> the bytes stored.  \<open>at_eof\<close> gives the value
  returned at the end of the file.
\<close>

fun line_loop :: "(nat \<Rightarrow> int) \<Rightarrow> ('s \<Rightarrow> (int \<times> char \<times> 's) io) \<Rightarrow> nat \<Rightarrow> nat \<Rightarrow> string \<Rightarrow> 's
    \<Rightarrow> (int \<times> string \<times> 's) io" where
  "line_loop at_eof get 0 n buf st = ret (int n, buf, st)"
| "line_loop at_eof get (Suc k) n buf st =
     bind (get st) (\<lambda>(rc, c, st).
     if rc = 1 then
       (if c = newline then ret (int n, buf @ [c], st)
        else line_loop at_eof get k (Suc n) (buf @ [c]) st)
     else if rc = 0 then ret (at_eof n, buf, st)
     else ret (- 1, buf, st))"

definition readline :: "int \<Rightarrow> nat \<Rightarrow> rline \<Rightarrow> (int \<times> string \<times> rline) io" where
  "readline fd maxlen st = line_loop (\<lambda>n. int n - 1) (my_read fd) (maxlen - 1) 1 [] st"

definition readlinebuf :: "rline \<Rightarrow> int \<times> string option" where
  "readlinebuf st = (rl_cnt st, if rl_cnt st \<noteq> 0 then Some (rl_rest st) else None)"

definition Readline :: "int \<Rightarrow> nat \<Rightarrow> rline \<Rightarrow> (int \<times> string \<times> rline) io" where
  "Readline fd maxlen st =
     bind (readline fd maxlen st) (\<lambda>(n, buf, st).
     if n < 0 then err_sys ''readline error'' else ret (n, buf, st))"

text \<open>
  threads/readline.c keeps the buffer in thread-specific data, created and zeroed at the
  first call of a thread (\<open>None\<close>).
\<close>

definition my_read_tsd :: "int \<Rightarrow> rline \<Rightarrow> (int \<times> char \<times> rline) io" where
  "my_read_tsd fd tsd =
     (if rl_cnt tsd \<le> 0 then
        bind (loop (refill_body fd) tsd) (\<lambda>(rc, tsd).
        if rc \<le> 0 then ret (rc, CHR 0x00, tsd) else next_byte tsd)
      else next_byte tsd)"

definition readline_tsd :: "int \<Rightarrow> nat \<Rightarrow> rline option \<Rightarrow> (int \<times> string \<times> rline option) io" where
  "readline_tsd fd maxlen key =
     bind (case key of
             Some tsd \<Rightarrow> ret tsd
           | None \<Rightarrow> bind (Calloc 1 4112) (\<lambda>_. ret rl_init)) (\<lambda>tsd.
     bind (line_loop (\<lambda>n. int n - 1) (my_read_tsd fd) (maxlen - 1) 1 [] tsd) (\<lambda>(n, buf, tsd).
     ret (n, buf, Some tsd)))"

definition Readline_tsd :: "int \<Rightarrow> nat \<Rightarrow> rline option \<Rightarrow> (int \<times> string \<times> rline option) io" where
  "Readline_tsd fd nbytes key =
     bind (readline_tsd fd nbytes key) (\<lambda>(n, buf, key).
     if n < 0 then err_sys ''readline error'' else ret (n, buf, key))"

text \<open>test/readline1.c reads every byte by a \<open>read\<close> of its own.\<close>

definition read1_body :: "int \<Rightarrow> unit \<Rightarrow> (unit + (int \<times> char)) io" where
  "read1_body fd = (\<lambda>_.
     bind (sys (SysRead fd 1)) (\<lambda>r.
     if r_val r = 1 then (case r_data r of c # _ \<Rightarrow> stop (1, c) | [] \<Rightarrow> undef)
     else if r_val r = 0 then stop (0, CHR 0x00)
     else bind get_errno (\<lambda>e. if e = EINTR then again () else stop (- 1, CHR 0x00))))"

definition read1 :: "int \<Rightarrow> unit \<Rightarrow> (int \<times> char \<times> unit) io" where
  "read1 fd st = bind (loop (read1_body fd) st) (\<lambda>(rc, c). ret (rc, c, ()))"

definition readline_slow :: "int \<Rightarrow> nat \<Rightarrow> (int \<times> string) io" where
  "readline_slow fd maxlen =
     bind (line_loop (\<lambda>n. int n - 1) (read1 fd) (maxlen - 1) 1 [] ()) (\<lambda>(n, buf, _). ret (n, buf))"

text \<open>
  server/readline.c reads single bytes too, without restarting an interrupted call, and
  returns at the end of the file 0, or \<open>n\<close> after a \<open>break\<close>; server/readline_r.c does the
  latter over a buffer of the caller.
\<close>

definition server_eof :: "nat \<Rightarrow> int" where
  "server_eof n = (if n = 1 then 0 \<comment> \<open>EOF, no data read\<close> else int n \<comment> \<open>EOF, some data was read\<close>)"

definition read1_once :: "int \<Rightarrow> unit \<Rightarrow> (int \<times> char \<times> unit) io" where
  "read1_once fd st =
     bind (sys (SysRead fd 1)) (\<lambda>r.
     if r_val r = 1 then (case r_data r of c # _ \<Rightarrow> ret (1, c, ()) | [] \<Rightarrow> undef)
     else ret (r_val r, CHR 0x00, ()))"

definition server_readline :: "int \<Rightarrow> nat \<Rightarrow> (int \<times> string) io" where
  "server_readline fd maxlen =
     bind (line_loop server_eof (read1_once fd) (maxlen - 1) 1 [] ()) (\<lambda>(n, buf, _). ret (n, buf))"

definition server_Readline :: "int \<Rightarrow> nat \<Rightarrow> (int \<times> string) io" where
  "server_Readline fd maxlen =
     bind (server_readline fd maxlen) (\<lambda>(n, buf).
     if n = - 1 then err_sys ''readline error'' else ret (n, buf))"

record Rline =
  read_fd :: int
  read_maxlen :: nat
  rbuf :: rline

definition readline_rinit :: "int \<Rightarrow> nat \<Rightarrow> Rline" where
  "readline_rinit fd maxlen = \<lparr>read_fd = fd, read_maxlen = maxlen, rbuf = rl_init\<rparr>"

definition my_read_r :: "int \<Rightarrow> rline \<Rightarrow> (int \<times> char \<times> rline) io" where
  \<comment> \<open>over the fields \<open>read_fd\<close> and \<open>rl_cnt\<close>, \<open>rl_bufptr\<close> of \<open>rptr\<close>\<close>
  "my_read_r fd st =
     (if rl_cnt st \<le> 0 then
        bind (loop (refill_body fd) st) (\<lambda>(rc, st).
        if rc \<le> 0 then ret (rc, CHR 0x00, st) else next_byte st)
      else next_byte st)"

definition readline_r :: "Rline \<Rightarrow> (int \<times> string \<times> Rline) io" where
  "readline_r rptr =
     bind (line_loop server_eof (my_read_r (read_fd rptr)) (read_maxlen rptr - 1) 1 [] (rbuf rptr))
       (\<lambda>(n, buf, st). ret (n, buf, rptr\<lparr>rbuf := st\<rparr>))"

definition Readline_r :: "Rline \<Rightarrow> (int \<times> string \<times> Rline) io" where
  "Readline_r rptr =
     bind (readline_r rptr) (\<lambda>(n, buf, rptr).
     if n = - 1 then err_sys ''readline_r error'' else ret (n, buf, rptr))"

subsection \<open>The contract between a line reader and its byte source\<close>

text \<open>
  \<open>pend s\<close> are the bytes the source has read but not given out.  A byte given out is the
  next one of the pending bytes followed by the bytes read; at the end of the file, or after
  an error, there is none.
\<close>

definition byte_post :: "('s \<Rightarrow> bool) \<Rightarrow> ('s \<Rightarrow> string) \<Rightarrow> int \<Rightarrow> 's \<Rightarrow> (syscall \<times> sysret) list
    \<Rightarrow> (int \<times> char \<times> 's) res \<Rightarrow> world \<Rightarrow> bool" where
  "byte_post good pend fd st log r w =
     (case r of
        Val (rc, c, st') \<Rightarrow> good st' \<and> rc \<in> {1, 0, - 1} \<and>
          extends (\<lambda>new. pend st @ stream_in fd new = (if rc = 1 then [c] else []) @ pend st' \<and>
            (rc \<noteq> 1 \<longrightarrow> pend st' = []) \<and>
            (rc = 0 \<longrightarrow> new \<noteq> [] \<and> (\<exists>m a. 0 < m \<and> last new = (SysRead fd m, a) \<and> r_val a = 0))) log w
      | Blocked \<Rightarrow> True
      | _ \<Rightarrow> False)"

text \<open>
  What \<open>line_loop\<close> returns: the bytes stored, \<open>pend\<close> and the bytes read fit together (no
  byte is lost or given out twice), a newline is only at the end, and the return value says
  how the line ended.
\<close>

definition line_post :: "('s \<Rightarrow> bool) \<Rightarrow> ('s \<Rightarrow> string) \<Rightarrow> int \<Rightarrow> (nat \<Rightarrow> int) \<Rightarrow> nat \<Rightarrow> 's \<Rightarrow> (syscall \<times> sysret) list
    \<Rightarrow> (int \<times> string \<times> 's) res \<Rightarrow> world \<Rightarrow> bool" where
  "line_post good pend fd at_eof maxlen st log r w =
     (case r of
        Val (v, buf, st') \<Rightarrow> good st' \<and>
          extends (\<lambda>new. pend st @ stream_in fd new = buf @ pend st') log w \<and>
          newline \<notin> set (butlast buf) \<and> length buf < maxlen \<and>
          (buf \<noteq> [] \<and> last buf = newline \<and> v = int (length buf) \<or>
           newline \<notin> set buf \<and>
            (v = int maxlen \<and> length buf = maxlen - 1 \<or>
             pend st' = [] \<and> (v = - 1 \<or> v = at_eof (Suc (length buf)) \<and>
               (\<exists>m a. 0 < m \<and> trace w \<noteq> [] \<and> last (trace w) = (SysRead fd m, a) \<and> r_val a = 0))))
      | Blocked \<Rightarrow> True
      | _ \<Rightarrow> False)"

locale byte_source =
  fixes get :: "'s \<Rightarrow> (int \<times> char \<times> 's) io"
    and good :: "'s \<Rightarrow> bool"
    and pend :: "'s \<Rightarrow> string"
    and fd :: int
  assumes get_byte: "good st \<Longrightarrow> wp (get st) (byte_post good pend fd st (trace w)) w"
begin

lemma extends_chain:
  assumes "extends (\<lambda>new. xs @ stream_in fd new = ys @ zs) log w"
    and "extends (\<lambda>new. zs @ stream_in fd new = us \<and> Q new) (trace w) w'"
  shows "extends (\<lambda>new. xs @ stream_in fd new = ys @ us) log w'"
proof -
  obtain new1 new2 where new: "trace w = log @ new1" "xs @ stream_in fd new1 = ys @ zs"
    "trace w' = trace w @ new2" "zs @ stream_in fd new2 = us"
    using assms unfolding extends_def by blast
  have "xs @ stream_in fd (new1 @ new2) = (xs @ stream_in fd new1) @ stream_in fd new2" by simp
  also have "\<dots> = ys @ us" using new by simp
  finally show ?thesis using new unfolding extends_def by (intro exI [of _ "new1 @ new2"]) simp
qed

lemma byte_postD:
  assumes "byte_post good pend fd st (trace w) (Val (rc, c, st')) w'"
  shows "good st'" "rc = 1 \<or> rc = 0 \<or> rc = - 1"
    and "extends (\<lambda>new. pend st0 @ stream_in fd new = buf @ pend st) log w \<Longrightarrow>
      extends (\<lambda>new. pend st0 @ stream_in fd new = buf @ (if rc = 1 then [c] else []) @ pend st') log w'"
    and "rc \<noteq> 1 \<Longrightarrow> pend st' = []"
    and "rc = 0 \<Longrightarrow> \<exists>m a. 0 < m \<and> trace w' \<noteq> [] \<and> last (trace w') = (SysRead fd m, a) \<and> r_val a = 0"
proof -
  from assms have *: "good st'" "rc \<in> {1, 0, - 1}"
    "extends (\<lambda>new. pend st @ stream_in fd new = (if rc = 1 then [c] else []) @ pend st' \<and>
      (rc \<noteq> 1 \<longrightarrow> pend st' = []) \<and>
      (rc = 0 \<longrightarrow> new \<noteq> [] \<and> (\<exists>m a. 0 < m \<and> last new = (SysRead fd m, a) \<and> r_val a = 0))) (trace w) w'"
    by (simp_all add: byte_post_def)
  then show "good st'" "rc = 1 \<or> rc = 0 \<or> rc = - 1" by auto
  show "extends (\<lambda>new. pend st0 @ stream_in fd new = buf @ pend st) log w \<Longrightarrow>
      extends (\<lambda>new. pend st0 @ stream_in fd new = buf @ (if rc = 1 then [c] else []) @ pend st') log w'"
    by (rule extends_chain [OF _ *(3)])
  show "rc \<noteq> 1 \<Longrightarrow> pend st' = []"
    and "rc = 0 \<Longrightarrow> \<exists>m a. 0 < m \<and> trace w' \<noteq> [] \<and> last (trace w') = (SysRead fd m, a) \<and> r_val a = 0"
    using *(3) by (auto simp: extends_def)
qed

lemma wp_line_loop:
  assumes "good st" "newline \<notin> set buf" "length buf + 1 = n" "n + k = maxlen"
    and "extends (\<lambda>new. pend st0 @ stream_in fd new = buf @ pend st) log w"
  shows "wp (line_loop at_eof get k n buf st) (line_post good pend fd at_eof maxlen st0 log) w"
  using assms
proof (induction k arbitrary: n buf st w)
  case 0
  then show ?case
    by (auto simp: line_post_def dest: in_set_butlastD)
next
  case (Suc k)
  note buf = Suc.prems(2,3,4) and ext = Suc.prems(5)
  have post: "on_val (\<lambda>a. wp (case a of (rc, c, st) \<Rightarrow>
           if rc = 1 then if c = newline then ret (int n, buf @ [c], st)
             else line_loop at_eof get k (Suc n) (buf @ [c]) st
           else if rc = 0 then ret (at_eof n, buf, st) else ret (- 1, buf, st))
             (line_post good pend fd at_eof maxlen st0 log)) (line_post good pend fd at_eof maxlen st0 log) r w'"
    if byte: "byte_post good pend fd st (trace w) r w'" for r w'
  proof (cases r)
    case (Val v)
    obtain rc c st' where r: "r = Val (rc, c, st')" using Val by (cases v) auto
    note * = byte_postD [OF byte [unfolded r]]
    show ?thesis
    proof (cases "rc = 1 \<and> c \<noteq> newline")
      case True
      have "wp (line_loop at_eof get k (Suc n) (buf @ [c]) st') (line_post good pend fd at_eof maxlen st0 log) w'"
        using * buf True *(3) [OF ext] by (intro Suc.IH) auto
      with True show ?thesis by (simp add: r)
    next
      case False
      then show ?thesis
        using *(1,2,4,5) buf *(3) [OF ext]
        by (auto simp: r line_post_def dest: in_set_butlastD)
    qed
  qed (use byte in \<open>simp_all add: byte_post_def line_post_def\<close>)
  show ?case
    unfolding line_loop.simps wp_bind
    by (rule wp_conseq [OF get_byte [OF Suc.prems(1)]]) (rule post)
qed

lemma wp_line:
  assumes "good st" "0 < maxlen"
  shows "wp (line_loop at_eof get (maxlen - 1) 1 [] st) (line_post good pend fd at_eof maxlen st (trace w)) w"
  using assms by (intro wp_line_loop) (auto intro: extends_refl)

end
subsection \<open>The byte sources\<close>

definition rl_ok :: "rline \<Rightarrow> bool" where
  "rl_ok st \<longleftrightarrow> (if rl_cnt st \<le> 0 then rl_rest st = [] else rl_cnt st = int (length (rl_rest st)))"

interpretation refill: consuming "refill_body fd" for fd
  by unfold_locales (unfold refill_body_def Let_def, intro body_eating eating)

interpretation read1: consuming "read1_body fd" for fd
  by unfold_locales (unfold read1_body_def Let_def, intro body_eating eating)

lemma shrinks_my_read [eating]: "shrinks (my_read fd st)"
  unfolding my_read_def next_byte_def by (intro eating refill.shrinks_body)

lemma shrinks_line_loop:
  "(\<And>st. shrinks (get st)) \<Longrightarrow> shrinks (line_loop at_eof get k n buf st)"
  by (induction k arbitrary: n buf st) (auto intro!: eating)

lemma shrinks_readline [eating]: "shrinks (readline fd maxlen st)"
  unfolding readline_def by (intro shrinks_line_loop eating)

lemma shrinks_Readline [eating]: "shrinks (Readline fd maxlen st)"
  unfolding Readline_def by (intro eating)

definition at_eof_log :: "int \<Rightarrow> (syscall \<times> sysret) list \<Rightarrow> bool" where
  "at_eof_log fd new \<longleftrightarrow> new \<noteq> [] \<and> (\<exists>m a. 0 < m \<and> last new = (SysRead fd m, a) \<and> r_val a = 0)"

definition refill_post :: "int \<Rightarrow> (syscall \<times> sysret) list \<Rightarrow> (int \<times> rline) res \<Rightarrow> world \<Rightarrow> bool" where
  "refill_post fd log r w =
     (case r of
        Val (rc, st) \<Rightarrow> rl_ok st \<and> (rc = 1 \<and> rl_rest st \<noteq> [] \<or> (rc = 0 \<or> rc = - 1) \<and> rl_rest st = []) \<and>
          extends (\<lambda>new. stream_in fd new = rl_rest st \<and> (rc = 0 \<longrightarrow> at_eof_log fd new)) log w
      | Blocked \<Rightarrow> True
      | _ \<Rightarrow> False)"

definition refill_inv :: "int \<Rightarrow> (syscall \<times> sysret) list \<Rightarrow> rline \<Rightarrow> world \<Rightarrow> bool" where
  "refill_inv fd log st w \<longleftrightarrow> rl_cnt st \<le> 0 \<and> rl_rest st = [] \<and> extends (\<lambda>new. stream_in fd new = []) log w"

lemma wp_refill:
  assumes "rl_ok st" "rl_cnt st \<le> 0"
  shows "wp (loop (refill_body fd) st) (refill_post fd (trace w)) w"
proof (rule refill.wp_loop [where I = "refill_inv fd (trace w)"])
  show "refill_inv fd (trace w) st w"
    using assms by (simp add: refill_inv_def rl_ok_def extends_refl)
next
  fix st w'
  assume inv: "refill_inv fd (trace w) st w'"
  have log: "extends (\<lambda>new. stream_in fd new = r_data r \<and> new \<noteq> [] \<and>
      last new = (SysRead fd MAXLINE, r)) (trace w) (logged (SysRead fd MAXLINE) r w')" for r
    using inv by (intro extends_logged) (auto simp: refill_inv_def elim!: extends_weaken)
  show "wp (refill_body fd st) (body_post (refill_inv fd (trace w)) (refill_post fd (trace w))) w'"
  proof (cases "script w'")
    case Nil
    then show ?thesis by (simp add: refill_body_def refill_post_def)
  next
    case (Cons r rs)
    show ?thesis
    proof (cases "fits_read MAXLINE r")
      case True
      have *: "r_val r < 0 \<and> r_data r = [] \<or> r_val r = 0 \<and> r_data r = [] \<or>
          0 < r_val r \<and> r_val r = int (length (r_data r)) \<and> r_data r \<noteq> []"
        using fits_readD(1,2) [OF True] by (cases "r_val r" "0 :: int" rule: linorder_cases) auto
      have "0 < MAXLINE" by (simp add: MAXLINE_def)
      with * Cons inv log [of r] True show ?thesis
        by (auto simp: refill_body_def refill_post_def refill_inv_def Let_def rl_ok_def at_eof_log_def
            elim!: extends_weaken)
    qed (use Cons in \<open>simp add: refill_body_def refill_post_def\<close>)
  qed
qed

lemma wp_my_read:
  assumes "rl_ok st"
  shows "wp (my_read fd st) (byte_post rl_ok rl_rest fd st (trace w)) w"
proof (cases "rl_cnt st \<le> 0")
  case False
  then obtain c rest where "rl_rest st = c # rest"
    using assms by (cases "rl_rest st") (auto simp: rl_ok_def)
  then show ?thesis
    using False assms
    by (auto simp: my_read_def next_byte_def byte_post_def rl_ok_def intro!: extends_refl)
next
  case True
  have "on_val (\<lambda>a. wp (case a of (rc, st) \<Rightarrow> if rc \<le> 0 then ret (rc, CHR 0x00, st) else next_byte st)
      (byte_post rl_ok rl_rest fd st (trace w))) (byte_post rl_ok rl_rest fd st (trace w)) r w'"
    if post: "refill_post fd (trace w) r w'" for r w'
    using post assms True
    by (cases r) (auto simp: refill_post_def byte_post_def next_byte_def rl_ok_def at_eof_log_def
        split: list.splits if_splits elim!: extends_weaken)
  then show ?thesis
    using True assms unfolding my_read_def
    by (simp del: split_paired_All) (rule wp_conseq [OF wp_refill])
qed

interpretation buffered: byte_source "my_read fd" rl_ok rl_rest fd for fd
  by unfold_locales (rule wp_my_read)

definition read1_post :: "int \<Rightarrow> (syscall \<times> sysret) list \<Rightarrow> (int \<times> char) res \<Rightarrow> world \<Rightarrow> bool" where
  "read1_post fd log r w =
     (case r of
        Val (rc, c) \<Rightarrow> (rc = 1 \<or> rc = 0 \<or> rc = - 1) \<and>
          extends (\<lambda>new. stream_in fd new = (if rc = 1 then [c] else []) \<and>
            (rc = 0 \<longrightarrow> at_eof_log fd new)) log w
      | Blocked \<Rightarrow> True
      | _ \<Rightarrow> False)"

lemma fits_read_1:
  assumes "fits_read 1 r"
  shows "r_val r = - 1 \<and> r_data r = [] \<or> r_val r = 0 \<and> r_data r = [] \<or>
    (\<exists>c. r_val r = 1 \<and> r_data r = [c])"
proof (cases "r_data r")
  case Nil
  with assms show ?thesis by (auto simp: fits_read_def)
next
  case (Cons c cs)
  with assms have "length (c # cs) \<le> 1" "r_val r = int (length (c # cs))"
    by (auto simp: fits_read_def)
  with Cons show ?thesis by simp
qed

lemma wp_read1_loop: "wp (loop (read1_body fd) s) (read1_post fd (trace w)) w"
proof (rule read1.wp_loop [where I = "\<lambda>_. extends (\<lambda>new. stream_in fd new = []) (trace w)"])
  show "extends (\<lambda>new. stream_in fd new = []) (trace w) w" by (simp add: extends_refl)
next
  fix s w'
  assume inv: "extends (\<lambda>new. stream_in fd new = []) (trace w) w'"
  have log: "extends (\<lambda>new. stream_in fd new = r_data r \<and> new \<noteq> [] \<and> last new = (SysRead fd 1, r))
      (trace w) (logged (SysRead fd 1) r w')" for r
    using inv by (intro extends_logged) (auto elim!: extends_weaken)
  show "wp (read1_body fd s) (body_post (\<lambda>_. extends (\<lambda>new. stream_in fd new = []) (trace w))
      (read1_post fd (trace w))) w'"
  proof (cases "script w'")
    case Nil
    then show ?thesis by (simp add: read1_body_def read1_post_def)
  next
    case (Cons r rs)
    show ?thesis
    proof (cases "fits_read 1 r")
      case True
      with fits_read_1 [OF True] Cons inv log [of r] show ?thesis
        by (auto simp: read1_body_def read1_post_def at_eof_log_def elim!: extends_weaken)
    qed (use Cons in \<open>simp add: read1_body_def read1_post_def\<close>)
  qed
qed

lemma wp_read1: "wp (read1 fd st) (byte_post (\<lambda>_. True) (\<lambda>_. []) fd st (trace w)) w"
proof -
  have "on_val (\<lambda>a. wp (case a of (rc, c) \<Rightarrow> ret (rc, c, ()))
      (byte_post (\<lambda>_. True) (\<lambda>_. []) fd st (trace w)))
      (byte_post (\<lambda>_. True) (\<lambda>_. []) fd st (trace w)) r w'"
    if post: "read1_post fd (trace w) r w'" for r w'
    using post by (cases r) (auto simp: read1_post_def byte_post_def at_eof_log_def elim!: extends_weaken)
  then show ?thesis
    unfolding read1_def wp_bind by (rule wp_conseq [OF wp_read1_loop])
qed

interpretation unbuffered: byte_source "read1 fd" "\<lambda>_. True" "\<lambda>_. []" fd for fd
  by unfold_locales (rule wp_read1)

lemma wp_read1_once: "wp (read1_once fd st) (byte_post (\<lambda>_. True) (\<lambda>_. []) fd st (trace w)) w"
proof (cases "script w")
  case (Cons r rs)
  have log: "extends (\<lambda>new. stream_in fd new = r_data r \<and> new \<noteq> [] \<and> last new = (SysRead fd 1, r))
      (trace w) (logged (SysRead fd 1) r w)"
    by (intro extends_logged) (simp add: extends_refl)
  show ?thesis
  proof (cases "fits_read 1 r")
    case True
    with fits_read_1 [OF True] Cons log show ?thesis
      by (auto simp: read1_once_def byte_post_def elim!: extends_weaken)
  qed (use Cons in \<open>simp add: read1_once_def byte_post_def\<close>)
qed (simp add: read1_once_def byte_post_def)

interpretation once: byte_source "read1_once fd" "\<lambda>_. True" "\<lambda>_. []" fd for fd
  by unfold_locales (rule wp_read1_once)

lemma my_read_variants: "my_read_tsd = my_read" "my_read_r = my_read"
  by (simp_all add: fun_eq_iff my_read_tsd_def my_read_r_def my_read_def)

lemma wp_readline:
  assumes "rl_ok st" "0 < maxlen"
  shows "wp (readline fd maxlen st) (line_post rl_ok rl_rest fd (\<lambda>n. int n - 1) maxlen st (trace w)) w"
  unfolding readline_def using assms by (rule buffered.wp_line)

lemma rl_init_ok [simp]: "rl_ok rl_init" "rl_rest rl_init = []"
  by (simp_all add: rl_ok_def rl_init_def)

subsection \<open>The echo loops\<close>

text \<open>lib/str_echo.c: both \<open>goto again\<close> and the inner \<open>while\<close> go back to the \<open>read\<close>.\<close>

definition str_echo_body :: "int \<Rightarrow> unit \<Rightarrow> (unit + unit) io" where
  "str_echo_body sockfd = (\<lambda>_.
     bind (sys (SysRead sockfd MAXLINE)) (\<lambda>r.
     if 0 < r_val r then seq (Writen sockfd (r_data r)) (again ())
     else bind get_errno (\<lambda>e.
       if r_val r < 0 \<and> e = EINTR then again ()
       else if r_val r < 0 then err_sys ''str_echo: read error''
       else stop ())))"

definition str_echo :: "int \<Rightarrow> unit io" where
  "str_echo sockfd = loop (str_echo_body sockfd) ()"

text \<open>lib/str_cli.c; the state is the static buffer of \<open>readline\<close>.\<close>

definition str_cli_body :: "int \<Rightarrow> int \<Rightarrow> rline \<Rightarrow> (rline + unit) io" where
  "str_cli_body fp sockfd = (\<lambda>st.
     bind (Fgets MAXLINE fp) (\<lambda>line.
     case line of
       None \<Rightarrow> stop ()
     | Some sendline \<Rightarrow>
         seq (Writen sockfd (c_string sendline))
        (bind (Readline sockfd MAXLINE st) (\<lambda>(n, recvline, st).
         if n = 0 then err_quit ''str_cli: server terminated prematurely''
         else seq (Fputs (c_string recvline) STDOUT_FILENO) (again st)))))"

definition str_cli :: "int \<Rightarrow> int \<Rightarrow> rline \<Rightarrow> unit io" where
  "str_cli fp sockfd st = loop (str_cli_body fp sockfd) st"

definition dg_cli_body :: "int \<Rightarrow> int \<Rightarrow> sockaddr \<Rightarrow> unit \<Rightarrow> (unit + unit) io" where
  "dg_cli_body fp sockfd pservaddr = (\<lambda>_.
     bind (Fgets MAXLINE fp) (\<lambda>line.
     case line of
       None \<Rightarrow> stop ()
     | Some sendline \<Rightarrow>
         seq (Sendto sockfd (c_string sendline) 0 pservaddr)
        (bind (Recvfrom sockfd MAXLINE 0) (\<lambda>r.
         seq (Fputs (c_string (r_data r)) STDOUT_FILENO) (again ())))))"

definition dg_cli :: "int \<Rightarrow> int \<Rightarrow> sockaddr \<Rightarrow> unit io" where
  "dg_cli fp sockfd pservaddr = loop (dg_cli_body fp sockfd pservaddr) ()"

definition dg_echo_body :: "int \<Rightarrow> unit \<Rightarrow> (unit + unit) io" where
  "dg_echo_body sockfd = (\<lambda>_.
     bind (Recvfrom sockfd MAXLINE 0) (\<lambda>r.
     seq (Sendto sockfd (r_data r) 0 (r_addr r)) (again ())))"

definition dg_echo :: "int \<Rightarrow> unit io" where
  "dg_echo sockfd = loop (dg_echo_body sockfd) ()"

lemma eats_Fgets: "eats (Fgets n fp)"
  unfolding Fgets_def by (intro eats_bind1 eats_sys eating)

lemma eats_Recvfrom: "eats (Recvfrom fd n fl)"
  unfolding Recvfrom_def by (intro eats_bind1 eats_sys eating)

lemma shrinks_Fputs [eating]: "shrinks (Fputs s fp)"
  unfolding Fputs_def by (intro eating)

lemma shrinks_Sendto [eating]: "shrinks (Sendto fd s fl sa)"
  unfolding Sendto_def by (intro eating)

interpretation str_echo: consuming "str_echo_body fd" for fd
  by unfold_locales (unfold str_echo_body_def, intro body_eating eating cont_eats_err_sys)

interpretation str_cli: consuming "str_cli_body fp fd" for fp fd
  by unfold_locales (unfold str_cli_body_def, intro body_eating eats_Fgets eating)

interpretation dg_cli: consuming "dg_cli_body fp fd sa" for fp fd sa
  by unfold_locales (unfold dg_cli_body_def, intro body_eating eats_Fgets eats_shrinks [OF eats_Recvfrom] eating)

interpretation dg_echo: consuming "dg_echo_body fd" for fd
  by unfold_locales (unfold dg_echo_body_def, intro body_eating eats_Recvfrom eating)

text \<open>What an echo loop has done: all it has read is written, in order, up to the last piece.\<close>

definition echo_inv :: "int \<Rightarrow> (syscall \<times> sysret) list \<Rightarrow> world \<Rightarrow> bool" where
  "echo_inv fd log w \<longleftrightarrow> extends (\<lambda>new. stream_out fd new = stream_in fd new) log w"

definition echo_post :: "int \<Rightarrow> (syscall \<times> sysret) list \<Rightarrow> unit res \<Rightarrow> world \<Rightarrow> bool" where
  "echo_post fd log r w =
     (case r of
        Val _ \<Rightarrow> extends (\<lambda>new. stream_out fd new = stream_in fd new \<and> at_eof_log fd new) log w
      | Undef \<Rightarrow> False
      | _ \<Rightarrow> extends (\<lambda>new. prefix (stream_out fd new) (stream_in fd new)) log w)"


lemma extends_trans:
  assumes "extends P log w" "extends Q (trace w) w'"
    and "\<And>a b. P a \<Longrightarrow> Q b \<Longrightarrow> R (a @ b)"
  shows "extends R log w'"
proof -
  obtain a where a: "trace w = log @ a" "P a" using assms(1) by (auto simp: extends_def)
  obtain b where b: "trace w' = trace w @ b" "Q b" using assms(2) by (auto simp: extends_def)
  show ?thesis
    unfolding extends_def using a b assms(3) [OF a(2) b(2)] by (intro exI [of _ "a @ b"]) simp
qed

lemma wp_str_echo: "wp (str_echo fd) (echo_post fd (trace w)) w"
  unfolding str_echo_def
proof (rule str_echo.wp_loop [where I = "\<lambda>_. echo_inv fd (trace w)"])
  show "echo_inv fd (trace w) w" by (simp add: echo_inv_def extends_refl)
next
  fix s w'
  assume inv: "echo_inv fd (trace w) w'"
  then have pre: "extends (\<lambda>new. prefix (stream_out fd new) (stream_in fd new)) (trace w) w'"
    by (auto simp: echo_inv_def elim!: extends_weaken)
  have log: "extends (\<lambda>new. stream_in fd new = stream_out fd new @ r_data r \<and> new \<noteq> [] \<and>
      last new = (SysRead fd MAXLINE, r)) (trace w) (logged (SysRead fd MAXLINE) r w')" for r
    using inv by (intro extends_logged) (auto simp: echo_inv_def elim!: extends_weaken)
  have "0 < MAXLINE" by (simp add: MAXLINE_def)
  have wr: "wp (Writen fd (r_data r)) (on_val (\<lambda>_. echo_inv fd (trace w)) (echo_post fd (trace w)))
      (logged (SysRead fd MAXLINE) r w')" for r
  proof (rule wp_conseq [OF wp_Writen])
    fix q w''
    assume post: "Writen_post fd (r_data r) (trace (logged (SysRead fd MAXLINE) r w')) q w''"
    show "on_val (\<lambda>_. echo_inv fd (trace w)) (echo_post fd (trace w)) q w''"
    proof (cases q)
      case (Val u)
      with post have "extends (\<lambda>new. stream_out fd new = r_data r \<and> (\<forall>fd'. stream_in fd' new = []))
          (trace (logged (SysRead fd MAXLINE) r w')) w''"
        by (simp add: Writen_post_def del: logged_simps)
      from extends_trans [OF log this] Val show ?thesis by (simp add: echo_inv_def)
    next
      case (Exited c)
      with post have ext: "extends (\<lambda>new. prefix (stream_out fd new) (r_data r) \<and>
          (\<forall>fd'. stream_in fd' new = [])) (trace (logged (SysRead fd MAXLINE) r w')) w''"
        by (simp add: Writen_post_def del: logged_simps)
      from extends_trans [OF log this] Exited show ?thesis by (simp add: echo_post_def)
    next
      case Blocked
      with post have ext: "extends (\<lambda>new. prefix (stream_out fd new) (r_data r) \<and>
          (\<forall>fd'. stream_in fd' new = [])) (trace (logged (SysRead fd MAXLINE) r w')) w''"
        by (simp add: Writen_post_def del: logged_simps)
      from extends_trans [OF log this] Blocked show ?thesis by (simp add: echo_post_def)
    qed (use post in \<open>simp add: Writen_post_def\<close>)
  qed
  show "wp (str_echo_body fd s) (body_post (\<lambda>_. echo_inv fd (trace w)) (echo_post fd (trace w))) w'"
  proof (cases "script w'")
    case Nil
    then show ?thesis using pre by (simp add: str_echo_body_def echo_post_def)
  next
    case (Cons r rs)
    show ?thesis
    proof (cases "fits_read MAXLINE r")
      case True
      have *: "r_val r < 0 \<and> r_data r = [] \<or> r_val r = 0 \<and> r_data r = [] \<or> 0 < r_val r"
        using fits_readD(1,2) [OF True] by (cases "r_val r" "0 :: int" rule: linorder_cases) auto
      have wr': "wp (Writen fd (r_data r)) (on_val (\<lambda>_. echo_inv fd (trace w))
          (body_post (\<lambda>_. echo_inv fd (trace w)) (echo_post fd (trace w))))
          (logged (SysRead fd MAXLINE) r w')"
        by (rule wp_conseq [OF wr]) (auto simp: on_val_def split: res.splits)
      show ?thesis
      proof (cases "0 < r_val r")
        case True
        then show ?thesis using Cons \<open>fits_read MAXLINE r\<close> wr' by (simp add: str_echo_body_def)
      next
        case False
        with * have "r_data r = []" by auto
        with False True Cons log [of r] \<open>0 < MAXLINE\<close> show ?thesis
          by (auto simp: str_echo_body_def echo_inv_def echo_post_def at_eof_log_def
              intro!: extends_err elim!: extends_weaken)
      qed
    qed (use Cons pre in \<open>simp add: str_echo_body_def echo_post_def\<close>)
  qed
qed

subsection \<open>Reading to completion\<close>

lemma fits_okdata: "fits (SysRead fd n) (okdata s) \<longleftrightarrow> length s \<le> n"
  by (simp add: fits_read_def okdata_def ok_def)

lemma okdata_simps [simp]: "r_val (okdata s) = int (length s)" "r_data (okdata s) = s"
  by (simp_all add: okdata_def ok_def)

lemma loop_readn_pieces:
  assumes "list_all (\<lambda>c. c \<noteq> []) pieces" "length (concat pieces) = nleft" "nleft + length buf = n"
    "script w = map okdata pieces @ rest"
  shows "wp (loop (readn_body fd n) (nleft, buf))
    (\<lambda>r w'. r = Val (int n, buf @ concat pieces) \<and> script w' = rest) w"
  using assms
proof (induction pieces arbitrary: nleft buf w)
  case Nil
  then show ?case by (subst readn.loop_unfold) (simp add: readn_body_def)
next
  case (Cons c pieces)
  have "wp (loop (readn_body fd n) (nleft - length c, buf @ c))
      (\<lambda>r w'. r = Val (int n, (buf @ c) @ concat pieces) \<and> script w' = rest)
      (logged (SysRead fd nleft) (okdata c) w)"
    using Cons.prems by (intro Cons.IH) auto
  moreover have "0 < nleft" "length c \<le> nleft" "c \<noteq> []" using Cons.prems by auto
  ultimately show ?case
    using Cons.prems(4)
    by (subst readn.loop_unfold) (simp add: readn_body_def fits_okdata Let_def del: fits.simps)
qed

subsection \<open>Properties\<close>

text \<open>C11: \<open>readn\<close> stores exactly the bytes it reads, at most \<open>n\<close>, however the kernel splits
  them and however often it is interrupted; it returns \<open>n\<close>, or fewer bytes only after the end
  of the file, or -1 only for an error other than \<open>EINTR\<close>.\<close>

theorem readn_correct: "wp (readn fd n) (readn_post fd n (trace w)) w"
  by (rule wp_readn)

text \<open>\<open>readn\<close> does return: when the kernel delivers the \<open>n\<close> bytes in any number of
  nonempty pieces, \<open>readn\<close> returns \<open>n\<close> and their concatenation, and reads nothing more.\<close>

theorem readn_returns:
  assumes "list_all (\<lambda>c. c \<noteq> []) pieces" "length (concat pieces) = n"
    "script w = map okdata pieces @ rest"
  shows "wp (readn fd n) (\<lambda>r w'. r = Val (int n, concat pieces) \<and> script w' = rest) w"
  using loop_readn_pieces [of pieces n "[]" n w rest fd] assms by (simp add: readn_def)

theorem readn_returns_witness:
  "wp (readn 3 5) (\<lambda>r w'. r = Val (int 5, concat [''ab'', ''c'', ''de'']) \<and> script w' = [fail EINTR])
     (start [okdata ''ab'', okdata ''c'', okdata ''de'', fail EINTR])"
  by (rule readn_returns) (simp_all add: start_def)

text \<open>C12: \<open>writen\<close> returns the length only when every byte was taken in order by \<open>write\<close>; when
  it fails or blocks, the bytes taken are a prefix of the buffer: no byte is written twice.\<close>

theorem writen_correct: "wp (writen fd s) (writen_post fd s (trace w)) w"
  by (rule wp_writen)

text \<open>C6: the buffered \<open>readline\<close> of lib/readline.c and the byte-by-byte one of
  test/readline1.c meet the same contract: the line stored, followed by what stays in the
  buffer, is what was in the buffer followed by the bytes read (nothing is lost or given out
  twice between calls), a newline only ends the line, and the return value is the length of a
  complete line, one less than \<open>n\<close> at the end of the file, -1 for an error; a line that does
  not fit returns \<open>maxlen\<close>, one more than the bytes stored.\<close>

theorem readline_contract:
  assumes "rl_ok st" "0 < maxlen"
  shows "wp (readline fd maxlen st)
      (line_post rl_ok rl_rest fd (\<lambda>n. int n - 1) maxlen st (trace w)) w \<and>
    wp (line_loop (\<lambda>n. int n - 1) (read1 fd) (maxlen - 1) 1 [] ())
      (line_post (\<lambda>_. True) (\<lambda>_. []) fd (\<lambda>n. int n - 1) maxlen () (trace w)) w"
  using assms by (intro conjI wp_readline unbuffered.wp_line) auto

theorem readline_contract_witness:
  "wp (readline 3 80 rl_init)
      (line_post rl_ok rl_rest 3 (\<lambda>n. int n - 1) 80 rl_init (trace (start []))) (start []) \<and>
   wp (line_loop (\<lambda>n. int n - 1) (read1 3) (80 - 1) 1 [] ())
      (line_post (\<lambda>_. True) (\<lambda>_. []) 3 (\<lambda>n. int n - 1) 80 () (trace (start []))) (start [])"
  by (rule readline_contract) simp_all

text \<open>The \<open>readline\<close> of the preforked servers (server/readline.c, and over a buffer
  server/readline_r.c) returns one more than the number of bytes stored when the file ends in
  the middle of a line; at the end of the file it returns 0 only if nothing was stored.\<close>

theorem server_readline_eof:
  "fst (server_readline 3 80 (start [okdata ''a'', okdata ''b'', okdata []])) = Val (3, ''ab'') \<and>
   fst (server_readline 3 80 (start [okdata []])) = Val (0, []) \<and>
   fst (readline_r (readline_rinit 3 80) (start [okdata ''ab'', okdata []])) =
     Val (3, ''ab'', \<lparr>read_fd = 3, read_maxlen = 80, rbuf = \<lparr>rl_cnt = 0, rl_rest = []\<rparr>\<rparr>) \<and>
   fst (readline 3 80 rl_init (start [okdata ''ab'', okdata []])) =
     Val (2, ''ab'', \<lparr>rl_cnt = 0, rl_rest = []\<rparr>)"
  by code_simp

text \<open>C5: \<open>str_echo\<close> writes back exactly the bytes it reads, in order: when it returns, the
  client has closed its side and every byte was echoed; at every other end of a run the bytes
  written are a prefix of the bytes read.\<close>

theorem str_echo_echoes: "wp (str_echo fd) (echo_post fd (trace w)) w"
  by (rule wp_str_echo)

end
