(* ===== verification/SockAddr.thy ===== *)
theory SockAddr
  imports Wrappers
begin

text \<open>
  Protocol-independent access to socket address structures: lib/sock_ntop.c,
  lib/sock_ntop_host.c, lib/sock_cmp_addr.c, lib/sock_cmp_port.c, lib/sock_get_port.c,
  lib/sock_set_addr.c, lib/sock_set_port.c, lib/sock_set_wild.c, lib/sockfd_to_family.c,
  lib/family_to_level.c and lib/sock_bind_wild.c.

  A function that changes the structure behind a pointer returns the changed structure.
  Proved here: what is set is what is read back and nothing else changes, the presentation
  form is never truncated, and what the comparison functions return.
\<close>

subsection \<open>Presentation: \<open>sock_ntop\<close>, \<open>sock_ntop_host\<close>\<close>

text \<open>\<open>Inl errno\<close> is \<open>NULL\<close>.  The static \<open>str\<close> has 128 bytes, \<open>portstr\<close> has 8.\<close>

fun sock_ntop :: "sockaddr \<Rightarrow> nat \<Rightarrow> int + string" where
  "sock_ntop (SaIn sin_port sin_addr) salen =
     (case inet_ntop AF_INET sin_addr 128 of
        Inl e \<Rightarrow> Inl e
      | Inr str \<Rightarrow>
          (if ntohs sin_port \<noteq> 0
           then Inr (str @ snprintf 8 (CHR '':'' # dec (unat (ntohs sin_port))))
           else Inr str))"
| "sock_ntop (SaIn6 sin6_port sin6_addr _) salen =
     (case inet_ntop AF_INET6 sin6_addr 127 of
        Inl e \<Rightarrow> Inl e
      | Inr str \<Rightarrow>
          (if ntohs sin6_port \<noteq> 0
           then Inr (CHR ''['' # str @ snprintf 8 ('']:'' @ dec (unat (ntohs sin6_port))))
           else Inr str))"
| "sock_ntop (SaUn sun_path) salen =
     (if c_string sun_path = [] then Inr ''(no pathname bound)''
      else Inr (snprintf 128 (c_string sun_path)))"
| "sock_ntop (SaDl sdl_index sdl_nlen sdl_data) salen =
     (if 0 < sdl_nlen
      then Inr (snprintf 128 (pad_left sdl_nlen (c_string sdl_data) @ '' (index '' @ dec sdl_index @ '')''))
      else Inr (snprintf 128 (''AF_LINK, index='' @ dec sdl_index)))"
| "sock_ntop (SaOther family) salen =
     Inr (snprintf 128 (''sock_ntop: unknown AF_xxx: '' @ dec_int family @ '', len '' @ dec salen))"

definition Sock_ntop :: "sockaddr \<Rightarrow> nat \<Rightarrow> string io" where
  "Sock_ntop sa salen =
     (case sock_ntop sa salen of
        Inl e \<Rightarrow> seq (set_errno e) (err_sys ''sock_ntop error'')
      | Inr str \<Rightarrow> ret str)"

fun sock_ntop_host :: "sockaddr \<Rightarrow> nat \<Rightarrow> int + string" where
  "sock_ntop_host (SaIn _ sin_addr) salen = inet_ntop AF_INET sin_addr 128"
| "sock_ntop_host (SaIn6 _ sin6_addr _) salen = inet_ntop AF_INET6 sin6_addr 128"
| "sock_ntop_host (SaUn sun_path) salen =
     (if c_string sun_path = [] then Inr ''(no pathname bound)''
      else Inr (snprintf 128 (c_string sun_path)))"
| "sock_ntop_host (SaDl sdl_index sdl_nlen sdl_data) salen =
     (if 0 < sdl_nlen then Inr (snprintf 128 (pad_left sdl_nlen (c_string sdl_data)))
      else Inr (snprintf 128 (''AF_LINK, index='' @ dec sdl_index)))"
| "sock_ntop_host (SaOther family) salen =
     Inr (snprintf 128 (''sock_ntop_host: unknown AF_xxx: '' @ dec_int family @ '', len '' @ dec salen))"

definition Sock_ntop_host :: "sockaddr \<Rightarrow> nat \<Rightarrow> string io" where
  "Sock_ntop_host sa salen =
     (case sock_ntop_host sa salen of
        Inl e \<Rightarrow> seq (set_errno e) (err_sys ''sock_ntop_host error'')
      | Inr str \<Rightarrow> ret str)"

subsection \<open>Comparison\<close>

text \<open>\<open>memcmp\<close> of two buffers of one length and \<open>strcmp\<close>: the sign of the first difference.\<close>

fun memcmp :: "8 word list \<Rightarrow> 8 word list \<Rightarrow> int" where
  "memcmp (a # as) (b # bs) = (if a < b then - 1 else if b < a then 1 else memcmp as bs)"
| "memcmp _ _ = 0"

fun strcmp :: "string \<Rightarrow> string \<Rightarrow> int" where
  "strcmp [] [] = 0"
| "strcmp [] (b # bs) = - 1"
| "strcmp (a # as) [] = 1"
| "strcmp (a # as) (b # bs) =
     (if (of_char a :: nat) < of_char b then - 1
      else if (of_char b :: nat) < of_char a then 1 else strcmp as bs)"

definition sock_cmp_addr :: "sockaddr \<Rightarrow> sockaddr \<Rightarrow> int" where
  "sock_cmp_addr sa1 sa2 =
     (if sa_family sa1 \<noteq> sa_family sa2 then - 1
      else (case (sa1, sa2) of
              (SaIn _ a1, SaIn _ a2) \<Rightarrow> memcmp (take 4 a1) (take 4 a2)
            | (SaIn6 _ a1 _, SaIn6 _ a2 _) \<Rightarrow> memcmp (take 16 a1) (take 16 a2)
            | (SaUn p1, SaUn p2) \<Rightarrow> strcmp (c_string p1) (c_string p2)
            | _ \<Rightarrow> - 1))" \<comment> \<open>\<open>AF_LINK\<close>: no idea what to compare here\<close>

definition sock_cmp_port :: "sockaddr \<Rightarrow> sockaddr \<Rightarrow> int" where
  "sock_cmp_port sa1 sa2 =
     (if sa_family sa1 \<noteq> sa_family sa2 then - 1
      else (case (sa1, sa2) of
              (SaIn p1 _, SaIn p2 _) \<Rightarrow> if p1 = p2 then 1 else 0
            | (SaIn6 p1 _ _, SaIn6 p2 _ _) \<Rightarrow> if p1 = p2 then 1 else 0
            | _ \<Rightarrow> - 1))"

subsection \<open>Access to the port and the address\<close>

fun sock_get_port :: "sockaddr \<Rightarrow> int" where
  "sock_get_port (SaIn sin_port _) = int (unat sin_port)"
| "sock_get_port (SaIn6 sin6_port _ _) = int (unat sin6_port)"
| "sock_get_port _ = - 1"

fun sock_set_addr :: "sockaddr \<Rightarrow> 8 word list \<Rightarrow> sockaddr" where
  \<comment> \<open>\<open>memcpy\<close> of 4 or 16 bytes\<close>
  "sock_set_addr (SaIn p _) addr = SaIn p (take 4 addr)"
| "sock_set_addr (SaIn6 p _ s) addr = SaIn6 p (take 16 addr) s"
| "sock_set_addr sa addr = sa"

fun sock_set_port :: "sockaddr \<Rightarrow> int \<Rightarrow> sockaddr" where
  "sock_set_port (SaIn _ a) port = SaIn (of_int port) a"
| "sock_set_port (SaIn6 _ a s) port = SaIn6 (of_int port) a s"
| "sock_set_port sa port = sa"

fun sock_set_wild :: "sockaddr \<Rightarrow> sockaddr" where
  "sock_set_wild (SaIn p a) = sock_set_addr (SaIn p a) [0, 0, 0, 0]"
| "sock_set_wild (SaIn6 p a s) = sock_set_addr (SaIn6 p a s) (replicate 16 0)"
| "sock_set_wild sa = sa"

definition sockfd_to_family :: "int \<Rightarrow> int io" where
  "sockfd_to_family sockfd =
     bind (sys (SysGetsockname sockfd)) (\<lambda>r.
     ret (if r_val r < 0 then - 1 else sa_family (r_addr r)))"

definition Sockfd_to_family :: "int \<Rightarrow> int io" where
  "Sockfd_to_family sockfd =
     bind (sockfd_to_family sockfd) (unless_neg ''sockfd_to_family error'')"

definition family_to_level :: "int \<Rightarrow> int" where
  "family_to_level family =
     (if family = AF_INET then IPPROTO_IP else if family = AF_INET6 then IPPROTO_IPV6 else - 1)"

definition Family_to_level :: "int \<Rightarrow> int io" where
  "Family_to_level family = unless_neg ''family_to_level error'' (family_to_level family)"

definition sock_bind_wild :: "int \<Rightarrow> int \<Rightarrow> int io" where
  "sock_bind_wild sockfd family =
     (if family = AF_INET then
        bind (call (SysBind sockfd (SaIn (htons 0) [0, 0, 0, 0]))) (\<lambda>n.
        if n < 0 then ret (- 1)
        else bind (sys (SysGetsockname sockfd)) (\<lambda>r.
          if r_val r < 0 then ret (- 1)
          else (case r_addr r of SaIn sin_port _ \<Rightarrow> ret (int (unat sin_port)) | _ \<Rightarrow> undef)))
      else if family = AF_INET6 then
        bind (call (SysBind sockfd (SaIn6 (htons 0) (replicate 16 0) 0))) (\<lambda>n.
        if n < 0 then ret (- 1)
        else bind (sys (SysGetsockname sockfd)) (\<lambda>r.
          if r_val r < 0 then ret (- 1)
          else (case r_addr r of SaIn6 sin6_port _ _ \<Rightarrow> ret (int (unat sin6_port)) | _ \<Rightarrow> undef)))
      else ret (- 1))"

definition Sock_bind_wild :: "int \<Rightarrow> int \<Rightarrow> int io" where
  "Sock_bind_wild sockfd family =
     bind (sock_bind_wild sockfd family) (unless_neg ''sock_bind_wild error'')"

subsection \<open>Laws\<close>

definition sa_ok :: "sockaddr \<Rightarrow> bool" where
  \<comment> \<open>addresses of the length of their type\<close>
  "sa_ok sa = (case sa of SaIn _ a \<Rightarrow> length a = 4 | SaIn6 _ a _ \<Rightarrow> length a = 16 | _ \<Rightarrow> True)"

definition is_inet :: "sockaddr \<Rightarrow> bool" where
  "is_inet sa = (case sa of SaIn _ _ \<Rightarrow> True | SaIn6 _ _ _ \<Rightarrow> True | _ \<Rightarrow> False)"

definition sa_bytes :: "sockaddr \<Rightarrow> 8 word list" where
  "sa_bytes sa = (case sa of SaIn _ a \<Rightarrow> a | SaIn6 _ a _ \<Rightarrow> a | _ \<Rightarrow> [])"

lemma memcmp_0: "length a = length b \<Longrightarrow> memcmp a b = 0 \<longleftrightarrow> a = b"
  by (induction a b rule: memcmp.induct) auto

lemma strcmp_0: "strcmp a b = 0 \<longleftrightarrow> a = b"
  by (induction a b rule: strcmp.induct) (auto simp: not_less_iff_gr_or_eq)

lemma no_nul_dec [simp]: "CHR 0x00 \<notin> set (dec n)"
  using dec_isdigit [of "CHR 0x00" n] by (auto simp: isdigit_def)

lemma snprintf_id [simp]: "CHR 0x00 \<notin> set s \<Longrightarrow> length s < n \<Longrightarrow> snprintf n s = s"
  by (simp add: snprintf_def)

lemma length_dec_port: "length (dec (unat (p :: 16 word))) \<le> 5"
  using unat_word16 [of p] by (intro length_dec_5) linarith

lemma inet_ntop_v4: "15 \<le> n \<Longrightarrow> inet_ntop AF_INET a n = Inr (dotted a)"
  by (simp add: inet_ntop_def inet_ntop4_enough)

lemma inet_ntop_v6: "40 \<le> n \<Longrightarrow> inet_ntop AF_INET6 a n = Inr (text6 a)"
  using text6_length [of a] by (simp add: inet_ntop_def inet_ntop6_eq_text6 af_defs)

subsection \<open>Properties\<close>

text \<open>The presentation form of an IPv4 or IPv6 socket address is never cut by the 8 bytes
  of \<open>portstr\<close> or the 128 bytes of \<open>str\<close>: it is the address as \<open>inet_ntop\<close> prints it, followed
  by a colon and the decimal port (an IPv6 address in brackets) when the port is not 0.\<close>

theorem sock_ntop_text:
  "sock_ntop (SaIn p a) salen =
     Inr (dotted a @ (if p = 0 then [] else '':'' @ dec (unat (ntohs p)))) \<and>
   length (dotted a @ '':'' @ dec (unat (ntohs p))) < 128 \<and>
   sock_ntop (SaIn6 p b scope) salen =
     Inr (if p = 0 then text6 b else ''['' @ text6 b @ '']:'' @ dec (unat (ntohs p))) \<and>
   length (''['' @ text6 b @ '']:'' @ dec (unat (ntohs p))) < 128"
  using length_dec_port [of "ntohs p"] length_dotted [of a] text6_length [of b]
  by (simp add: inet_ntop_v4 inet_ntop_v6)

text \<open>On an IPv4 or IPv6 structure, \<open>sock_get_port\<close> reads the 16-bit port set by
  \<open>sock_set_port\<close>, setting the port keeps the address and setting the address keeps the port,
  \<open>sock_set_wild\<close> gives the same address as setting 4 or 16 zero bytes, and on any other family
  the setters change nothing.\<close>

theorem sock_set_get:
  assumes "sa_ok sa" "length addr = 16"
  shows "if is_inet sa
     then sock_get_port (sock_set_port sa port) = port mod 65536 \<and>
       sock_cmp_addr (sock_set_port sa port) sa = 0 \<and>
       sock_cmp_port (sock_set_addr sa addr) sa = 1 \<and>
       sock_cmp_addr (sock_set_wild sa) (sock_set_addr sa (replicate 16 0)) = 0 \<and>
       sa_ok (sock_set_addr sa addr)
     else sock_set_port sa port = sa \<and> sock_set_addr sa addr = sa \<and> sock_set_wild sa = sa"
proof -
  have "int (unat (of_int port :: 16 word)) = port mod 65536"
    by (simp add: unsigned_of_int take_bit_eq_mod)
  with assms show ?thesis
    by (cases sa) (auto simp: is_inet_def sock_cmp_addr_def sock_cmp_port_def sa_ok_def memcmp_0
        numeral_eq_Suc)
qed

theorem sock_set_get_witness:
  "if is_inet (SaIn 80 [127, 0, 0, 1])
   then sock_get_port (sock_set_port (SaIn 80 [127, 0, 0, 1]) 65537) = 65537 mod 65536 \<and>
     sock_cmp_addr (sock_set_port (SaIn 80 [127, 0, 0, 1]) 65537) (SaIn 80 [127, 0, 0, 1]) = 0 \<and>
     sock_cmp_port (sock_set_addr (SaIn 80 [127, 0, 0, 1]) (replicate 16 9)) (SaIn 80 [127, 0, 0, 1]) = 1 \<and>
     sock_cmp_addr (sock_set_wild (SaIn 80 [127, 0, 0, 1]))
       (sock_set_addr (SaIn 80 [127, 0, 0, 1]) (replicate 16 0)) = 0 \<and>
     sa_ok (sock_set_addr (SaIn 80 [127, 0, 0, 1]) (replicate 16 9))
   else sock_set_port (SaIn 80 [127, 0, 0, 1]) 65537 = SaIn 80 [127, 0, 0, 1] \<and>
     sock_set_addr (SaIn 80 [127, 0, 0, 1]) (replicate 16 9) = SaIn 80 [127, 0, 0, 1] \<and>
     sock_set_wild (SaIn 80 [127, 0, 0, 1]) = SaIn 80 [127, 0, 0, 1]"
  by (rule sock_set_get) (simp_all add: sa_ok_def)

text \<open>\<open>sock_cmp_addr\<close> returns 0 exactly for equal addresses of one family, but
  \<open>sock_cmp_port\<close> returns 1 for equal ports and 0 for different ones: the two functions use
  opposite conventions.\<close>

theorem sock_cmp_conventions:
  assumes "sa_ok sa1" "sa_ok sa2" "is_inet sa1" "is_inet sa2"
  shows "(sock_cmp_addr sa1 sa2 = 0 \<longleftrightarrow>
      sa_family sa1 = sa_family sa2 \<and> sa_bytes sa1 = sa_bytes sa2) \<and>
    sock_cmp_port sa1 sa2 =
      (if sa_family sa1 \<noteq> sa_family sa2 then - 1
       else if sock_get_port sa1 = sock_get_port sa2 then 1 else 0)"
  using assms
  by (cases sa1; cases sa2)
    (auto simp: is_inet_def sock_cmp_addr_def sock_cmp_port_def sa_ok_def sa_bytes_def memcmp_0
      af_defs word_uint_eq_iff)

theorem sock_cmp_conventions_witness:
  "(sock_cmp_addr (SaIn 80 [1, 2, 3, 4]) (SaIn 80 [1, 2, 3, 5]) = 0 \<longleftrightarrow>
      sa_family (SaIn 80 [1, 2, 3, 4]) = sa_family (SaIn 80 [1, 2, 3, 5]) \<and>
      sa_bytes (SaIn 80 [1, 2, 3, 4]) = sa_bytes (SaIn 80 [1, 2, 3, 5])) \<and>
    sock_cmp_port (SaIn 80 [1, 2, 3, 4]) (SaIn 80 [1, 2, 3, 5]) =
      (if sa_family (SaIn 80 [1, 2, 3, 4]) \<noteq> sa_family (SaIn 80 [1, 2, 3, 5]) then - 1
       else if sock_get_port (SaIn 80 [1, 2, 3, 4]) = sock_get_port (SaIn 80 [1, 2, 3, 5])
         then 1 else 0)"
  by (rule sock_cmp_conventions) (simp_all add: sa_ok_def is_inet_def)

text \<open>For an interface address the conversion is a minimum width, not a precision, so
  \<open>sock_ntop_host\<close> does not stop at the end of the name: the bytes of the link address that
  follow it in \<open>sdl_data\<close>, up to a NUL, are printed as part of the name.\<close>

theorem sock_ntop_host_link:
  assumes "CHR 0x00 \<notin> set (name @ link)" "length (name @ link) < 128" "name \<noteq> []"
  shows "sock_ntop_host (SaDl idx (length name) (name @ link)) salen = Inr (name @ link)"
  using assms by (simp add: pad_left_def)

theorem sock_ntop_host_link_witness:
  "sock_ntop_host (SaDl 4 (length ''en0'') (''en0'' @ ''AAAAAA'')) 20 = Inr (''en0'' @ ''AAAAAA'')"
  by (rule sock_ntop_host_link) simp_all

end
