(* ===== verification/Connect.thy ===== *)
theory Connect
  imports SockAddr
begin

text \<open>
  Connections and listening sockets: lib/tcp_connect.c, lib/tcp_listen.c, lib/udp_client.c,
  lib/udp_connect.c, lib/udp_server.c, lib/host_serv.c, lib/connect_nonb.c,
  lib/connect_timeo.c, lib/readable_timeo.c, lib/writable_timeo.c, lib/daemon_init.c,
  lib/daemon_inetd.c, lib/read_fd.c, lib/write_fd.c, and gai_strerror of libgai.

  The descriptors a process has open are computed from its trace (\<open>fds\<close>).  The locale
  \<open>address_try\<close> is the contract between the loop over the addresses of a host and what is
  tried on each socket; it is interpreted by connecting and by the two ways of binding.
  Proved here: the functions return the first usable address and leave no other descriptor
  open, whatever fails on the way.
\<close>

unbundle bit_operations_syntax

subsection \<open>libgai/gai_strerror.c\<close>

definition gai_strerror :: "int \<Rightarrow> string" where
  "gai_strerror err =
     (if err = 1 then ''address family for host not supported''
      else if err = 2 then ''temporary failure in name resolution''
      else if err = 3 then ''invalid flags value''
      else if err = 4 then ''non-recoverable failure in name resolution''
      else if err = 5 then ''address family not supported''
      else if err = 6 then ''memory allocation failure''
      else if err = 7 then ''no address associated with host''
      else if err = 8 then ''host nor service provided, or not known''
      else if err = 9 then ''service not supported for socket type''
      else if err = 10 then ''socket type not supported''
      else if err = 11 then ''system error''
      else ''unknown getaddrinfo() error'')"

definition or_null :: "string option \<Rightarrow> string" where
  \<comment> \<open>what \<open>%s\<close> prints of a pointer\<close>
  "or_null s = (case s of Some s \<Rightarrow> s | None \<Rightarrow> ''(null)'')"

definition no_hints :: addrinfo where
  \<comment> \<open>after \<open>bzero\<close>\<close>
  "no_hints = \<lparr>ai_flags = 0, ai_family = 0, ai_socktype = 0, ai_protocol = 0, ai_addr = SaOther 0,
     ai_canonname = None\<rparr>"

definition AI_PASSIVE :: int where "AI_PASSIVE = 1"
definition AI_CANONNAME :: int where "AI_CANONNAME = 2"

definition gai_quit :: "string \<Rightarrow> string option \<Rightarrow> string option \<Rightarrow> int \<Rightarrow> 'a io" where
  "gai_quit who host serv n =
     err_quit (who @ '' error for '' @ or_null host @ '', '' @ or_null serv @ '': '' @ gai_strerror n)"

subsection \<open>The loop over the addresses\<close>

text \<open>
  The \<open>do ... while\<close> loop of the five functions; \<open>continue\<close> goes to its condition.  \<open>use\<close>
  is what is tried on a socket, 0 for success.  \<open>None\<close> is \<open>res == NULL\<close> at the end.
\<close>

fun first_addr :: "(int \<Rightarrow> addrinfo \<Rightarrow> int io) \<Rightarrow> addrinfo list \<Rightarrow> (int \<times> addrinfo) option io" where
  "first_addr use [] = ret None"
| "first_addr use (res # rest) =
     bind (call (SysSocket (ai_family res) (ai_socktype res) (ai_protocol res))) (\<lambda>sockfd.
     if sockfd < 0 then first_addr use rest \<comment> \<open>ignore this one\<close>
     else bind (use sockfd res) (\<lambda>n.
       if n = 0 then ret (Some (sockfd, res)) \<comment> \<open>success\<close>
       else seq (Close sockfd) (first_addr use rest)))"

definition use_connect :: "int \<Rightarrow> addrinfo \<Rightarrow> int io" where
  "use_connect sockfd res = call (SysConnect sockfd (ai_addr res))"

definition use_bind :: "int \<Rightarrow> addrinfo \<Rightarrow> int io" where
  "use_bind sockfd res = call (SysBind sockfd (ai_addr res))"

definition use_listen :: "int \<Rightarrow> addrinfo \<Rightarrow> int io" where
  "use_listen listenfd res =
     seq (Setsockopt listenfd SOL_SOCKET SO_REUSEADDR 1)
       (call (SysBind listenfd (ai_addr res)))"

definition use_any :: "int \<Rightarrow> addrinfo \<Rightarrow> int io" where
  \<comment> \<open>\<open>udp_client\<close> stops at the first socket\<close>
  "use_any sockfd res = ret 0"

definition tcp_connect :: "string option \<Rightarrow> string option \<Rightarrow> int io" where
  "tcp_connect host serv =
     bind (sys (SysGetaddrinfo host serv
       (no_hints\<lparr>ai_family := AF_UNSPEC, ai_socktype := SOCK_STREAM\<rparr>))) (\<lambda>r.
     if r_val r \<noteq> 0 then gai_quit ''tcp_connect'' host serv (r_val r)
     else bind (first_addr use_connect (r_ais r)) (\<lambda>found.
       case found of
         None \<Rightarrow> err_sys (''tcp_connect error for '' @ or_null host @ '', '' @ or_null serv)
       | Some (sockfd, _) \<Rightarrow> seq (say (SysFree ''addrinfo'')) (ret sockfd)))"

definition Tcp_connect :: "string option \<Rightarrow> string option \<Rightarrow> int io" where
  "Tcp_connect host serv = tcp_connect host serv"

definition tcp_listen :: "string option \<Rightarrow> string option \<Rightarrow> (int \<times> nat) io" where
  \<comment> \<open>the second component is what is stored in \<open>*addrlenp\<close>\<close>
  "tcp_listen host serv =
     bind (sys (SysGetaddrinfo host serv
       (no_hints\<lparr>ai_flags := AI_PASSIVE, ai_family := AF_UNSPEC, ai_socktype := SOCK_STREAM\<rparr>))) (\<lambda>r.
     if r_val r \<noteq> 0 then gai_quit ''tcp_listen'' host serv (r_val r)
     else bind (first_addr use_listen (r_ais r)) (\<lambda>found.
       case found of
         None \<Rightarrow> err_sys (''tcp_listen error for '' @ or_null host @ '', '' @ or_null serv)
       | Some (listenfd, res) \<Rightarrow>
           seq (Listen listenfd LISTENQ)
          (seq (say (SysFree ''addrinfo'')) (ret (listenfd, sa_len (ai_addr res))))))"

definition Tcp_listen :: "string option \<Rightarrow> string option \<Rightarrow> (int \<times> nat) io" where
  "Tcp_listen host serv = tcp_listen host serv"

definition udp_client :: "string option \<Rightarrow> string option \<Rightarrow> (int \<times> sockaddr \<times> nat) io" where
  \<comment> \<open>the socket, \<open>**saptr\<close> and \<open>*lenp\<close>\<close>
  "udp_client host serv =
     bind (sys (SysGetaddrinfo host serv
       (no_hints\<lparr>ai_family := AF_UNSPEC, ai_socktype := SOCK_DGRAM\<rparr>))) (\<lambda>r.
     if r_val r \<noteq> 0 then gai_quit ''udp_client'' host serv (r_val r)
     else bind (first_addr use_any (r_ais r)) (\<lambda>found.
       case found of
         None \<Rightarrow> err_sys (''udp_client error for '' @ or_null host @ '', '' @ or_null serv)
       | Some (sockfd, res) \<Rightarrow>
           seq (Malloc (int (sa_len (ai_addr res))))
          (seq (say (SysFree ''addrinfo'')) (ret (sockfd, ai_addr res, sa_len (ai_addr res))))))"

definition Udp_client :: "string option \<Rightarrow> string option \<Rightarrow> (int \<times> sockaddr \<times> nat) io" where
  "Udp_client host serv = udp_client host serv"

definition udp_connect :: "string option \<Rightarrow> string option \<Rightarrow> int io" where
  "udp_connect host serv =
     bind (sys (SysGetaddrinfo host serv
       (no_hints\<lparr>ai_family := AF_UNSPEC, ai_socktype := SOCK_DGRAM\<rparr>))) (\<lambda>r.
     if r_val r \<noteq> 0 then gai_quit ''udp_connect'' host serv (r_val r)
     else bind (first_addr use_connect (r_ais r)) (\<lambda>found.
       case found of
         None \<Rightarrow> err_sys (''udp_connect error for '' @ or_null host @ '', '' @ or_null serv)
       | Some (sockfd, _) \<Rightarrow> seq (say (SysFree ''addrinfo'')) (ret sockfd)))"

definition Udp_connect :: "string option \<Rightarrow> string option \<Rightarrow> int io" where
  "Udp_connect host serv =
     bind (udp_connect host serv) (\<lambda>n.
     if n < 0 then gai_quit ''udp_connect'' host serv (- n) else ret n)"

definition udp_server :: "string option \<Rightarrow> string option \<Rightarrow> (int \<times> nat) io" where
  "udp_server host serv =
     bind (sys (SysGetaddrinfo host serv
       (no_hints\<lparr>ai_flags := AI_PASSIVE, ai_family := AF_UNSPEC, ai_socktype := SOCK_DGRAM\<rparr>))) (\<lambda>r.
     if r_val r \<noteq> 0 then gai_quit ''udp_server'' host serv (r_val r)
     else bind (first_addr use_bind (r_ais r)) (\<lambda>found.
       case found of
         None \<Rightarrow> err_sys (''udp_server error for '' @ or_null host @ '', '' @ or_null serv)
       | Some (sockfd, res) \<Rightarrow>
           seq (say (SysFree ''addrinfo'')) (ret (sockfd, sa_len (ai_addr res)))))"

definition Udp_server :: "string option \<Rightarrow> string option \<Rightarrow> (int \<times> nat) io" where
  "Udp_server host serv = udp_server host serv"

definition host_serv :: "string option \<Rightarrow> string option \<Rightarrow> int \<Rightarrow> int \<Rightarrow> addrinfo list option io" where
  "host_serv host serv family socktype =
     bind (sys (SysGetaddrinfo host serv (no_hints\<lparr>ai_flags := AI_CANONNAME, ai_family := family,
       ai_socktype := socktype\<rparr>))) (\<lambda>r.
     ret (if r_val r \<noteq> 0 then None else Some (r_ais r)))"

definition Host_serv :: "string option \<Rightarrow> string option \<Rightarrow> int \<Rightarrow> int \<Rightarrow> addrinfo list io" where
  "Host_serv host serv family socktype =
     bind (sys (SysGetaddrinfo host serv (no_hints\<lparr>ai_flags := AI_CANONNAME, ai_family := family,
       ai_socktype := socktype\<rparr>))) (\<lambda>r.
     if r_val r \<noteq> 0 then
       err_quit (''host_serv error for '' @
         (case host of None \<Rightarrow> ''(no hostname)'' | Some h \<Rightarrow> h) @ '', '' @
         (case serv of None \<Rightarrow> ''(no service name)'' | Some s \<Rightarrow> s) @ '': '' @ gai_strerror (r_val r))
     else ret (r_ais r))"

subsection \<open>Connecting with a time limit\<close>

definition connect_nonb :: "int \<Rightarrow> sockaddr \<Rightarrow> int \<Rightarrow> int io" where
  "connect_nonb sockfd saptr nsec =
     bind (Fcntl sockfd F_GETFL 0) (\<lambda>flags.
     bind (Fcntl sockfd F_SETFL (flags OR O_NONBLOCK)) (\<lambda>_.
     bind (call (SysConnect sockfd saptr)) (\<lambda>n.
     bind get_errno (\<lambda>e.
     if n < 0 \<and> e \<noteq> EINPROGRESS then ret (- 1)
     else bind
       (if n = 0 then ret (Some 0) \<comment> \<open>connect completed immediately\<close>
        else bind (Select (sockfd + 1) [sockfd] [sockfd] (if nsec \<noteq> 0 then Some (nsec, 0) else None)) (\<lambda>s.
          if r_val s = 0 then
            seq (call (SysClose sockfd)) \<comment> \<open>timeout\<close>
           (seq (set_errno ETIMEDOUT) (ret None))
          else if sockfd \<in> set (r_rset s) \<or> sockfd \<in> set (r_wset s) then
            bind (sys (SysGetsockopt sockfd SOL_SOCKET SO_ERROR)) (\<lambda>r.
            ret (if r_val r < 0 then None \<comment> \<open>Solaris pending error\<close> else Some (r_num r)))
          else err_quit ''select error: sockfd not set''))
       (\<lambda>error. case error of
          None \<Rightarrow> ret (- 1)
        | Some error \<Rightarrow>
            bind (Fcntl sockfd F_SETFL flags) (\<lambda>_. \<comment> \<open>done: restore file status flags\<close>
            if error \<noteq> 0 then
              seq (call (SysClose sockfd)) \<comment> \<open>just in case\<close>
             (seq (set_errno error) (ret (- 1)))
            else ret 0))))))"

definition connect_timeo :: "int \<Rightarrow> sockaddr \<Rightarrow> int \<Rightarrow> int io" where
  "connect_timeo sockfd saptr nsec =
     bind (Signal SIGALRM ''connect_alarm'') (\<lambda>sigfunc.
     bind (call (SysOther ''alarm'' [nsec] [])) (\<lambda>left.
     seq (only_if (left \<noteq> 0) (err_msg ''connect_timeo: alarm was already set''))
    (bind (call (SysConnect sockfd saptr)) (\<lambda>n.
     seq (only_if (n < 0)
           (seq (call (SysClose sockfd))
             (bind get_errno (\<lambda>e. only_if (e = EINTR) (set_errno ETIMEDOUT)))))
    (seq (call (SysOther ''alarm'' [0] [])) \<comment> \<open>turn off the alarm\<close>
    (seq (Signal SIGALRM sigfunc) \<comment> \<open>restore previous signal handler\<close>
    (ret n)))))))"

definition Connect_timeo :: "int \<Rightarrow> sockaddr \<Rightarrow> int \<Rightarrow> unit io" where
  "Connect_timeo fd sa sec =
     bind (connect_timeo fd sa sec) (\<lambda>n. if n < 0 then err_sys ''connect_timeo error'' else ret ())"

definition readable_timeo :: "int \<Rightarrow> int \<Rightarrow> int io" where
  "readable_timeo fd sec = call (SysSelect (fd + 1) [fd] [] (Some (sec, 0)))"

definition Readable_timeo :: "int \<Rightarrow> int \<Rightarrow> int io" where
  "Readable_timeo fd sec = bind (readable_timeo fd sec) (unless_neg ''readable_timeo error'')"

definition writable_timeo :: "int \<Rightarrow> int \<Rightarrow> int io" where
  "writable_timeo fd sec = call (SysSelect (fd + 1) [] [fd] (Some (sec, 0)))"

definition Writable_timeo :: "int \<Rightarrow> int \<Rightarrow> int io" where
  "Writable_timeo fd sec = bind (writable_timeo fd sec) (unless_neg ''writable_timeo error'')"

subsection \<open>Daemons\<close>

definition MAXFD :: nat where "MAXFD = 64"
definition LOG_PID :: int where "LOG_PID = 1"
definition O_RDONLY :: int where "O_RDONLY = 0"
definition O_RDWR :: int where "O_RDWR = 2"

fun close_all :: "nat \<Rightarrow> nat \<Rightarrow> unit io" where
  \<comment> \<open>\<open>for (i = 0; i < MAXFD; i++) close(i)\<close>\<close>
  "close_all i 0 = ret ()"
| "close_all i (Suc k) = seq (call (SysClose (int i))) (close_all (Suc i) k)"

definition daemon_init :: "string \<Rightarrow> int \<Rightarrow> int io" where
  "daemon_init pname facility =
     bind Fork (\<lambda>pid.
     if pid < 0 then ret (- 1)
     else if pid \<noteq> 0 then exit_with 0 \<comment> \<open>parent terminates\<close>
     else \<comment> \<open>child 1 continues\<close>
       bind (call (SysOther ''setsid'' [] [])) (\<lambda>s. \<comment> \<open>become session leader\<close>
       if s < 0 then ret (- 1)
       else seq (Signal SIGHUP ''SIG_IGN'')
         (bind Fork (\<lambda>pid.
          if pid < 0 then ret (- 1)
          else if pid \<noteq> 0 then exit_with 0 \<comment> \<open>child 1 terminates\<close>
          else \<comment> \<open>child 2 continues\<close>
            seq (set_daemon_proc 1)
           (seq (call (SysOther ''chdir'' [] [''/'']))
           (seq (close_all 0 MAXFD)
           (seq (call (SysOther ''open'' [O_RDONLY] [''/dev/null'']))
           (seq (call (SysOther ''open'' [O_RDWR] [''/dev/null'']))
           (seq (call (SysOther ''open'' [O_RDWR] [''/dev/null'']))
           (seq (say (SysOther ''openlog'' [LOG_PID, facility] [pname]))
           (ret 0)))))))))))"

definition daemon_inetd :: "string \<Rightarrow> int \<Rightarrow> unit io" where
  "daemon_inetd pname facility =
     seq (set_daemon_proc 1) (say (SysOther ''openlog'' [LOG_PID, facility] [pname]))"

subsection \<open>Passing descriptors\<close>

text \<open>
  The answer of \<open>recvmsg\<close> carries its control message in \<open>r_rset\<close>: nothing, or
  \<open>cmsg_len\<close>, \<open>cmsg_level\<close>, \<open>cmsg_type\<close> and the descriptor; \<open>CMSG_LEN(sizeof(int))\<close> is 16.
\<close>

definition SCM_RIGHTS :: int where "SCM_RIGHTS = 1"

definition read_fd :: "int \<Rightarrow> nat \<Rightarrow> (int \<times> string \<times> int option) io" where
  \<comment> \<open>the return value, the data and \<open>*recvfd\<close>, when it is set\<close>
  "read_fd fd nbytes =
     bind (sys (SysRecvmsg fd nbytes 0)) (\<lambda>r.
     if r_val r \<le> 0 then ret (r_val r, [], None)
     else (case r_rset r of
        [len, level, ty, passed] \<Rightarrow>
          if len = 16 then
            (if level \<noteq> SOL_SOCKET then err_quit ''control level != SOL_SOCKET''
             else if ty \<noteq> SCM_RIGHTS then err_quit ''control type != SCM_RIGHTS''
             else ret (r_val r, r_data r, Some passed))
          else ret (r_val r, r_data r, Some (- 1))
      | _ \<Rightarrow> ret (r_val r, r_data r, Some (- 1))))" \<comment> \<open>descriptor was not passed\<close>

definition Read_fd :: "int \<Rightarrow> nat \<Rightarrow> (int \<times> string \<times> int option) io" where
  "Read_fd fd nbytes =
     bind (read_fd fd nbytes) (\<lambda>(n, s, p).
     if n < 0 then err_sys ''read_fd error'' else ret (n, s, p))"

definition write_fd :: "int \<Rightarrow> string \<Rightarrow> int \<Rightarrow> int io" where
  "write_fd fd s sendfd =
     call (SysOther ''sendmsg'' [fd, 16, SOL_SOCKET, SCM_RIGHTS, sendfd] [s])"

definition Write_fd :: "int \<Rightarrow> string \<Rightarrow> int \<Rightarrow> int io" where
  "Write_fd fd s sendfd = bind (write_fd fd s sendfd) (unless_neg ''write_fd error'')"

subsection \<open>Open descriptors\<close>

text \<open>
  The sockets a trace has opened and not closed, as a multiset: a descriptor counts once for
  each successful \<open>socket\<close> or \<open>accept\<close>.
\<close>

definition fd_step :: "int multiset \<Rightarrow> syscall \<times> sysret \<Rightarrow> int multiset" where
  "fd_step fs e =
     (case e of
        (SysSocket _ _ _, r) \<Rightarrow> if 0 \<le> r_val r then add_mset (r_val r) fs else fs
      | (SysAccept _, r) \<Rightarrow> if 0 \<le> r_val r then add_mset (r_val r) fs else fs
      | (SysClose fd, r) \<Rightarrow> fs - {#fd#}
      | _ \<Rightarrow> fs)"

definition fds :: "(syscall \<times> sysret) list \<Rightarrow> int multiset" where
  "fds log = foldl fd_step {#} log"

lemma fds_simps [simp]:
  "fds [] = {#}" "fds (log @ new) = foldl fd_step (fds log) new"
  by (simp_all add: fds_def)

lemma fd_step_simps [simp]:
  "fd_step fs (SysSocket f t p, r) = (if 0 \<le> r_val r then add_mset (r_val r) fs else fs)"
  "fd_step fs (SysAccept fd, r) = (if 0 \<le> r_val r then add_mset (r_val r) fs else fs)"
  "fd_step fs (SysClose fd, r) = fs - {#fd#}"
  "fd_step fs (SysBind fd sa, r) = fs" "fd_step fs (SysConnect fd sa, r) = fs"
  "fd_step fs (SysListen fd b, r) = fs" "fd_step fs (SysSetsockopt fd a b c, r) = fs"
  "fd_step fs (SysGetaddrinfo h sv hi, r) = fs" "fd_step fs (SysFree x, r) = fs"
  "fd_step fs (SysOther nm is ss, r) = fs" "fd_step fs (SysPut fd s, r) = fs"
  "fd_step fs (SysRead fd n, r) = fs" "fd_step fs (SysWrite fd s, r) = fs"
  "fd_step fs (SysFcntl fd a b, r) = fs" "fd_step fs (SysSelect mx rs ws tv, r) = fs"
  "fd_step fs (SysFork, r) = fs" "fd_step fs (SysGetpeername fd, r) = fs"
  by (simp_all add: fd_step_def)

lemma fds_accept_log:
  "list_all aborted skipped \<Longrightarrow> foldl fd_step fs (accept_log fd skipped) = fs"
  by (induction skipped) (auto simp: accept_log_def aborted_def)

lemma fds_err_world [simp]: "fds (trace (err_world flag level msg w)) = fds (trace w)"
  by (simp add: err_world_def Let_def)

subsection \<open>The contract of what is tried on a socket\<close>

text \<open>The use of a socket leaves the set of open descriptors as it is.\<close>

definition keeps_fds :: "int multiset \<Rightarrow> 'a res \<Rightarrow> world \<Rightarrow> bool" where
  "keeps_fds fs r w \<longleftrightarrow> r \<noteq> Undef \<and> fds (trace w) = fs"

definition one_more :: "int multiset \<Rightarrow> world \<Rightarrow> bool" where
  \<comment> \<open>at most one descriptor more\<close>
  "one_more fs w \<longleftrightarrow> fds (trace w) = fs \<or> (\<exists>fd. 0 \<le> fd \<and> fds (trace w) = add_mset fd fs)"

lemma one_moreI [simp]: "fds (trace w) = fs \<Longrightarrow> one_more fs w"
  "fds (trace w) = add_mset fd fs \<Longrightarrow> 0 \<le> fd \<Longrightarrow> one_more fs w"
  by (auto simp: one_more_def)

definition found_fds :: "int multiset \<Rightarrow> addrinfo list \<Rightarrow> (int \<times> addrinfo) option res \<Rightarrow> world \<Rightarrow> bool" where
  "found_fds fs ais r w =
     (case r of
        Val None \<Rightarrow> fds (trace w) = fs
      | Val (Some (fd, ai)) \<Rightarrow> 0 \<le> fd \<and> fds (trace w) = add_mset fd fs \<and> ai \<in> set ais
      | Undef \<Rightarrow> False
      | _ \<Rightarrow> one_more fs w)"

lemma found_fds_simps [simp]:
  "found_fds fs ais (Val None) w \<longleftrightarrow> fds (trace w) = fs"
  "found_fds fs ais (Val (Some (fd, ai))) w \<longleftrightarrow>
     0 \<le> fd \<and> fds (trace w) = add_mset fd fs \<and> ai \<in> set ais"
  "found_fds fs ais Undef w \<longleftrightarrow> False" "found_fds fs ais Blocked w \<longleftrightarrow> one_more fs w"
  "found_fds fs ais (Exited c) w \<longleftrightarrow> one_more fs w"
  by (simp_all add: found_fds_def)

locale address_try =
  fixes use :: "int \<Rightarrow> addrinfo \<Rightarrow> int io"
  assumes use_fds: "wp (use fd ai) (keeps_fds (fds (trace w))) w"
begin

lemma wp_first_addr: "wp (first_addr use ais) (found_fds (fds (trace w)) ais) w"
proof (induction ais arbitrary: w)
  case Nil
  then show ?case by simp
next
  case (Cons ai ais)
  have mono: "found_fds fs ais r w \<Longrightarrow> found_fds fs (ai # ais) r w" for fs r w
    by (auto simp: found_fds_def split: res.splits option.splits)
  have IH: "wp (first_addr use ais) (found_fds fs (ai # ais)) w" if "fds (trace w) = fs" for fs w
    using Cons.IH [of w] that mono by (auto elim!: wp_conseq)
  show ?case
  proof (cases "script w")
    case Nil
    then show ?thesis by simp
  next
    case script: (Cons s ss)
    define w1 where "w1 = logged (SysSocket (ai_family ai) (ai_socktype ai) (ai_protocol ai)) s w"
    have w1: "fds (trace w1) = (if 0 \<le> r_val s then add_mset (r_val s) (fds (trace w)) else fds (trace w))"
      by (simp add: w1_def)
    have use: "wp (use (r_val s) ai) (on_val (\<lambda>n. wp (if n = 0 then ret (Some (r_val s, ai))
        else seq (Close (r_val s)) (first_addr use ais)) (found_fds (fds (trace w)) (ai # ais)))
        (found_fds (fds (trace w)) (ai # ais))) w1" if pos: "0 \<le> r_val s"
    proof (rule wp_conseq [OF use_fds])
      fix r :: "int res" and w2
      assume keep: "keeps_fds (fds (trace w1)) r w2"
      show "on_val (\<lambda>n. wp (if n = 0 then ret (Some (r_val s, ai))
        else seq (Close (r_val s)) (first_addr use ais)) (found_fds (fds (trace w)) (ai # ais)))
        (found_fds (fds (trace w)) (ai # ais)) r w2"
        using keep pos w1
        by (cases r) (auto simp: keeps_fds_def Close_def split: list.split intro!: IH)
    qed
    show ?thesis
      using script use w1 IH [of w1 "fds (trace w)"]
      by (auto simp: w1_def [symmetric])
  qed
qed

end

interpretation try_connect: address_try use_connect
  by unfold_locales (simp add: use_connect_def keeps_fds_def split: list.split)

interpretation try_bind: address_try use_bind
  by unfold_locales (simp add: use_bind_def keeps_fds_def split: list.split)

interpretation try_listen: address_try use_listen
  by unfold_locales (simp add: use_listen_def Setsockopt_def keeps_fds_def split: list.split)

interpretation try_any: address_try use_any
  by unfold_locales (simp add: use_any_def keeps_fds_def)

text \<open>
  What a function that returns a socket leaves: that socket and nothing else.  When it ends the
  process, or waits in a system call, there is at most one socket more than before.
\<close>

definition one_fd :: "('a \<Rightarrow> int) \<Rightarrow> int multiset \<Rightarrow> 'a res \<Rightarrow> world \<Rightarrow> bool" where
  "one_fd sock fs r w =
     (case r of
        Val a \<Rightarrow> 0 \<le> sock a \<and> fds (trace w) = add_mset (sock a) fs
      | Undef \<Rightarrow> False
      | _ \<Rightarrow> one_more fs w)"

lemma one_fd_simps [simp]:
  "one_fd sock fs (Val a) w \<longleftrightarrow> 0 \<le> sock a \<and> fds (trace w) = add_mset (sock a) fs"
  "one_fd sock fs Undef w \<longleftrightarrow> False" "one_fd sock fs (Exited c) w \<longleftrightarrow> one_more fs w"
  "one_fd sock fs Blocked w \<longleftrightarrow> one_more fs w"
  by (simp_all add: one_fd_def)


lemma wp_use_found:
  assumes "address_try use" "\<And>fd ai w. ai \<in> set ais \<Longrightarrow> 0 \<le> fd \<Longrightarrow> fds (trace w) = add_mset fd fs \<Longrightarrow>
      wp (k (Some (fd, ai))) (one_fd sock fs) w"
    and "\<And>w. fds (trace w) = fs \<Longrightarrow> wp (k None) (one_fd sock fs) w" "fds (trace w) = fs"
  shows "wp (first_addr use ais) (on_val (\<lambda>a. wp (k a) (one_fd sock fs)) (one_fd sock fs)) w"
proof (rule wp_conseq [OF address_try.wp_first_addr [OF assms(1)]])
  fix r w'
  assume "found_fds (fds (trace w)) ais r w'"
  then show "on_val (\<lambda>a. wp (k a) (one_fd sock fs)) (one_fd sock fs) r w'"
    using assms(2-4) by (cases r) (auto simp: found_fds_def split: option.splits)
qed

lemma wp_tcp_connect: "wp (tcp_connect host serv) (one_fd id (fds (trace w))) w"
  unfolding tcp_connect_def gai_quit_def
  by (auto split: list.split intro!: wp_use_found try_connect.address_try_axioms)

lemma wp_udp_connect: "wp (udp_connect host serv) (one_fd id (fds (trace w))) w"
  unfolding udp_connect_def gai_quit_def
  by (auto split: list.split intro!: wp_use_found try_connect.address_try_axioms)

lemma wp_udp_server: "wp (udp_server host serv) (one_fd fst (fds (trace w))) w"
  unfolding udp_server_def gai_quit_def
  by (auto split: list.split intro!: wp_use_found try_bind.address_try_axioms)

lemma wp_udp_client: "wp (udp_client host serv) (one_fd fst (fds (trace w))) w"
  unfolding udp_client_def gai_quit_def
  by (auto simp: Malloc_def split: list.split intro!: wp_use_found try_any.address_try_axioms)

lemma wp_tcp_listen: "wp (tcp_listen host serv) (one_fd fst (fds (trace w))) w"
  unfolding tcp_listen_def gai_quit_def
  by (auto simp: Listen_def Let_def split: list.split intro!: wp_use_found try_listen.address_try_axioms)

text \<open>
  A scripted kernel: for every address the answers to \<open>socket\<close>, \<open>connect\<close> and, after a
  failure, \<open>close\<close>.
\<close>

definition failed_try :: "sysret list \<Rightarrow> bool" where
  "failed_try rs \<longleftrightarrow> (\<exists>e. rs = [fail e]) \<or> (\<exists>fd e. 0 \<le> fd \<and> rs = [ok fd, fail e, ok 0])"

lemma ok_fail_simps [simp]:
  "r_val (ok v) = v" "r_val (fail e) = - 1" "r_err (fail e) = e" "r_ais (ok v) = []"
  by (simp_all add: ok_def fail_def)

lemma ok_inj [simp]: "ok a = ok b \<longleftrightarrow> a = b" and fail_inj [simp]: "fail a = fail b \<longleftrightarrow> a = b"
  by (auto simp: ok_def fail_def)

lemma wp_use_connect [simp]:
  "wp (use_connect fd ai) Q = wp (call (SysConnect fd (ai_addr ai))) Q"
  by (simp add: use_connect_def)

lemma first_addr_connects:
  assumes "length tries = length pre" "list_all failed_try tries" "0 \<le> fd"
    "script w = concat tries @ [ok fd, ok 0] @ rest"
  shows "wp (first_addr use_connect (pre @ ai # post))
    (\<lambda>r w'. r = Val (Some (fd, ai)) \<and> script w' = rest \<and>
      (\<exists>log. trace w' = log @ [(SysConnect fd (ai_addr ai), ok 0)])) w"
  using assms
proof (induction pre arbitrary: tries w)
  case Nil
  then show ?case by simp
next
  case (Cons a pre)
  from Cons.prems obtain t ts where t: "tries = t # ts" "length ts = length pre" "failed_try t"
    "list_all failed_try ts" by (cases tries) auto
  have IH: "script w' = concat ts @ [ok fd, ok 0] @ rest \<Longrightarrow> wp (first_addr use_connect (pre @ ai # post))
    (\<lambda>r w'. r = Val (Some (fd, ai)) \<and> script w' = rest \<and>
      (\<exists>log. trace w' = log @ [(SysConnect fd (ai_addr ai), ok 0)])) w'" for w'
    using t Cons.prems(3) by (intro Cons.IH) auto
  from t(3) consider e where "t = [fail e]" | fd' e where "0 \<le> fd'" "t = [ok fd', fail e, ok 0]"
    by (auto simp: failed_try_def)
  then show ?case
  proof cases
    case 1
    with Cons.prems(4) t show ?thesis by (auto intro: IH)
  next
    case 2
    with Cons.prems(4) t show ?thesis by (auto simp: Close_def intro!: IH)
  qed
qed

subsection \<open>Properties\<close>

text \<open>C14: \<open>tcp_connect\<close>, \<open>udp_connect\<close>, \<open>tcp_listen\<close>, \<open>udp_server\<close> and \<open>udp_client\<close> leave
  exactly one descriptor more open than before, the one they return, whichever of \<open>socket\<close>,
  \<open>connect\<close> and \<open>bind\<close> fail for whichever addresses; they return no negative descriptor.  At no
  point is more than one socket open: when they end the process (no address works, or
  \<open>setsockopt\<close>, \<open>listen\<close>, \<open>close\<close> or \<open>malloc\<close> fails) or wait in a system call, at most one
  descriptor more is open than before.\<close>

theorem one_descriptor:
  "wp (tcp_connect host serv) (one_fd id (fds (trace w))) w \<and>
   wp (udp_connect host serv) (one_fd id (fds (trace w))) w \<and>
   wp (tcp_listen host serv) (one_fd fst (fds (trace w))) w \<and>
   wp (udp_server host serv) (one_fd fst (fds (trace w))) w \<and>
   wp (udp_client host serv) (one_fd fst (fds (trace w))) w"
  by (intro conjI wp_tcp_connect wp_udp_connect wp_tcp_listen wp_udp_server wp_udp_client)

text \<open>\<open>tcp_connect\<close> returns the socket connected to the first address that works: when
  \<open>socket\<close> or \<open>connect\<close> fails for the addresses of \<open>pre\<close> and both succeed for \<open>ai\<close>, it
  returns that socket after trying nothing of the rest.\<close>

theorem tcp_connect_first:
  assumes "length tries = length pre" "list_all failed_try tries" "0 \<le> fd"
    "script w = (ok 0)\<lparr>r_ais := pre @ ai # post\<rparr> # concat tries @ [ok fd, ok 0] @ rest"
  shows "wp (tcp_connect host serv) (\<lambda>r w'. r = Val fd \<and> script w' = rest \<and>
    (\<exists>log. trace w' = log @ [(SysConnect fd (ai_addr ai), ok 0), (SysFree ''addrinfo'', ok 0)])) w"
proof -
  define w1 where "w1 = logged (SysGetaddrinfo host serv
    (no_hints\<lparr>ai_family := AF_UNSPEC, ai_socktype := SOCK_STREAM\<rparr>)) ((ok 0)\<lparr>r_ais := pre @ ai # post\<rparr>) w"
  have "script w1 = concat tries @ [ok fd, ok 0] @ rest" using assms(4) by (simp add: w1_def)
  note first = first_addr_connects [OF assms(1-3) this, of ai post]
  show ?thesis
    using assms(4) unfolding tcp_connect_def
    by (simp add: w1_def [symmetric]) (rule wp_conseq [OF first], auto)
qed

definition ai4 :: "nat \<Rightarrow> addrinfo" where
  "ai4 k = no_hints\<lparr>ai_family := AF_INET, ai_addr := SaIn 7 [127, 0, 0, of_nat k]\<rparr>"

theorem tcp_connect_first_witness:
  "wp (tcp_connect (Some ''h'') (Some ''echo'')) (\<lambda>r w'. r = Val 4 \<and> script w' = [] \<and>
    (\<exists>log. trace w' = log @ [(SysConnect 4 (ai_addr (ai4 3)), ok 0), (SysFree ''addrinfo'', ok 0)]))
   (start [(ok 0)\<lparr>r_ais := [ai4 1, ai4 2] @ ai4 3 # [ai4 4]\<rparr>, fail EPROTO, ok 3, fail ETIMEDOUT, ok 0,
     ok 4, ok 0])"
  by (rule tcp_connect_first [where tries = "[[fail EPROTO], [ok 3, fail ETIMEDOUT, ok 0]]"
        and pre = "[ai4 1, ai4 2]" and post = "[ai4 4]" and rest = "[]"])
    (simp_all add: failed_try_def start_def)

definition nonb_post :: "int \<Rightarrow> (syscall \<times> sysret) list \<Rightarrow> int res \<Rightarrow> world \<Rightarrow> bool" where
  "nonb_post fd log r w =
     (case r of
        Val v \<Rightarrow> (v = 0 \<or> v = - 1) \<and>
          (v = 0 \<longrightarrow> (\<exists>f mid s. trace w = log @ (SysFcntl fd F_GETFL 0, f) # mid @
             [(SysFcntl fd F_SETFL (r_val f), s)] \<and>
             (\<forall>opt r. (SysGetsockopt fd SOL_SOCKET opt, r) \<in> set mid \<longrightarrow> r_num r = 0))) \<and>
          (\<forall>s n ws rs t. (SysSelect n rs ws t, s) \<in> set (drop (length log) (trace w)) \<and> r_val s = 0 \<longrightarrow>
             v = - 1 \<and> errno w = ETIMEDOUT \<and> (\<exists>c. last (trace w) = (SysClose fd, c)))
      | Undef \<Rightarrow> False
      | _ \<Rightarrow> True)"

lemma nonb_simps [simp]: "nonb_post fd log (Exited c) w \<longleftrightarrow> True" "nonb_post fd log Blocked w \<longleftrightarrow> True"
  by (simp_all add: nonb_post_def)

text \<open>When \<open>connect_nonb\<close> returns 0 the descriptor's file status flags are those read at
  the start and no connection error is pending; it returns 0 or -1 only, and after a timeout
  \<open>errno\<close> is \<open>ETIMEDOUT\<close> and the descriptor is closed.\<close>

theorem connect_nonb_result: "wp (connect_nonb fd sa nsec) (nonb_post fd (trace w)) w"
  unfolding connect_nonb_def Fcntl_def Select_def
  by (auto simp: nonb_post_def split: list.split)

end
