(* ===== verification/ChatServer.thy ===== *)
theory ChatServer
  imports Connect
begin

text \<open>
  The chat server of Lab3/chatserver.c: the tables of chatters, the handlers
  (\<open>addChatter\<close>, \<open>processChat\<close>, \<open>remove_chatter\<close>) and the \<open>select\<close> loop.

  The global arrays are lists of \<open>MAX_CHATS\<close> elements; an access outside them, a \<open>strcpy\<close>
  into a name longer than it holds, an overrun of a buffer, and \<open>FD_SET\<close> or \<open>FD_ISSET\<close> of a
  descriptor that is negative or not below \<open>FD_SETSIZE\<close> are \<open>undef\<close>.  Proved here: the handlers
  keep the tables well formed, removing a chatter is removal from the list of chatters, a
  message goes to every chatter but its sender, a 41st chatter writes past the end of the
  tables, and the server reaches undefined behaviour in no other way than by such a chatter,
  by a line of more than 46 bytes or by a descriptor too large for an \<open>fd_set\<close>.

  Two simplifications.  \<open>SIGPIPE\<close> is not modelled: a \<open>write\<close> to a chatter that has gone fails
  or succeeds, while the default action of the signal would end the server.  When
  \<open>getpeername\<close> fails in \<open>remove_chatter\<close>, the address printed is indeterminate in C; the model
  prints the one in the kernel's answer, which is arbitrary then.
\<close>

definition NAME_SIZE :: nat where "NAME_SIZE = 40"
definition MAX_CHATS :: nat where "MAX_CHATS = 40"
definition BUFF_SIZE :: nat where "BUFF_SIZE = 100000"
definition CHAT_FULL :: string where "CHAT_FULL = ''Max chats achieved, NO SEAT available :-(''"
definition WELCOME_MSG :: string where
  "WELCOME_MSG = ''Welcome to chatter: Enter your name with a command like: -name=Haibo'' @ [newline]"
definition CHANGE_NAME :: string where "CHANGE_NAME = ''-name=''"

record chat =
  fd_chats :: "int list"
  name_chats :: "string list"
  numChats :: nat

definition fits_set :: "int \<Rightarrow> bool" where
  \<comment> \<open>a descriptor for which \<open>FD_SET\<close> and \<open>FD_ISSET\<close> stay in the \<open>fd_set\<close>\<close>
  "fits_set fd \<longleftrightarrow> 0 \<le> fd \<and> fd < int FD_SETSIZE"

definition chat_init :: chat where
  "chat_init = \<lparr>fd_chats = replicate MAX_CHATS 0, name_chats = replicate MAX_CHATS [], numChats = 0\<rparr>"

definition sin_of :: "sockaddr \<Rightarrow> 16 word \<times> 8 word list" where
  \<comment> \<open>\<open>sin_port\<close> and \<open>sin_addr\<close> of the contents of a \<open>sockaddr_in\<close>\<close>
  "sin_of sa = (case sa of SaIn p a \<Rightarrow> (p, a) | _ \<Rightarrow> (0, [0, 0, 0, 0]))"

subsection \<open>The listening socket\<close>

definition enable_reuse_address :: "int \<Rightarrow> int io" where
  "enable_reuse_address sock_fd =
     bind (call (SysSetsockopt sock_fd SOL_SOCKET SO_REUSEADDR 1)) (\<lambda>n.
     if n < 0 then seq (perror ''SERVER ERROR setsockopt()'') (ret (- 1)) else ret 0)"

definition tcp_easy_listen :: "string \<Rightarrow> string \<Rightarrow> int \<Rightarrow> int io" where
  "tcp_easy_listen interface service listen_queue =
     bind (call (SysSocket AF_INET SOCK_STREAM 0)) (\<lambda>listen_fd.
     if listen_fd < 0 then seq (perror ''server: socket()'') (ret (- 1))
     else (case inet_pton AF_INET interface of
        Inr (Some addr) \<Rightarrow>
          (let port = htons (ucast (strtoul10 service)) in
           if port = 0 then seq (perror ''server: htons()'') (ret (- 1))
           else bind (enable_reuse_address listen_fd) (\<lambda>n.
             if n < 0 then seq (perror ''server: enable_reuse_address()'') (ret (- 1))
             else bind (call (SysBind listen_fd (SaIn port addr))) (\<lambda>n.
               if n < 0 then seq (perror ''server: bind()'') (ret (- 1))
               else bind (call (SysListen listen_fd listen_queue)) (\<lambda>n.
                 if n < 0 then seq (perror ''server: listen()'') (ret (- 1))
                 else seq (case inet_ntop AF_INET addr 16 of
                      Inr ip_str \<Rightarrow>
                        seq (printf (''ChatServer '' @ ip_str @ '' is ready to accept chatters via port '' @
                               dec (unat (ntohs port)) @ ''.'' @ [newline]))
                          (printf (''..................'' @ [newline]))
                    | Inl e \<Rightarrow> set_errno e)
                   (ret listen_fd)))))
      | _ \<Rightarrow> seq (perror ''server: inet_pton()'') (ret (- 1))))"

subsection \<open>The handlers\<close>

fun prints :: "(int \<times> string) list \<Rightarrow> unit io" where
  \<comment> \<open>a \<open>write\<close> to each descriptor, with a message when it fails\<close>
  "prints [] = ret ()"
| "prints ((fd, s) # rest) =
     bind (call (SysWrite fd s)) (\<lambda>n.
     seq (only_if (n < 0) (perror ''SERVER ERROR write()'')) (prints rest))"

definition others :: "nat \<Rightarrow> chat \<Rightarrow> int list" where
  \<comment> \<open>the descriptors of the loop \<open>for (i = 0; i < numChats; i++) if (i == instance) continue\<close>\<close>
  "others instance st =
     map (\<lambda>i. fd_chats st ! i) (filter (\<lambda>i. i \<noteq> instance) [0..<numChats st])"

definition processChat :: "nat \<Rightarrow> string \<Rightarrow> chat \<Rightarrow> chat io" where
  \<comment> \<open>\<open>buffer\<close> is the text before the first NUL\<close>
  "processChat instance buffer st =
     seq (guard (instance < MAX_CHATS))
    (let len = length CHANGE_NAME in
     if take len buffer = CHANGE_NAME then
       (let name = drop len buffer;
            outbuff = ''Your name has been changed to: '' @ name @ [newline]
        in seq (guard (length name \<le> NAME_SIZE)) \<comment> \<open>\<open>strcpy\<close>\<close>
          (seq (guard (length outbuff < BUFF_SIZE))
          (seq (prints [(fd_chats st ! instance, outbuff)])
          (ret (st\<lparr>name_chats := (name_chats st)[instance := name]\<rparr>)))))
     else
       (let outbuff = name_chats st ! instance @ '':'' @ [newline] @ buffer @ [newline]
        in seq (guard (length outbuff < BUFF_SIZE))
          (seq (guard (numChats st \<le> MAX_CHATS))
          (seq (prints (map (\<lambda>fd. (fd, outbuff)) (others instance st)))
          (ret st)))))"

definition welcome_text :: "chat \<Rightarrow> string" where
  "welcome_text st =
     WELCOME_MSG @
     (if numChats st = 0 then ''You are the first chatter!'' @ [newline]
      else '' Current Chatters: '' @
        concat (map (\<lambda>i. name_chats st ! i @ '' '') [0..<numChats st])) @
     [newline]"

definition default_name :: "nat \<Rightarrow> string" where
  "default_name n = ''unknown:'' @ dec n"

definition addChatter :: "int \<Rightarrow> chat \<Rightarrow> chat io" where
  "addChatter newConnect st =
     seq (guard (numChats st < MAX_CHATS)) \<comment> \<open>\<open>name_chats[numChats]\<close>\<close>
    (let st = st\<lparr>name_chats := (name_chats st)[numChats st := default_name (numChats st)]\<rparr>;
         buffer = welcome_text st
     in seq (guard (length buffer < BUFF_SIZE))
       (seq (prints [(newConnect, buffer)])
       (ret (st\<lparr>fd_chats := (fd_chats st)[numChats st := newConnect],
                numChats := numChats st + 1\<rparr>))))"

definition compress :: "nat \<Rightarrow> chat \<Rightarrow> chat" where
  \<comment> \<open>the loop \<open>for (k = fd_toRemove; k < numChats - 1; k++)\<close>\<close>
  "compress i st =
     fold (\<lambda>k st. st\<lparr>fd_chats := (fd_chats st)[k := fd_chats st ! Suc k],
                     name_chats := (name_chats st)[k := name_chats st ! Suc k]\<rparr>)
       [i..<numChats st - 1] st"

definition remove_chatter :: "nat \<Rightarrow> chat \<Rightarrow> chat io" where
  "remove_chatter i st =
     seq (guard (i < numChats st \<and> numChats st \<le> MAX_CHATS))
    (let fd_save = fd_chats st ! i;
         st = compress i st;
         st = st\<lparr>numChats := numChats st - 1\<rparr>
     in bind (sys (SysGetpeername fd_save)) (\<lambda>r.
        let (port, addr) = sin_of (r_addr r) in
        seq (only_if (r_val r < 0) (perror ''SERVER ERROR getpeername()''))
       (seq (printf (''Chatter '' @ dotted addr @ ''/'' @ dec (unat (ntohs port)) @
               '' leaves the chat'' @ [newline]))
       (bind (call (SysClose fd_save)) (\<lambda>_. ret st)))))"

subsection \<open>The loop\<close>

definition accept_chatter :: "int \<Rightarrow> chat \<Rightarrow> chat io" where
  "accept_chatter fd_listen st =
     bind (Accept fd_listen) (\<lambda>a.
     let newConnect = r_val a in
     bind (sys (SysGetpeername newConnect)) (\<lambda>r.
     seq (only_if (r_val r < 0) (perror ''SERVER ERROR getpeername()''))
    (let (port, addr) = sin_of (if r_val r < 0 then r_addr a else r_addr r) in
     seq (printf (''Chatter '' @ dotted addr @ '' connected to the server via port '' @
            dec (unat (ntohs port)) @ [newline]))
    (if MAX_CHATS < numChats st then
       seq (prints [(newConnect, CHAT_FULL @ [CHR 0x00])])
         (bind (call (SysClose newConnect)) (\<lambda>_. ret st))
     else addChatter newConnect st))))"

text \<open>
  The scan \<open>for (i = 0; i < numChats; i++)\<close> over the ready chatters.  \<open>numChats - i\<close> gets
  smaller in every iteration, so \<open>numChats\<close> at the start is enough fuel; running out of it
  would be \<open>undef\<close>, which is proved not to happen.
\<close>

fun serve_chatters :: "int list \<Rightarrow> nat \<Rightarrow> nat \<Rightarrow> chat \<Rightarrow> chat io" where
  "serve_chatters ready 0 i st = (if i < numChats st then undef \<comment> \<open>no fuel: never happens\<close> else ret st)"
| "serve_chatters ready (Suc k) i st =
     (if i < numChats st then
        seq (guard (i < MAX_CHATS \<and> fits_set (fd_chats st ! i))) \<comment> \<open>\<open>FD_ISSET\<close>\<close>
       (let fd = fd_chats st ! i in
        if fd \<in> set ready then
          bind (sys (SysRead fd BUFF_SIZE)) (\<lambda>r.
          bind (if 0 < r_val r then
                  processChat i (c_string (butlast (r_data r))) st \<comment> \<open>\<open>buffer[nread-1]=0\<close>\<close>
                else
                  seq (printf (''Time to close out chat file descriptor: '' @ dec_int fd @ [newline]))
                    (remove_chatter i st))
            (serve_chatters ready k (Suc i)))
        else serve_chatters ready k (Suc i) st)
      else ret st)"

definition chat_round :: "int \<Rightarrow> chat \<Rightarrow> (chat + unit) io" where
  "chat_round fd_listen st =
     seq (guard (numChats st \<le> MAX_CHATS)) \<comment> \<open>\<open>fd_chats[i]\<close>\<close>
    (let chatters = take (numChats st) (fd_chats st);
         maxfd = fold max chatters fd_listen
     in seq (guard (list_all fits_set (fd_listen # chatters))) \<comment> \<open>\<open>FD_SET\<close>\<close>
       (bind (Select (maxfd + 1) (fd_listen # chatters) [] None) (\<lambda>s.
        bind (if fd_listen \<in> set (r_rset s) then accept_chatter fd_listen st else ret st) (\<lambda>st.
        bind (serve_chatters (r_rset s) (numChats st) 0 st) again))))"

definition chatLoop :: "int \<Rightarrow> unit io" where
  "chatLoop fd_listen = loop (chat_round fd_listen) chat_init"

definition chat_main :: "string list \<Rightarrow> int io" where
  \<comment> \<open>\<open>main\<close> of Lab3/chatserver.c on \<open>argv\<close>\<close>
  "chat_main argv =
     (if length argv \<noteq> 3 then
        seq (printf (''usage:'' @ argv ! 0 @ '' [IP] [PORT] '' @ [newline])) (ret (- 1))
      else bind (tcp_easy_listen (argv ! 1) (argv ! 2) 100) (\<lambda>sock_fd.
        seq (chatLoop sock_fd) (ret 0)))"

subsection \<open>The list of chatters\<close>

text \<open>The abstract state: the chatters in the order in which they came.\<close>

definition chatters :: "chat \<Rightarrow> (int \<times> string) list" where
  "chatters st = zip (take (numChats st) (fd_chats st)) (take (numChats st) (name_chats st))"

definition chat_ok :: "chat \<Rightarrow> bool" where
  "chat_ok st \<longleftrightarrow> length (fd_chats st) = MAX_CHATS \<and> length (name_chats st) = MAX_CHATS \<and>
     numChats st \<le> MAX_CHATS \<and> (\<forall>s \<in> set (take (numChats st) (name_chats st)). length s \<le> NAME_SIZE)"

lemma length_chatters: "chat_ok st \<Longrightarrow> length (chatters st) = numChats st"
  by (simp add: chat_ok_def chatters_def)

lemma chat_init_ok: "chat_ok chat_init" "chatters chat_init = []"
  by (simp_all add: chat_ok_def chat_init_def chatters_def)

definition shift_down :: "nat \<Rightarrow> nat \<Rightarrow> 'a list \<Rightarrow> 'a list" where
  "shift_down i m xs = fold (\<lambda>k xs. xs[k := xs ! Suc k]) [i..<m] xs"

lemma shift_down_eq:
  "i \<le> m \<Longrightarrow> m < length xs \<Longrightarrow> shift_down i m xs = take i xs @ take (m - i) (drop (Suc i) xs) @ drop m xs"
proof (induction m)
  case (Suc m)
  show ?case
  proof (cases "i = Suc m")
    case True
    then show ?thesis by (simp add: shift_down_def)
  next
    case False
    then have i: "i \<le> m" using Suc.prems by simp
    define n where "n = m - i"
    have n: "m = i + n" "n < length (drop (Suc i) xs)" using i Suc.prems by (simp_all add: n_def)
    have "shift_down i (Suc m) xs =
        (shift_down i m xs)[m := shift_down i m xs ! Suc m]"
      using i by (simp add: shift_down_def)
    also have "shift_down i m xs = (take i xs @ take n (drop (Suc i) xs)) @ xs ! m # drop (Suc m) xs"
      using Suc i by (simp add: n_def Cons_nth_drop_Suc)
    finally have "shift_down i (Suc m) xs = (take i xs @ take n (drop (Suc i) xs)) @
        xs ! Suc m # drop (Suc m) xs"
      using n Suc.prems by (simp add: list_update_append nth_append min_def)
    moreover have "take (Suc n) (drop (Suc i) xs) = take n (drop (Suc i) xs) @ [xs ! Suc m]"
      using n(2) take_Suc_conv_app_nth [OF n(2)] n(1) by simp
    ultimately show ?thesis using i by (simp add: n_def Suc_diff_le)
  qed
qed (simp add: shift_down_def)

lemma compress_eq:
  "compress i st = st\<lparr>fd_chats := shift_down i (numChats st - 1) (fd_chats st),
     name_chats := shift_down i (numChats st - 1) (name_chats st)\<rparr>"
proof -
  have "fold (\<lambda>k st. st\<lparr>fd_chats := (fd_chats st)[k := fd_chats st ! Suc k],
        name_chats := (name_chats st)[k := name_chats st ! Suc k]\<rparr>) ks st =
      st\<lparr>fd_chats := fold (\<lambda>k xs. xs[k := xs ! Suc k]) ks (fd_chats st),
         name_chats := fold (\<lambda>k xs. xs[k := xs ! Suc k]) ks (name_chats st)\<rparr>" for ks
    by (induction ks arbitrary: st) simp_all
  then show ?thesis by (simp add: compress_def shift_down_def)
qed

lemma take_shift_down:
  "i < n \<Longrightarrow> n \<le> length xs \<Longrightarrow>
   take (n - 1) (shift_down i (n - 1) xs) = take i (take n xs) @ drop (Suc i) (take n xs)"
proof -
  assume n: "i < n" "n \<le> length xs"
  let ?A = "take i xs @ take (n - 1 - i) (drop (Suc i) xs)"
  have "length ?A = n - 1" using n by auto
  moreover have "shift_down i (n - 1) xs = ?A @ drop (n - 1) xs"
    using n by (subst shift_down_eq) auto
  ultimately have "take (n - 1) (shift_down i (n - 1) xs) = ?A" by (metis append_eq_conv_conj)
  then show ?thesis using n by (simp add: drop_take min_def)
qed

text \<open>The tables after a removal represent the list without the chatter.\<close>

definition removed :: "nat \<Rightarrow> chat \<Rightarrow> chat" where
  "removed i st = (compress i st)\<lparr>numChats := numChats (compress i st) - 1\<rparr>"

lemma removed_simps [simp]:
  "numChats (removed i st) = numChats st - 1"
  "fd_chats (removed i st) = shift_down i (numChats st - 1) (fd_chats st)"
  "name_chats (removed i st) = shift_down i (numChats st - 1) (name_chats st)"
  by (simp_all add: removed_def compress_eq)

lemma length_shift_down [simp]: "length (shift_down i m xs) = length xs"
proof -
  have "length (fold (\<lambda>k xs. xs[k := xs ! Suc k]) ks xs) = length xs" for ks
    by (induction ks arbitrary: xs) simp_all
  then show ?thesis by (simp add: shift_down_def)
qed

lemma chatters_removed:
  assumes "chat_ok st" "i < numChats st"
  shows "chatters (removed i st) = take i (chatters st) @ drop (Suc i) (chatters st)"
proof -
  have "numChats st \<le> length (fd_chats st)" "numChats st \<le> length (name_chats st)"
    using assms(1) by (simp_all add: chat_ok_def)
  then show ?thesis
    using assms(2) unfolding chatters_def removed_simps
    by (simp only: take_shift_down take_zip drop_zip)
      (subst zip_append, auto)
qed

lemma chat_ok_removed: "chat_ok st \<Longrightarrow> i < numChats st \<Longrightarrow> chat_ok (removed i st)"
proof -
  assume *: "chat_ok st" "i < numChats st"
  then have "take (numChats st - 1) (shift_down i (numChats st - 1) (name_chats st)) =
      take i (take (numChats st) (name_chats st)) @ drop (Suc i) (take (numChats st) (name_chats st))"
    by (intro take_shift_down) (simp_all add: chat_ok_def)
  moreover have "set (take i ys @ drop (Suc i) ys) \<subseteq> set ys" for ys :: "string list"
    by (auto dest: in_set_takeD in_set_dropD)
  ultimately have "set (take (numChats st - 1) (shift_down i (numChats st - 1) (name_chats st))) \<subseteq>
      set (take (numChats st) (name_chats st))"
    by metis
  with * show ?thesis by (auto simp: chat_ok_def)
qed

subsection \<open>What the handlers do\<close>

definition writes :: "(syscall \<times> sysret) list \<Rightarrow> (int \<times> string) list" where
  \<comment> \<open>what a trace has passed to \<open>write\<close>\<close>
  "writes log = concat (map (\<lambda>e. case e of (SysWrite fd s, _) \<Rightarrow> [(fd, s)] | _ \<Rightarrow> []) log)"

lemma writes_simps [simp]:
  "writes [] = []" "writes (a @ b) = writes a @ writes b"
  "writes ((SysWrite fd s, r) # es) = (fd, s) # writes es"
  "writes ((SysPut fd s, r) # es) = writes es"
  "writes ((SysGetpeername fd, r) # es) = writes es" "writes ((SysClose fd, r) # es) = writes es"
  "writes ((SysAccept fd, r) # es) = writes es" "writes ((SysRead fd n, r) # es) = writes es"
  by (simp_all add: writes_def)

definition prints_post :: "(int \<times> string) list \<Rightarrow> (int \<times> string) list \<Rightarrow> unit res \<Rightarrow> world \<Rightarrow> bool" where
  "prints_post old ms r w =
     (case r of Val _ \<Rightarrow> writes (trace w) = old @ ms
      | Blocked \<Rightarrow> prefix (writes (trace w)) (old @ ms) | _ \<Rightarrow> False)"

lemma wp_prints: "wp (prints ms) (prints_post (writes (trace w)) ms) w"
proof (induction ms arbitrary: w)
  case Nil
  then show ?case by (simp add: prints_post_def)
next
  case (Cons m ms)
  obtain fd s where m: "m = (fd, s)" by (cases m)
  have IH: "wp (prints ms) (prints_post old (m # ms)) w'" if "writes (trace w') = old @ [m]" for old w'
    using Cons.IH [of w'] that
    by (auto elim!: wp_conseq simp: prints_post_def split: res.splits)
  show ?case
    by (auto simp: m prints_post_def [of _ _ Blocked] intro!: IH [unfolded m] split: list.split)
qed

declare prints.simps [simp del]

lemma prints_fold: "wp (prints ms) Q w"
  if "\<And>w'. writes (trace w') = writes (trace w) @ ms \<Longrightarrow> Q (Val ()) w'" "\<And>w'. Q Blocked w'"
  by (rule wp_conseq [OF wp_prints]) (use that in \<open>auto simp: prints_post_def split: res.splits\<close>)

text \<open>The results of the handlers, as changes of the list of chatters.\<close>

definition chat_post :: "(chat \<Rightarrow> world \<Rightarrow> bool) \<Rightarrow> chat res \<Rightarrow> world \<Rightarrow> bool" where
  "chat_post P r w = (case r of Val st \<Rightarrow> chat_ok st \<and> P st w | Blocked \<Rightarrow> True | _ \<Rightarrow> False)"

lemma chat_post_simps [simp]:
  "chat_post P (Val st) w \<longleftrightarrow> chat_ok st \<and> P st w" "chat_post P Blocked w \<longleftrightarrow> True"
  "chat_post P Undef w \<longleftrightarrow> False" "chat_post P (Exited c) w \<longleftrightarrow> False"
  by (simp_all add: chat_post_def)

lemma take_Suc_update:
  "n < length xs \<Longrightarrow> take (Suc n) (xs[n := x]) = take n xs @ [x]"
  by (simp add: take_Suc_conv_app_nth)

lemma length_dec_small:
  assumes "n < 100"
  shows "length (dec n) \<le> 2"
proof -
  have "n div 10 < 10" using assms by linarith
  then show ?thesis by (subst dec.simps, subst dec.simps) simp
qed

lemma length_welcome_text:
  assumes "\<forall>s \<in> set (take (numChats st) (name_chats st)). length s \<le> NAME_SIZE"
    "numChats st \<le> MAX_CHATS" "length (name_chats st) = MAX_CHATS"
  shows "length (welcome_text st) < BUFF_SIZE"
proof -
  have "length (concat (map (\<lambda>i. name_chats st ! i @ '' '') [0..<n])) \<le> 41 * n"
    if "n \<le> numChats st" for n
    using that
  proof (induction n)
    case (Suc n)
    have "take (numChats st) (name_chats st) ! n \<in> set (take (numChats st) (name_chats st))"
      using Suc.prems assms by (intro nth_mem) simp
    then have "length (name_chats st ! n) \<le> 40"
      using assms(1) Suc.prems by (simp add: NAME_SIZE_def)
    with Suc show ?case by simp
  qed simp
  from this [of "numChats st"] assms(2)
  have "length (concat (map (\<lambda>i. name_chats st ! i @ '' '') [0..<numChats st])) \<le> 1640"
    by (simp add: MAX_CHATS_def)
  then show ?thesis by (simp add: welcome_text_def WELCOME_MSG_def BUFF_SIZE_def)
qed

lemma wp_addChatter:
  assumes "chat_ok st" "numChats st < MAX_CHATS"
  shows "wp (addChatter fd st) (chat_post (\<lambda>st' w'.
      chatters st' = chatters st @ [(fd, default_name (numChats st))] \<and>
      (\<exists>text. writes (trace w') = writes (trace w) @ [(fd, text)]))) w"
proof -
  define st1 where "st1 = st\<lparr>name_chats := (name_chats st)[numChats st := default_name (numChats st)]\<rparr>"
  have "length (dec (numChats st)) \<le> 2"
    using assms by (intro length_dec_small) (simp add: MAX_CHATS_def)
  then have name: "length (default_name (numChats st)) \<le> NAME_SIZE" by (simp add: NAME_SIZE_def default_name_def)
  have "length (welcome_text st1) < BUFF_SIZE"
    using assms by (intro length_welcome_text) (auto simp: chat_ok_def st1_def)
  with assms name show ?thesis
    unfolding addChatter_def
    by (auto simp: st1_def [symmetric] Let_def intro!: prints_fold)
      (auto simp: st1_def chat_ok_def chatters_def take_Suc_update)
qed

lemma fst_chatters: "chat_ok st \<Longrightarrow> map fst (chatters st) = take (numChats st) (fd_chats st)"
  by (simp add: chatters_def chat_ok_def)

lemma others_eq:
  assumes "chat_ok st" "i < numChats st"
  shows "others i st = map fst (take i (chatters st) @ drop (Suc i) (chatters st))"
proof -
  have "[0..<numChats st] = [0..<i] @ i # [Suc i..<numChats st]"
    using assms(2) upt_conv_Cons upt_add_eq_append [of 0 i "numChats st - i"]
    by (metis add_diff_inverse_nat le0 less_imp_le not_less)
  then have "filter (\<lambda>k. k \<noteq> i) [0..<numChats st] = [0..<i] @ [Suc i..<numChats st]"
    by (simp add: filter_id_conv)
  moreover have "map (\<lambda>k. fd_chats st ! k) [0..<i] = take i (take (numChats st) (fd_chats st))"
    using assms by (intro nth_equalityI) (auto simp: chat_ok_def)
  moreover have "map (\<lambda>k. fd_chats st ! k) [Suc i..<numChats st] =
      drop (Suc i) (take (numChats st) (fd_chats st))"
    using assms by (intro nth_equalityI) (auto simp: chat_ok_def)
  ultimately show ?thesis
    by (simp add: others_def take_map [symmetric] drop_map [symmetric] fst_chatters [OF assms(1)])
qed

lemma nth_chatters:
  "chat_ok st \<Longrightarrow> i < numChats st \<Longrightarrow> chatters st ! i = (fd_chats st ! i, name_chats st ! i)"
  by (simp add: chatters_def chat_ok_def)

lemma name_length: "chat_ok st \<Longrightarrow> i < numChats st \<Longrightarrow> length (name_chats st ! i) \<le> NAME_SIZE"
proof -
  assume *: "chat_ok st" "i < numChats st"
  then have "take (numChats st) (name_chats st) ! i \<in> set (take (numChats st) (name_chats st))"
    by (intro nth_mem) (simp add: chat_ok_def)
  with * show ?thesis by (simp add: chat_ok_def)
qed

definition said_text :: "nat \<Rightarrow> string \<Rightarrow> chat \<Rightarrow> string" where
  \<comment> \<open>the message the others get\<close>
  "said_text i buffer st = snd (chatters st ! i) @ '':'' @ [newline] @ buffer @ [newline]"

lemma wp_processChat:
  assumes "chat_ok st" "i < numChats st" "length buffer + 44 < BUFF_SIZE"
  shows "if take 6 buffer = CHANGE_NAME
     then length (drop 6 buffer) \<le> NAME_SIZE \<longrightarrow>
       wp (processChat i buffer st) (chat_post (\<lambda>st' w'.
         chatters st' = (chatters st)[i := (fst (chatters st ! i), drop 6 buffer)] \<and>
         writes (trace w') = writes (trace w) @ [(fst (chatters st ! i),
           ''Your name has been changed to: '' @ drop 6 buffer @ [newline])])) w
     else wp (processChat i buffer st) (chat_post (\<lambda>st' w'. st' = st \<and>
         writes (trace w') = writes (trace w) @
           map (\<lambda>fd. (fd, said_text i buffer st)) (map fst (take i (chatters st) @ drop (Suc i) (chatters st))))) w"
proof -
  have i: "i < MAX_CHATS" "numChats st \<le> MAX_CHATS" using assms by (simp_all add: chat_ok_def)
  have len: "length CHANGE_NAME = 6" by (simp add: CHANGE_NAME_def)
  show ?thesis
  proof (cases "take 6 buffer = CHANGE_NAME")
    case False
    have "length (name_chats st ! i) \<le> 40"
      using name_length [OF assms(1,2)] by (simp add: NAME_SIZE_def)
    then have "length (said_text i buffer st) < BUFF_SIZE"
      using assms by (simp add: said_text_def nth_chatters)
    with False assms i show ?thesis
      unfolding processChat_def Let_def len
      by (simp only: if_False said_text_def nth_chatters [OF assms(1,2)] snd_conv others_eq [OF assms(1,2)])
        (auto intro!: prints_fold)
  next
    case True
    have same: "(take (numChats st) (fd_chats st))[i := fd_chats st ! i] = take (numChats st) (fd_chats st)"
      using assms(2) by (metis list_update_id nth_take)
    have ok: "chat_ok (st\<lparr>name_chats := (name_chats st)[i := name]\<rparr>) \<and>
        chatters (st\<lparr>name_chats := (name_chats st)[i := name]\<rparr>) =
          (chatters st)[i := (fd_chats st ! i, name)]" if "length name \<le> NAME_SIZE" for name
      using assms(1,2) that
      by (auto simp: chat_ok_def chatters_def take_update_swap zip_update [symmetric] same
          dest!: subsetD [OF set_update_subset_insert])
    have "length (''Your name has been changed to: '' @ drop 6 buffer @ [newline]) < BUFF_SIZE"
      using assms(3) by simp
    with True assms i ok show ?thesis
      unfolding processChat_def Let_def len
      by (simp only: if_True nth_chatters [OF assms(1,2)] fst_conv) (auto intro!: prints_fold)
  qed
qed

lemma wp_remove_chatter:
  assumes "chat_ok st" "i < numChats st"
  shows "wp (remove_chatter i st) (chat_post (\<lambda>st' w'.
      chatters st' = take i (chatters st) @ drop (Suc i) (chatters st) \<and>
      (\<exists>r. last (trace w') = (SysClose (fst (chatters st ! i)), r)) \<and>
      writes (trace w') = writes (trace w))) w"
proof -
  have "(compress i st)\<lparr>numChats := numChats (compress i st) - 1\<rparr> = removed i st"
    by (simp add: removed_def)
  moreover have "numChats st \<le> MAX_CHATS" using assms by (simp add: chat_ok_def)
  ultimately show ?thesis
    using assms chat_ok_removed [OF assms] chatters_removed [OF assms] nth_chatters [OF assms]
    unfolding remove_chatter_def Let_def
    by (auto split: list.split prod.split)
qed

subsection \<open>A round of the loop\<close>

lemma shrinks_prints [eating]: "shrinks (prints ms)"
  by (induction ms rule: prints.induct) (auto simp: prints.simps intro!: eating)

lemma shrinks_handlers [eating]:
  "shrinks (processChat i buffer st)" "shrinks (remove_chatter i st)" "shrinks (addChatter fd st)"
  "shrinks (accept_chatter fd st)"
  unfolding processChat_def remove_chatter_def addChatter_def accept_chatter_def Let_def
  by (intro eating)+

lemma shrinks_serve [eating]: "shrinks (serve_chatters ready k i st)"
  by (induction k arbitrary: i st) (auto simp: Let_def intro!: eating)

lemma appends_prints [appending]: "appends (\<lambda>_. True) (prints ms)"
  by (induction ms rule: prints.induct) (auto simp: prints.simps perror_def intro!: appending)

lemma appends_handlers [appending]:
  "appends (\<lambda>_. True) (processChat i buffer st)" "appends (\<lambda>_. True) (remove_chatter i st)"
  "appends (\<lambda>_. True) (addChatter fd st)"
  unfolding processChat_def remove_chatter_def addChatter_def perror_def printf_def Let_def
  by (intro appending TrueI)+

lemma grown_since: "grown w0 w \<Longrightarrow> grown w w' \<Longrightarrow> grown w0 w' \<and> since w0 w' = since w0 w @ since w w'"
  using grown_trans since_trans by blast

text \<open>
  A line of more than 46 bytes since \<open>w0\<close>: a name command of that length does not fit its place.
  The descriptors of the table: \<open>chat_fds\<close>.
\<close>

definition long_line :: "(syscall \<times> sysret) list \<Rightarrow> bool" where
  "long_line log \<longleftrightarrow> (\<exists>fd r. (SysRead fd BUFF_SIZE, r) \<in> set log \<and> 46 < length (r_data r))"

lemma long_line_append: "long_line (a @ b) \<longleftrightarrow> long_line a \<or> long_line b"
  unfolding long_line_def set_append by blast

lemma long_lineI: "(SysRead fd BUFF_SIZE, r) \<in> set log \<Longrightarrow> 46 < length (r_data r) \<Longrightarrow> long_line log"
  unfolding long_line_def by blast

definition chat_fds :: "chat \<Rightarrow> int set" where
  "chat_fds st = set (take (numChats st) (fd_chats st))"

lemma chat_fds_chatters: "chat_ok st \<Longrightarrow> chat_fds st = fst ` set (chatters st)"
  by (simp add: chat_fds_def flip: fst_chatters)

definition shrunk :: "chat \<Rightarrow> chat \<Rightarrow> bool" where
  \<comment> \<open>neither handler lets the list of chatters grow\<close>
  "shrunk st st' \<longleftrightarrow> chat_ok st' \<and> numChats st' \<le> numChats st \<and> chat_fds st' \<subseteq> chat_fds st"

lemma shrunk_refl: "chat_ok st \<Longrightarrow> shrunk st st"
  by (simp add: shrunk_def)

lemma shrunk_trans: "shrunk st st' \<Longrightarrow> shrunk st' st'' \<Longrightarrow> shrunk st st''"
  by (auto simp: shrunk_def)

text \<open>What a handler leaves when only \<open>B\<close> or a long line is a reason for undefined behaviour.\<close>

definition served :: "bool \<Rightarrow> chat \<Rightarrow> world \<Rightarrow> chat res \<Rightarrow> world \<Rightarrow> bool" where
  "served B st w0 r w =
     (case r of
        Val st' \<Rightarrow> shrunk st st' \<and> grown w0 w
      | Undef \<Rightarrow> grown w0 w \<and> (B \<or> long_line (since w0 w))
      | Blocked \<Rightarrow> True
      | Exited c \<Rightarrow> False)"

lemma served_simps [simp]:
  "served B st w0 (Val st') w \<longleftrightarrow> shrunk st st' \<and> grown w0 w"
  "served B st w0 Undef w \<longleftrightarrow> grown w0 w \<and> (B \<or> long_line (since w0 w))"
  "served B st w0 Blocked w" "\<not> served B st w0 (Exited c) w"
  by (simp_all add: served_def)

lemma served_late: "shrunk st st' \<Longrightarrow> served B st' w0 r w \<Longrightarrow> served B st w0 r w"
  by (cases r) (auto elim: shrunk_trans)

lemma shrunk_rename:
  assumes "chat_ok st" "i < numChats st" "length name \<le> NAME_SIZE"
  shows "shrunk st (st\<lparr>name_chats := (name_chats st)[i := name]\<rparr>)"
  using assms
  by (auto simp: shrunk_def chat_ok_def chat_fds_def take_update_swap
      dest!: subsetD [OF set_update_subset_insert])

lemma wp_any_line:
  \<comment> \<open>whatever the line, a result of \<open>processChat\<close> has well-formed tables\<close>
  assumes "chat_ok st" "i < numChats st"
  shows "wp (processChat i buffer st) (served True st w) w"
proof -
  have "wp (processChat i buffer st) (\<lambda>r w'. case r of Val st' \<Rightarrow> shrunk st st' | Exited c \<Rightarrow> False | _ \<Rightarrow> True) w"
    using assms unfolding processChat_def Let_def
    by (auto intro!: prints_fold shrunk_rename shrunk_refl)
  from wp_appends [OF appends_handlers(1) this] show ?thesis
    by (rule wp_conseq) (auto simp: served_def split: res.splits)
qed

lemma wp_handle_line:
  assumes "chat_ok st" "i < numChats st" "grown w0 w" "length buffer \<le> 45 \<or> long_line (since w0 w)"
  shows "wp (processChat i buffer st) (served B st w0) w"
proof -
  note any = wp_appends [OF appends_handlers(1) wp_any_line [OF assms(1,2), of buffer w]]
  have defined: "wp (processChat i buffer st) (\<lambda>r w'. r \<noteq> Undef) w" if "length buffer \<le> 45"
  proof -
    have "length buffer + 44 < BUFF_SIZE" "length (drop 6 buffer) \<le> NAME_SIZE"
      using that by (simp_all add: BUFF_SIZE_def NAME_SIZE_def)
    with wp_processChat [OF assms(1,2), of buffer w] show ?thesis
      by (cases "take 6 buffer = CHANGE_NAME") (auto elim!: wp_conseq simp: chat_post_def split: res.splits)
  qed
  have "wp (processChat i buffer st) (\<lambda>r w'. (served True st w r w' \<and> grown w w') \<and>
      (length buffer \<le> 45 \<longrightarrow> r \<noteq> Undef)) w"
    using any defined by (auto simp: wp_def split: prod.splits)
  then show ?thesis
  proof (rule wp_conseq)
    fix r :: "chat res" and w'
    assume r: "(served True st w r w' \<and> grown w w') \<and> (length buffer \<le> 45 \<longrightarrow> r \<noteq> Undef)"
    with grown_since [OF assms(3), of w'] assms(4) show "served B st w0 r w'"
      by (cases r) (auto simp: long_line_append)
  qed
qed

lemma wp_handle_close:
  assumes "chat_ok st" "i < numChats st" "grown w0 w"
  shows "wp (remove_chatter i st) (served B st w0) w"
proof -
  have "shrunk st st'" if "chat_ok st'" "chatters st' = take i (chatters st) @ drop (Suc i) (chatters st)" for st'
  proof -
    have "numChats st' = numChats st - 1"
      using arg_cong [OF that(2), of length] length_chatters [OF that(1)] length_chatters [OF assms(1)] assms(2)
      by simp
    moreover have "set (chatters st') \<subseteq> set (chatters st)"
      unfolding that(2) by (auto dest: in_set_takeD in_set_dropD)
    ultimately show ?thesis
      using that(1) image_mono by (simp add: shrunk_def chat_fds_chatters assms(1))
  qed
  then show ?thesis
    by (intro wp_conseq [OF wp_appends [OF appends_handlers(2) wp_remove_chatter [OF assms(1,2), of w]]])
      (use grown_trans [OF assms(3)] in \<open>auto simp: chat_post_def served_def split: res.splits\<close>)
qed

lemma wp_serve_chatters:
  assumes "chat_ok st" "numChats st \<le> i + k" "grown w0 w" "(\<forall>fd \<in> chat_fds st. fits_set fd) \<or> B"
  shows "wp (serve_chatters ready k i st) (served B st w0) w"
  using assms
proof (induction k arbitrary: i st w)
  case 0
  then show ?case by (simp add: shrunk_refl)
next
  case (Suc k)
  show ?case
  proof (cases "i < numChats st")
    case False
    with Suc.prems show ?thesis by (simp add: shrunk_refl)
  next
    case True
    have i: "i < MAX_CHATS" using True Suc.prems by (simp add: chat_ok_def)
    have "fd_chats st ! i \<in> chat_fds st"
      using True Suc.prems(1) by (auto simp: chat_fds_def chat_ok_def in_set_conv_nth)
    then have fit: "fits_set (fd_chats st ! i) \<or> B" using Suc.prems(4) by blast
    have on: "wp (serve_chatters ready k (Suc i) st') (served B st w0) w'"
      if "shrunk st st'" "grown w0 w'" for st' w'
      using that Suc.prems(2,4)
      by (intro wp_conseq [OF Suc.IH [of st' "Suc i" w']] served_late [OF that(1)])
        (auto simp: shrunk_def)
    have cont: "wp m (on_val (\<lambda>st. wp (serve_chatters ready k (Suc i) st) (served B st0 w0)) (served B st0 w0)) w'"
      if "wp m (served B st w0) w'" "st0 = st" for m w' st0
      unfolding that(2)
      by (rule wp_conseq [OF that(1)]) (auto simp: served_def on_val_def on split: res.splits)
    define fd where "fd = fd_chats st ! i"
    have line: "wp (processChat i (c_string (butlast (r_data r))) st) (served B st w0)
        (logged (SysRead fd BUFF_SIZE) r w)" for r
    proof (rule wp_handle_line [OF Suc.prems(1) True])
      have "length (c_string (butlast (r_data r))) \<le> length (r_data r) - 1"
        using length_c_string [of "butlast (r_data r)"] by simp
      then show "length (c_string (butlast (r_data r))) \<le> 45 \<or>
          long_line (since w0 (logged (SysRead fd BUFF_SIZE) r w))"
        using Suc.prems(3) by (cases "length (r_data r) \<le> 46") (auto intro: long_lineI)
    qed (simp add: Suc.prems)
    have close: "wp (remove_chatter i st) (served B st w0) (said c (logged (SysRead fd BUFF_SIZE) r w))" for r c
      by (rule wp_handle_close [OF Suc.prems(1) True]) (simp add: Suc.prems)
    show ?thesis
      using True i fit Suc.prems(3) cont [OF line] cont [OF close] on [OF shrunk_refl [OF Suc.prems(1)] Suc.prems(3)]
      by (auto simp: Let_def fd_def [symmetric] split: list.split)
  qed
qed

declare serve_chatters.simps [simp del]

text \<open>
  The descriptors that \<open>accept\<close> has returned, and the only reasons for a round to leave the
  arrays and buffers.
\<close>

definition taken :: "int \<Rightarrow> (syscall \<times> sysret) list \<Rightarrow> int list" where
  "taken fd log = concat (map (\<lambda>(c, r). if c = SysAccept fd \<and> 0 \<le> r_val r then [r_val r] else []) log)"

lemma taken_simps [simp]:
  "taken fd [] = []" "taken fd (a @ b) = taken fd a @ taken fd b"
  "taken fd ((SysAccept fd, r) # log) = (if 0 \<le> r_val r then [r_val r] else []) @ taken fd log"
  by (simp_all add: taken_def)

definition overruns :: "int \<Rightarrow> chat \<Rightarrow> (syscall \<times> sysret) list \<Rightarrow> bool" where
  "overruns fd_listen st log \<longleftrightarrow>
     \<not> fits_set fd_listen \<or>
     (\<exists>fd \<in> chat_fds st \<union> set (taken fd_listen log). \<not> fits_set fd) \<or>
     MAX_CHATS < numChats st + length (taken fd_listen log) \<or>
     long_line log"

definition round_post :: "int \<Rightarrow> chat \<Rightarrow> world \<Rightarrow> (chat + unit) res \<Rightarrow> world \<Rightarrow> bool" where
  \<comment> \<open>the tables stay well formed and grow by the chatters accepted\<close>
  "round_post fd_listen st w r w' =
     (case r of
        Val (Inl st') \<Rightarrow> chat_ok st' \<and> numChats st' \<le> numChats st + length (taken fd_listen (since w w')) \<and>
          chat_fds st' \<subseteq> chat_fds st \<union> set (taken fd_listen (since w w'))
      | Val (Inr _) \<Rightarrow> False
      | Undef \<Rightarrow> overruns fd_listen st (since w w')
      | _ \<Rightarrow> True)"

lemma overruns_late:
  assumes "overruns fd st log'" "numChats st \<le> numChats st0 + length (taken fd log)"
    "chat_fds st \<subseteq> chat_fds st0 \<union> set (taken fd log)"
  shows "overruns fd st0 (log @ log')"
proof -
  consider "\<not> fits_set fd" | (big) "\<exists>fd' \<in> chat_fds st \<union> set (taken fd log'). \<not> fits_set fd'"
    | (full) "MAX_CHATS < numChats st + length (taken fd log')" | (line) "long_line log'"
    using assms(1) unfolding overruns_def by blast
  then show ?thesis
  proof cases
    case big
    with assms(3) have "\<exists>fd' \<in> chat_fds st0 \<union> set (taken fd (log @ log')). \<not> fits_set fd'"
      unfolding taken_simps set_append by blast
    then show ?thesis unfolding overruns_def by blast
  qed (use assms(2) in \<open>simp_all add: overruns_def long_line_append\<close>)
qed

text \<open>\<open>joined\<close>: what \<open>accept_chatter\<close> leaves.\<close>

definition joined :: "int \<Rightarrow> chat \<Rightarrow> world \<Rightarrow> chat res \<Rightarrow> world \<Rightarrow> bool" where
  "joined fd st w0 r w =
     (case r of
        Val st' \<Rightarrow> chat_ok st' \<and> grown w0 w \<and> (\<exists>new \<in> set (taken fd (since w0 w)).
          chat_fds st' = insert new (chat_fds st) \<and> numChats st' = Suc (numChats st))
      | Undef \<Rightarrow> grown w0 w \<and> taken fd (since w0 w) \<noteq> [] \<and> MAX_CHATS \<le> numChats st
      | _ \<Rightarrow> True)"

lemma wp_join:
  assumes "chat_ok st" "grown w0 w" "new \<in> set (taken fd (since w0 w))"
  shows "wp (addChatter new st) (joined fd st w0) w"
proof (cases "numChats st < MAX_CHATS")
  case True
  have "numChats st' = Suc (numChats st) \<and> chat_fds st' = insert new (chat_fds st)"
    if "chat_ok st'" "chatters st' = chatters st @ [(new, x)]" for st' x
    using arg_cong [OF that(2), of length] length_chatters [OF that(1)] length_chatters [OF assms(1)] that
    by (simp add: chat_fds_chatters assms(1))
  note size = this
  show ?thesis
  proof (rule wp_conseq [OF wp_appends [OF appends_handlers(3) wp_addChatter [OF assms(1) True, of new w]]])
    fix r :: "chat res" and w'
    assume "chat_post (\<lambda>st' w'. chatters st' = chatters st @ [(new, default_name (numChats st))] \<and>
        (\<exists>text. writes (trace w') = writes (trace w) @ [(new, text)])) r w' \<and>
      grown w w' \<and> list_all (\<lambda>_. True) (since w w')"
    with grown_since [OF assms(2), of w'] assms(3) size show "joined fd st w0 r w'"
      by (cases r) (auto simp: joined_def)
  qed
next
  case False
  then show ?thesis
    using assms by (auto simp: addChatter_def joined_def)
qed

lemma taken_accept_log: "list_all aborted skipped \<Longrightarrow> taken fd (accept_log fd skipped) = []"
  by (induction skipped) (auto simp: accept_log_def aborted_def)

lemma wp_accept_chatter:
  assumes "chat_ok st" "grown w0 w"
  shows "wp (accept_chatter fd st) (joined fd st w0) w"
proof -
  have num: "\<not> MAX_CHATS < numChats st" using assms(1) by (simp add: chat_ok_def)
  have new: "wp (Accept fd) (\<lambda>r w'. case r of
      Val a \<Rightarrow> grown w0 w' \<and> r_val a \<in> set (taken fd (since w0 w')) | Undef \<Rightarrow> False | _ \<Rightarrow> True) w"
  proof (rule wp_conseq [OF wp_Accept])
    fix r :: "sysret res" and w'
    assume "accepted fd (trace w) r w'"
    then show "case r of Val a \<Rightarrow> grown w0 w' \<and> r_val a \<in> set (taken fd (since w0 w'))
        | Undef \<Rightarrow> False | _ \<Rightarrow> True"
      using assms(2) grown_trace [of w' w] grown_trans [of w0 w w'] since_trans [of w0 w w']
      by (cases r) (auto simp: accepted_def accept_log_def)
  qed
  show ?thesis
    unfolding accept_chatter_def wp_bind Let_def
    by (rule wp_conseq [OF new])
      (use num in \<open>auto simp: on_val_def joined_def [of _ _ _ Blocked] joined_def [of _ _ _ "Exited _"]
         split: res.splits list.split prod.split intro!: wp_join [OF assms(1)]\<close>)
qed

lemma wp_chat_round:
  assumes "chat_ok st"
  shows "wp (chat_round fd_listen st) (round_post fd_listen st w) w"
proof -
  let ?Q = "round_post fd_listen st w"
  have serve: "wp (serve_chatters ready (numChats st') 0 st') (on_val (\<lambda>a. wp (again a) ?Q) ?Q) w'"
    if st': "chat_ok st'" "numChats st' \<le> numChats st + length (taken fd_listen (since w w'))"
      "chat_fds st' \<subseteq> chat_fds st \<union> set (taken fd_listen (since w w'))" and g: "grown w w'" for st' w' ready
  proof -
    have "wp (serve_chatters ready (numChats st') 0 st') (served (\<exists>fd \<in> chat_fds st'. \<not> fits_set fd) st' w') w'"
      by (rule wp_serve_chatters) (use st' in auto)
    then show ?thesis
    proof (rule wp_conseq)
      fix r :: "chat res" and w''
      assume s: "served (\<exists>fd \<in> chat_fds st'. \<not> fits_set fd) st' w' r w''"
      have "since w w'' = since w w' @ since w' w''" if "grown w' w''"
        using g that by (rule since_trans)
      with s st' show "on_val (\<lambda>a. wp (again a) ?Q) ?Q r w''"
        by (cases r) (fastforce simp: round_post_def shrunk_def overruns_def long_line_def)+
    qed
  qed
  have accept: "wp (accept_chatter fd_listen st) (on_val (\<lambda>st'.
      wp (bind (serve_chatters ready (numChats st') 0 st') again) ?Q) ?Q) w'"
    if "grown w w'" for w' ready
  proof (rule wp_conseq [OF wp_accept_chatter [OF assms that]])
    fix r :: "chat res" and w''
    assume "joined fd_listen st w r w''"
    then show "on_val (\<lambda>st'. wp (bind (serve_chatters ready (numChats st') 0 st') again) ?Q) ?Q r w''"
    proof (cases r)
      case (Val st')
      then obtain new where "chat_ok st'" "grown w w''" "new \<in> set (taken fd_listen (since w w''))"
        "chat_fds st' = insert new (chat_fds st)" "numChats st' = Suc (numChats st)"
        using \<open>joined fd_listen st w r w''\<close> by (auto simp: joined_def)
      moreover have "0 < length (taken fd_listen (since w w''))"
        using calculation(3) by (rule length_pos_if_in_set)
      ultimately show ?thesis
        unfolding Val on_val_simps wp_bind by (intro serve) (auto simp: Suc_le_eq)
    qed (auto simp: joined_def round_post_def overruns_def neq_Nil_conv)
  qed
  have stay: "wp (bind (serve_chatters ready (numChats st) 0 st) again) ?Q w'"
    if "grown w w'" for w' ready
    unfolding wp_bind by (intro serve) (use that assms in auto)
  have "numChats st \<le> MAX_CHATS" using assms by (simp add: chat_ok_def)
  moreover have "?Q Undef w" if "\<not> list_all fits_set (fd_listen # take (numChats st) (fd_chats st))"
    using that by (auto simp: round_post_def overruns_def chat_fds_def list_all_iff)
  moreover have "?Q Blocked v" "?Q (Exited c) v" for v c by (simp_all add: round_post_def)
  ultimately show ?thesis
    unfolding chat_round_def Let_def Select_def
    by (auto simp del: list.pred_inject split: list.split intro!: accept [simplified] stay [simplified])
qed

lemma appends_serve: "appends (\<lambda>_. True) (serve_chatters ready k i st)"
  by (induction k arbitrary: i st)
    (auto simp: serve_chatters.simps Let_def printf_def intro!: appending appends_handlers)

lemma appends_round: "appends (\<lambda>_. True) (chat_round fd st)"
  unfolding chat_round_def Let_def Select_def accept_chatter_def perror_def printf_def unless_neg_def
  by (intro appending appends_handlers appends_serve TrueI)

lemma chat_eats: "cont_eats (chat_round fd st)"
  unfolding chat_round_def Let_def seq_def Select_def
  by (intro cont_eats_bind2 body_eating eats_bind1 eats_sys eating)

interpretation chat: consuming "chat_round fd" for fd
  by unfold_locales (rule chat_eats)

lemma long_name_undef:
  assumes "take 6 buffer = CHANGE_NAME" "\<not> length (drop 6 buffer) \<le> NAME_SIZE"
  shows "fst (processChat i buffer st w) = Undef"
proof -
  have len: "length CHANGE_NAME = 6" by (simp add: CHANGE_NAME_def)
  show ?thesis
    using assms
    unfolding processChat_def Let_def len
    by (simp only: if_True if_False guard_def seq_def) (simp add: bind_def ret_def undef_def)
qed

text \<open>The whole run: the only reasons for it to leave the arrays and buffers.\<close>

lemma wp_chatLoop:
  "wp (chatLoop fd_listen) (\<lambda>r w'. case r of Val _ \<Rightarrow> False
     | Undef \<Rightarrow> overruns fd_listen chat_init (since w w') | _ \<Rightarrow> True) w" (is "wp _ ?Q w")
  unfolding chatLoop_def
proof (rule chat.wp_loop [where I = "\<lambda>st w'. round_post fd_listen chat_init w (Val (Inl st)) w' \<and> grown w w'"])
  let ?I = "\<lambda>st w'. round_post fd_listen chat_init w (Val (Inl st)) w' \<and> grown w w'"
  show "?I chat_init w" by (simp add: round_post_def chat_init_ok)
  fix st :: chat and w'
  assume I: "?I st w'"
  have shrink: "appends (\<lambda>_. True) (chat_round fd_listen st)" by (rule appends_round)
  from I have ok: "chat_ok st" by (simp add: round_post_def)
  show "wp (chat_round fd_listen st) (body_post ?I ?Q) w'"
  proof (rule wp_conseq [OF wp_appends [OF shrink wp_chat_round [OF ok]]])
    fix r :: "(chat + unit) res" and w''
    assume r: "round_post fd_listen st w' r w'' \<and> grown w' w'' \<and> list_all (\<lambda>_. True) (since w' w'')"
    then have "since w w'' = since w w' @ since w' w''" "grown w w''"
      using I by (auto intro: since_trans grown_trans)
    with r I show "body_post ?I ?Q r w''"
    proof (cases r)
      case (Val v)
      with r I \<open>since w w'' = since w w' @ since w' w''\<close> \<open>grown w w''\<close> show ?thesis
        by (cases v) (fastforce simp: round_post_def)+
    next
      case Undef
      with r I \<open>since w w'' = since w w' @ since w' w''\<close> show ?thesis
        using overruns_late [of fd_listen st "since w' w''" chat_init "since w w'"]
        by (simp add: round_post_def)
    qed simp_all
  qed
qed

subsection \<open>Properties\<close>

text \<open>\<open>remove_chatter\<close> shifts both tables so that they represent the list of chatters
  without the one removed, in the same order and with the names of the others, closes the
  descriptor of the one removed, and writes nothing to anyone.\<close>

theorem remove_chatter_removes:
  assumes "chat_ok st" "i < numChats st"
  shows "wp (remove_chatter i st) (chat_post (\<lambda>st' w'.
      chatters st' = take i (chatters st) @ drop (Suc i) (chatters st) \<and>
      (\<exists>r. last (trace w') = (SysClose (fst (chatters st ! i)), r)) \<and>
      writes (trace w') = writes (trace w))) w"
  using assms by (rule wp_remove_chatter)

definition two_chatters :: chat where
  "two_chatters = chat_init\<lparr>fd_chats := 4 # 5 # replicate 38 0,
     name_chats := ''ann'' # ''bob'' # replicate 38 [], numChats := 2\<rparr>"

lemma two_chatters_ok: "chat_ok two_chatters"
  by (simp add: two_chatters_def chat_ok_def chat_init_def MAX_CHATS_def NAME_SIZE_def
      take_Cons numeral_eq_Suc)

lemma two_chatters_num: "numChats two_chatters = 2"
  by (simp add: two_chatters_def)

theorem remove_chatter_removes_witness:
  "wp (remove_chatter 0 two_chatters) (chat_post (\<lambda>st' w'.
      chatters st' = take 0 (chatters two_chatters) @ drop (Suc 0) (chatters two_chatters) \<and>
      (\<exists>r. last (trace w') = (SysClose (fst (chatters two_chatters ! 0)), r)) \<and>
      writes (trace w') = writes (trace (start [ok 0, ok 0])))) (start [ok 0, ok 0])"
  by (rule remove_chatter_removes [OF two_chatters_ok]) (simp add: two_chatters_num)

text \<open>C15: a line that is no name command is sent, after the sender's name, once to every
  chatter but the sender, in the order of the table, and changes no table; a name command
  changes the sender's name only and is answered to the sender only, unless the name is longer
  than \<open>NAME_SIZE\<close>: then the copy leaves the array.\<close>

theorem processChat_broadcast:
  assumes "chat_ok st" "i < numChats st" "length buffer + 44 < BUFF_SIZE"
  shows "if take 6 buffer = CHANGE_NAME
     then (if length (drop 6 buffer) \<le> NAME_SIZE
       then wp (processChat i buffer st) (chat_post (\<lambda>st' w'.
         chatters st' = (chatters st)[i := (fst (chatters st ! i), drop 6 buffer)] \<and>
         writes (trace w') = writes (trace w) @ [(fst (chatters st ! i),
           ''Your name has been changed to: '' @ drop 6 buffer @ [newline])])) w
       else fst (processChat i buffer st w) = Undef)
     else wp (processChat i buffer st) (chat_post (\<lambda>st' w'. st' = st \<and>
         writes (trace w') = writes (trace w) @
           map (\<lambda>fd. (fd, said_text i buffer st))
             (map fst (take i (chatters st) @ drop (Suc i) (chatters st))))) w"
  using wp_processChat [OF assms, of w] long_name_undef [of buffer i st w]
  by (cases "take 6 buffer = CHANGE_NAME"; cases "length (drop 6 buffer) \<le> NAME_SIZE")
    (simp_all only: if_True if_False simp_thms)

theorem processChat_broadcast_witness:
  "if take 6 ''hi'' = CHANGE_NAME
     then (if length (drop 6 ''hi'') \<le> NAME_SIZE
       then wp (processChat 0 ''hi'' two_chatters) (chat_post (\<lambda>st' w'.
         chatters st' = (chatters two_chatters)[0 := (fst (chatters two_chatters ! 0), drop 6 ''hi'')] \<and>
         writes (trace w') = writes (trace (start [ok 7])) @ [(fst (chatters two_chatters ! 0),
           ''Your name has been changed to: '' @ drop 6 ''hi'' @ [newline])])) (start [ok 7])
       else fst (processChat 0 ''hi'' two_chatters (start [ok 7])) = Undef)
     else wp (processChat 0 ''hi'' two_chatters) (chat_post (\<lambda>st' w'. st' = two_chatters \<and>
         writes (trace w') = writes (trace (start [ok 7])) @
           map (\<lambda>fd. (fd, said_text 0 ''hi'' two_chatters))
             (map fst (take 0 (chatters two_chatters) @ drop (Suc 0) (chatters two_chatters)))))
       (start [ok 7])"
  by (rule processChat_broadcast [OF two_chatters_ok]) (simp_all add: two_chatters_num BUFF_SIZE_def)

text \<open>With fewer than \<open>MAX_CHATS\<close> chatters a new one is appended to both tables under
  its default name and only it is written to; with \<open>MAX_CHATS\<close> chatters the test
  \<open>numChats > MAX_CHATS\<close> lets one more in and the store is past the end of the tables.\<close>

theorem addChatter_appends:
  assumes "chat_ok st"
  shows "if numChats st < MAX_CHATS
     then wp (addChatter fd st) (chat_post (\<lambda>st' w'.
       chatters st' = chatters st @ [(fd, default_name (numChats st))] \<and>
       (\<exists>text. writes (trace w') = writes (trace w) @ [(fd, text)]))) w
     else \<not> MAX_CHATS < numChats st \<and> fst (addChatter fd st w) = Undef"
proof (cases "numChats st < MAX_CHATS")
  case True
  with wp_addChatter [OF assms] show ?thesis by simp
next
  case False
  with assms have "numChats st = MAX_CHATS" by (simp add: chat_ok_def)
  then show ?thesis by (simp add: addChatter_def seq_def bind_def guard_def undef_def)
qed

theorem addChatter_appends_witness:
  "if numChats two_chatters < MAX_CHATS
     then wp (addChatter 9 two_chatters) (chat_post (\<lambda>st' w'.
       chatters st' = chatters two_chatters @ [(9, default_name (numChats two_chatters))] \<and>
       (\<exists>text. writes (trace w') = writes (trace (start [])) @ [(9, text)]))) (start [])
     else \<not> MAX_CHATS < numChats two_chatters \<and> fst (addChatter 9 two_chatters (start [])) = Undef"
  by (rule addChatter_appends [OF two_chatters_ok])

text \<open>C16: the \<open>select\<close> loop, whatever is ready, accepted, read or closed.  A round from
  well-formed tables leaves them well formed, with no more chatters and no other descriptors
  than \<open>accept\<close> added.  The arrays and buffers are left for three reasons only: a descriptor
  that does not fit in an \<open>fd_set\<close>, more than \<open>MAX_CHATS\<close> chatters, a line of more than 46 bytes.
  The whole loop from the empty tables never returns, and leaves the arrays and buffers for
  no other reason.\<close>

theorem chat_round_safe:
  assumes "chat_ok st"
  shows "wp (chat_round fd_listen st) (round_post fd_listen st w) w \<and>
    wp (chatLoop fd_listen) (\<lambda>r w'. case r of
        Val _ \<Rightarrow> False
      | Undef \<Rightarrow> \<not> fits_set fd_listen \<or> list_ex (\<lambda>fd. \<not> fits_set fd) (taken fd_listen (since w w')) \<or>
          MAX_CHATS < length (taken fd_listen (since w w')) \<or> long_line (since w w')
      | _ \<Rightarrow> True) w"
proof
  show "wp (chat_round fd_listen st) (round_post fd_listen st w) w"
    using assms by (rule wp_chat_round)
  show "wp (chatLoop fd_listen) (\<lambda>r w'. case r of
        Val _ \<Rightarrow> False
      | Undef \<Rightarrow> \<not> fits_set fd_listen \<or> list_ex (\<lambda>fd. \<not> fits_set fd) (taken fd_listen (since w w')) \<or>
          MAX_CHATS < length (taken fd_listen (since w w')) \<or> long_line (since w w')
      | _ \<Rightarrow> True) w"
    by (rule wp_conseq [OF wp_chatLoop])
      (auto simp: overruns_def chat_init_def chat_fds_def list_ex_iff split: res.splits)
qed

theorem chat_round_safe_witness:
  "wp (chat_round 3 two_chatters)
    (round_post 3 two_chatters (start [(ok 1)\<lparr>r_rset := [4]\<rparr>, okdata ''hello!'', ok 12]))
    (start [(ok 1)\<lparr>r_rset := [4]\<rparr>, okdata ''hello!'', ok 12])"
  using chat_round_safe [OF two_chatters_ok] by blast

end
