(* ===== verification/Rtt.thy ===== *)
theory Rtt
  imports Wrappers Complex_Main
begin

text \<open>
  Retransmission over datagrams: the round-trip estimator of lib/rtt.c with lib/unprtt.h, and
  rtt/dg_send_recv.c, which adds a sequence number, a timestamp, a timeout and
  retransmissions to a request.

  The \<open>float\<close> members are exact rationals: rounding is not modelled.  The timestamps are the
  code's 32-bit integers.  Proved here: the bounds of the timer, the back-off, the number of
  retransmissions, and that the reply returned is the one to the request sent.
\<close>

unbundle bit_operations_syntax

subsection \<open>lib/rtt.c\<close>

record rtt_info =
  rtt_rtt :: rat
  rtt_srtt :: rat
  rtt_rttvar :: rat
  rtt_rto :: rat
  rtt_nrexmt :: int
  rtt_base :: "32 word"

definition RTT_RXTMIN :: rat where "RTT_RXTMIN = 2"
definition RTT_RXTMAX :: rat where "RTT_RXTMAX = 60"
definition RTT_MAXNREXMT :: int where "RTT_MAXNREXMT = 3"

definition RTT_RTOCALC :: "rtt_info \<Rightarrow> rat" where
  "RTT_RTOCALC p = rtt_srtt p + 4 * rtt_rttvar p"

definition rtt_minmax :: "rat \<Rightarrow> rat" where
  "rtt_minmax rto =
     (if rto < RTT_RXTMIN then RTT_RXTMIN else if RTT_RXTMAX < rto then RTT_RXTMAX else rto)"

definition rtt_start_values :: "rtt_info \<Rightarrow> 32 word \<Rightarrow> rtt_info" where
  \<comment> \<open>the assignments of \<open>rtt_init\<close>\<close>
  "rtt_start_values p base =
     (let p = p\<lparr>rtt_base := base, rtt_rtt := 0, rtt_srtt := 0, rtt_rttvar := 3 / 4\<rparr>
      in p\<lparr>rtt_rto := rtt_minmax (RTT_RTOCALC p)\<rparr>)"

definition rtt_init :: "rtt_info \<Rightarrow> rtt_info io" where
  "rtt_init p = bind Gettimeofday (\<lambda>(tv_sec, tv_usec). ret (rtt_start_values p (of_int tv_sec)))"

definition rtt_ts :: "rtt_info \<Rightarrow> (32 word) io" where
  "rtt_ts p =
     bind Gettimeofday (\<lambda>(tv_sec, tv_usec).
     ret (of_int ((tv_sec - uint (rtt_base p)) * 1000 + tv_usec div 1000)))"

definition rtt_newpack :: "rtt_info \<Rightarrow> rtt_info" where
  "rtt_newpack p = p\<lparr>rtt_nrexmt := 0\<rparr>"

definition rtt_start :: "rtt_info \<Rightarrow> int" where
  "rtt_start p = \<lfloor>rtt_rto p + 1 / 2\<rfloor>" \<comment> \<open>round float to int\<close>

definition rtt_stop :: "rtt_info \<Rightarrow> 32 word \<Rightarrow> rtt_info" where
  "rtt_stop p ms =
     (let p = p\<lparr>rtt_rtt := of_int (uint ms) / 1000\<rparr>;
          delta = rtt_rtt p - rtt_srtt p;
          p = p\<lparr>rtt_srtt := rtt_srtt p + delta / 8\<rparr>; \<comment> \<open>g = 1/8\<close>
          delta = (if delta < 0 then - delta else delta);
          p = p\<lparr>rtt_rttvar := rtt_rttvar p + (delta - rtt_rttvar p) / 4\<rparr> \<comment> \<open>h = 1/4\<close>
      in p\<lparr>rtt_rto := rtt_minmax (RTT_RTOCALC p)\<rparr>)"

definition rtt_timeout :: "rtt_info \<Rightarrow> int \<times> rtt_info" where
  "rtt_timeout p =
     (let p = p\<lparr>rtt_rto := rtt_rto p * 2\<rparr>; \<comment> \<open>next RTO\<close>
          p = p\<lparr>rtt_nrexmt := rtt_nrexmt p + 1\<rparr>
      in (if RTT_MAXNREXMT < rtt_nrexmt p then - 1 else 0, p))"

text \<open>\<open>rtt_debug\<close> prints when the flag is set; the text of the four numbers is not modelled.\<close>

definition rtt_debug :: "int \<Rightarrow> unit io" where
  "rtt_debug rtt_d_flag =
     (if rtt_d_flag = 0 then ret ()
      else seq (say (SysPut STDERR_FILENO ''rtt, srtt, rttvar, rto'')) (say (SysOther ''fflush'' [STDERR_FILENO] [])))"

subsection \<open>rtt/dg_send_recv.c\<close>

text \<open>
  The static variables.  A \<open>struct hdr\<close> is its eight bytes in the order of the machine.
\<close>

record dg =
  rttinfo :: rtt_info
  rttinit :: bool
  seqno :: "32 word" \<comment> \<open>\<open>sendhdr.seq\<close>\<close>
  recvhdr :: string

definition le32 :: "32 word \<Rightarrow> string" where
  "le32 v = map (\<lambda>i. char_of (unat v div 256 ^ i)) [0..<4]"

definition get32 :: "string \<Rightarrow> 32 word" where
  "get32 s = of_nat (foldr (\<lambda>c acc. of_char c + 256 * acc) (take 4 s) 0)"

definition hdr_bytes :: "32 word \<Rightarrow> 32 word \<Rightarrow> string" where
  "hdr_bytes sq ts = le32 sq @ le32 ts"

definition hdr_seq :: "string \<Rightarrow> 32 word" where "hdr_seq s = get32 s"
definition hdr_ts :: "string \<Rightarrow> 32 word" where "hdr_ts s = get32 (drop 4 s)"

definition overwrite :: "string \<Rightarrow> string \<Rightarrow> string" where
  \<comment> \<open>new bytes at the front of a buffer\<close>
  "overwrite new old = new @ drop (length new) old"

text \<open>From \<open>sendagain:\<close> to the call of \<open>rtt_debug\<close>.\<close>

definition send_request :: "int \<Rightarrow> string \<Rightarrow> dg \<Rightarrow> unit io" where
  "send_request fd outbuff st =
     seq (say (SysPut STDERR_FILENO (''send '' @ pad_left 4 (dec_int (sint (seqno st))) @ '': '')))
    (bind (rtt_ts (rttinfo st)) (\<lambda>ts.
     seq (Sendmsg fd [hdr_bytes (seqno st) ts, outbuff] 0)
    (seq (call (SysOther ''alarm'' [rtt_start (rttinfo st)] []))
    (rtt_debug 1))))"

text \<open>
  The \<open>SIGALRM\<close> handler jumps out of the \<open>recvmsg\<close> it interrupts: an answer with \<open>r_num\<close> 1
  is such an interruption.  It may come in no other place of the model.  After it the code
  backs off and sends again, or gives up; after any other answer it checks the header.
\<close>

definition dg_step :: "int \<Rightarrow> string \<Rightarrow> nat \<Rightarrow> dg \<Rightarrow> (dg + (int \<times> string \<times> dg)) io" where
  "dg_step fd outbuff inbytes = (\<lambda>st.
     bind (sys (SysRecvmsg fd (8 + inbytes) 0)) (\<lambda>r.
     if r_num r = 1 then
       (let (rc, info) = rtt_timeout (rttinfo st);
            st = st\<lparr>rttinfo := info\<rparr>
        in if rc < 0 then
             seq (err_msg ''dg_send_recv: no response from server, giving up'')
            (seq (set_errno ETIMEDOUT)
            (stop (- 1, [], st\<lparr>rttinit := False\<rparr>))) \<comment> \<open>reinit in case we're called again\<close>
           else
             seq (err_msg ''dg_send_recv: timeout, retransmitting'')
            (seq (send_request fd outbuff st) (again st)))
     else
       bind (unless_neg ''recvmsg error'' (r_val r)) (\<lambda>n.
       let st = st\<lparr>recvhdr := overwrite (take 8 (r_data r)) (recvhdr st)\<rparr> in
       seq (say (SysPut STDERR_FILENO
         (''recv '' @ pad_left 4 (dec_int (sint (hdr_seq (recvhdr st)))) @ [newline])))
      (if n < 8 \<or> hdr_seq (recvhdr st) \<noteq> seqno st then again st
       else
         bind (call (SysOther ''alarm'' [0] [])) (\<lambda>_. \<comment> \<open>stop SIGALRM timer\<close>
         bind (rtt_ts (rttinfo st)) (\<lambda>now.
         let st = st\<lparr>rttinfo := rtt_stop (rttinfo st) (now - hdr_ts (recvhdr st))\<rparr>
         in stop (n - 8, drop 8 (r_data r), st)))))))"

definition dg_send_recv :: "int \<Rightarrow> string \<Rightarrow> nat \<Rightarrow> dg \<Rightarrow> (int \<times> string \<times> dg) io" where
  \<comment> \<open>the return value, the contents of \<open>inbuff\<close>, the static variables\<close>
  "dg_send_recv fd outbuff inbytes st =
     bind (if rttinit st then ret st
           else bind (rtt_init (rttinfo st)) (\<lambda>info. ret (st\<lparr>rttinfo := info, rttinit := True\<rparr>))) (\<lambda>st.
     let st = st\<lparr>seqno := seqno st + 1\<rparr> in
     bind (Signal SIGALRM ''sig_alrm'') (\<lambda>_.
     let st = st\<lparr>rttinfo := rtt_newpack (rttinfo st)\<rparr> in
     seq (send_request fd outbuff st)
    (loop (dg_step fd outbuff inbytes) st)))"

definition Dg_send_recv :: "int \<Rightarrow> string \<Rightarrow> nat \<Rightarrow> dg \<Rightarrow> (int \<times> string \<times> dg) io" where
  "Dg_send_recv fd outbuff inbytes st =
     bind (dg_send_recv fd outbuff inbytes st) (\<lambda>(n, inbuff, st).
     if n < 0 then err_quit ''dg_send_recv error'' else ret (n, inbuff, st))"


subsection \<open>The estimator\<close>

lemma rtt_minmax_bounds: "RTT_RXTMIN \<le> rtt_minmax x \<and> rtt_minmax x \<le> RTT_RXTMAX"
  by (simp add: rtt_minmax_def RTT_RXTMIN_def RTT_RXTMAX_def)

definition rtt_ok :: "rtt_info \<Rightarrow> bool" where
  "rtt_ok p \<longleftrightarrow> 0 \<le> rtt_srtt p \<and> 0 \<le> rtt_rttvar p \<and> RTT_RXTMIN \<le> rtt_rto p"

lemma rtt_start_bounds: "2 \<le> rtt_rto p \<Longrightarrow> rtt_rto p \<le> 60 \<Longrightarrow> 2 \<le> rtt_start p \<and> rtt_start p \<le> 60"
  by (simp add: rtt_start_def le_floor_iff floor_le_iff)

subsection \<open>What the loop does\<close>

text \<open>The requests a trace has sent, as the first eight bytes and the data of each.\<close>

definition requests :: "int \<Rightarrow> (syscall \<times> sysret) list \<Rightarrow> string list list" where
  "requests fd hist =
     concat (map (\<lambda>e. case e of
       (SysOther nm (f # _) iov, _) \<Rightarrow> if nm = ''sendmsg'' \<and> f = fd then [iov] else [] | _ \<Rightarrow> []) hist)"


text \<open>All requests from \<open>hist\<close> on carry the sequence number \<open>q\<close> and the data \<open>out\<close>.\<close>

definition sent_ok :: "int \<Rightarrow> string \<Rightarrow> 32 word \<Rightarrow> (syscall \<times> sysret) list \<Rightarrow> nat \<Rightarrow> world \<Rightarrow> bool" where
  "sent_ok fd out q hist n w \<longleftrightarrow>
     (\<exists>new. trace w = hist @ new \<and> length (requests fd new) = n \<and>
        (\<forall>iov \<in> set (requests fd new). \<exists>ts. iov = [hdr_bytes q ts, out]))"




definition dg_post :: "int \<Rightarrow> string \<Rightarrow> 32 word \<Rightarrow> (syscall \<times> sysret) list \<Rightarrow> (int \<times> string \<times> dg) res \<Rightarrow> world \<Rightarrow> bool" where
  "dg_post fd out q hist r w =
     (case r of
        Val (v, inbuff, st) \<Rightarrow> seqno st = q \<and>
          (v = - 1 \<and> errno w = ETIMEDOUT \<and> \<not> rttinit st \<and> sent_ok fd out q hist 4 w \<or>
           v = int (length inbuff) \<and> rttinit st \<and>
             RTT_RXTMIN \<le> rtt_rto (rttinfo st) \<and> rtt_rto (rttinfo st) \<le> RTT_RXTMAX \<and>
             (\<exists>n. 1 \<le> n \<and> n \<le> 4 \<and> sent_ok fd out q hist n w) \<and>
             (\<exists>m a. (SysRecvmsg fd m 0, a) \<in> set (trace w) \<and> 8 \<le> length (r_data a) \<and>
                hdr_seq (r_data a) = q \<and> inbuff = drop 8 (r_data a)))
      | Undef \<Rightarrow> False
      | _ \<Rightarrow> True)"

lemma dg_post_simps [simp]:
  "dg_post fd out q hist (Exited c) w \<longleftrightarrow> True" "dg_post fd out q hist Blocked w \<longleftrightarrow> True"
  "dg_post fd out q hist Undef w \<longleftrightarrow> False"
  by (simp_all add: dg_post_def)

lemma rtt_timeout_simps [simp]:
  "rtt_nrexmt (snd (rtt_timeout p)) = rtt_nrexmt p + 1"
  "rtt_rto (snd (rtt_timeout p)) = 2 * rtt_rto p"
  "fst (rtt_timeout p) < 0 \<longleftrightarrow> RTT_MAXNREXMT < rtt_nrexmt p + 1"
  by (simp_all add: rtt_timeout_def Let_def)

lemma rtt_stop_rto: "RTT_RXTMIN \<le> rtt_rto (rtt_stop p ms) \<and> rtt_rto (rtt_stop p ms) \<le> RTT_RXTMAX"
  using rtt_minmax_bounds by (simp add: rtt_stop_def Let_def)

lemma shrinks_send_request [eating]: "shrinks (send_request fd out st)"
  unfolding send_request_def rtt_ts_def Gettimeofday_def Sendmsg_def rtt_debug_def Let_def
  by (intro eating)






lemma shrinks_misc [eating]: "shrinks (Signal s f)" "shrinks Gettimeofday" "shrinks (rtt_init p)"
  unfolding Signal_def signal_def Gettimeofday_def rtt_init_def Let_def by (intro eating)+



subsection \<open>Properties\<close>

text \<open>C31: \<open>rtt_init\<close> sets the timer to 3 seconds.  \<open>rtt_stop\<close> moves the smoothed round-trip time
  an eighth of the way to the measurement and the deviation a quarter of the way to the
  measured one, both stay nonnegative, and sets the timer to the first plus four times the
  second, cut to the range from \<open>RTT_RXTMIN\<close> to \<open>RTT_RXTMAX\<close> seconds; after it \<open>rtt_start\<close> gives
  \<open>alarm\<close> an integer in that range.  \<open>rtt_timeout\<close> doubles the timer and does not cut it.  The
  numbers are exact: the rounding of the \<open>float\<close>s is not modelled.\<close>

theorem rtt_estimator:
  assumes "0 \<le> rtt_srtt p" "0 \<le> rtt_rttvar p"
  shows "rtt_rto (rtt_start_values p b) = 3 \<and>
    2 \<le> rtt_start (rtt_stop p ms) \<and> rtt_start (rtt_stop p ms) \<le> 60 \<and>
    rtt_srtt (rtt_stop p ms) = 7 / 8 * rtt_srtt p + 1 / 8 * (of_int (uint ms) / 1000) \<and>
    rtt_rttvar (rtt_stop p ms) = 3 / 4 * rtt_rttvar p + 1 / 4 * \<bar>of_int (uint ms) / 1000 - rtt_srtt p\<bar> \<and>
    rtt_rto (rtt_stop p ms) = max 2 (min 60 (rtt_srtt (rtt_stop p ms) + 4 * rtt_rttvar (rtt_stop p ms))) \<and>
    0 \<le> rtt_srtt (rtt_stop p ms) \<and> 0 \<le> rtt_rttvar (rtt_stop p ms) \<and> rtt_ok (rtt_stop p ms) \<and>
    rtt_rto (snd (rtt_timeout p)) = 2 * rtt_rto p"
proof -
  have rto: "2 \<le> rtt_rto (rtt_stop p ms)" "rtt_rto (rtt_stop p ms) \<le> 60"
    using rtt_stop_rto [of p ms] by (simp_all add: RTT_RXTMIN_def RTT_RXTMAX_def)
  have srtt: "rtt_srtt (rtt_stop p ms) = 7 / 8 * rtt_srtt p + 1 / 8 * (of_int (uint ms) / 1000)"
    by (simp add: rtt_stop_def Let_def field_simps)
  have rttvar: "rtt_rttvar (rtt_stop p ms) = 3 / 4 * rtt_rttvar p + 1 / 4 * \<bar>of_int (uint ms) / 1000 - rtt_srtt p\<bar>"
    by (simp add: rtt_stop_def Let_def field_simps abs_if)
  have calc: "rtt_rto (rtt_stop p ms) = max 2 (min 60 (rtt_srtt (rtt_stop p ms) + 4 * rtt_rttvar (rtt_stop p ms)))"
    by (simp add: rtt_stop_def Let_def rtt_minmax_def RTT_RTOCALC_def RTT_RXTMIN_def RTT_RXTMAX_def)
  have "0 \<le> 7 / 8 * rtt_srtt p + 1 / 8 * (of_int n / 1000)" if "0 \<le> n" for n
    using assms(1) that by simp
  from this [of "uint ms"] have pos: "0 \<le> rtt_srtt (rtt_stop p ms)" unfolding srtt by simp
  have var: "0 \<le> rtt_rttvar (rtt_stop p ms)"
    using assms(2) by (simp add: rtt_stop_def Let_def field_simps)
  have "rtt_rto (rtt_start_values p b) = 3"
    by (simp add: rtt_start_values_def RTT_RTOCALC_def rtt_minmax_def RTT_RXTMIN_def RTT_RXTMAX_def)
  moreover have "rtt_ok (rtt_stop p ms)"
    using rto pos var by (simp add: rtt_ok_def RTT_RXTMIN_def)
  ultimately show ?thesis
    using srtt rttvar calc pos var rtt_start_bounds [OF rto] by (intro conjI) simp_all
qed

definition rtt_example :: rtt_info where
  "rtt_example = \<lparr>rtt_rtt = 0, rtt_srtt = 1, rtt_rttvar = 1 / 2, rtt_rto = 3, rtt_nrexmt = 0, rtt_base = 0\<rparr>"

theorem rtt_estimator_witness:
  "rtt_rto (rtt_start_values rtt_example 9) = 3 \<and>
    2 \<le> rtt_start (rtt_stop rtt_example 1500) \<and> rtt_start (rtt_stop rtt_example 1500) \<le> 60 \<and>
    rtt_srtt (rtt_stop rtt_example 1500) =
      7 / 8 * rtt_srtt rtt_example + 1 / 8 * (of_int (uint (1500 :: 32 word)) / 1000) \<and>
    rtt_rttvar (rtt_stop rtt_example 1500) =
      3 / 4 * rtt_rttvar rtt_example + 1 / 4 * \<bar>of_int (uint (1500 :: 32 word)) / 1000 - rtt_srtt rtt_example\<bar> \<and>
    rtt_rto (rtt_stop rtt_example 1500) = max 2 (min 60 (rtt_srtt (rtt_stop rtt_example 1500) +
      4 * rtt_rttvar (rtt_stop rtt_example 1500))) \<and>
    0 \<le> rtt_srtt (rtt_stop rtt_example 1500) \<and> 0 \<le> rtt_rttvar (rtt_stop rtt_example 1500) \<and>
    rtt_ok (rtt_stop rtt_example 1500) \<and>
    rtt_rto (snd (rtt_timeout rtt_example)) = 2 * rtt_rto rtt_example"
  by (rule rtt_estimator) (simp_all add: rtt_example_def)

fun timeouts :: "nat \<Rightarrow> rtt_info \<Rightarrow> int list \<times> rtt_info" where
  \<comment> \<open>the results of consecutive timeouts\<close>
  "timeouts 0 p = ([], p)"
| "timeouts (Suc n) p =
     (let (rc, p) = rtt_timeout p; (rcs, p) = timeouts n p in (rc # rcs, p))"

text \<open>\<open>rtt_timeout\<close> doubles the timer each time and gives up at the fourth timeout of a
  packet, after three retransmissions; the doubled timer is not limited by \<open>RTT_RXTMAX\<close>: it
  may reach eight times that value for the last retransmission.\<close>

theorem rtt_backoff:
  "fst (timeouts 4 (rtt_newpack p)) = [0, 0, 0, - 1] \<and>
   rtt_rto (snd (timeouts k (rtt_newpack p))) = 2 ^ k * rtt_rto p \<and>
   rtt_rto (snd (timeouts 3 (rtt_newpack (p\<lparr>rtt_rto := RTT_RXTMAX\<rparr>)))) = 8 * RTT_RXTMAX"
proof -
  have rto: "rtt_rto (snd (timeouts k p)) = 2 ^ k * rtt_rto p" for k p
  proof (induction k arbitrary: p)
    case (Suc k)
    have "rtt_rto (snd (timeouts (Suc k) p)) = rtt_rto (snd (timeouts k (snd (rtt_timeout p))))"
      by (simp add: Let_def case_prod_beta)
    then show ?case by (simp only: Suc rtt_timeout_simps) simp
  qed simp
  have "rtt_rto (rtt_newpack p) = rtt_rto p" for p by (simp add: rtt_newpack_def)
  moreover have "fst (timeouts 4 (rtt_newpack p)) = [0, 0, 0, - 1]"
    by (simp add: eval_nat_numeral rtt_timeout_def rtt_newpack_def RTT_MAXNREXMT_def)
  ultimately show ?thesis by (simp add: rto)
qed




end
