(* ===== verification/Mcast.thy ===== *)
theory Mcast
  imports SockAddr
begin

text \<open>
  Multicast groups and options: lib/mcast_join.c, lib/mcast_leave.c, lib/mcast_set_if.c,
  lib/mcast_set_loop.c, lib/mcast_set_ttl.c, lib/mcast_get_if.c, lib/mcast_get_loop.c and
  lib/mcast_get_ttl.c.

  The joins have two bodies, one for headers that define \<open>MCAST_JOIN_GROUP\<close> and the like,
  one for headers that do not.  Those headers are not in the repository: the flag \<open>api\<close> says
  which body was compiled.  An option that is a structure is \<open>SysSetsockoptReq\<close> with its
  interface index and its addresses.  Proved here: a join makes exactly one request, for the
  group it was given, or none and fails with the right \<open>errno\<close>; and what a TTL becomes.
\<close>

definition ENXIO :: int where "ENXIO = 6"
definition IP_MULTICAST_IF :: int where "IP_MULTICAST_IF = 9"
definition IP_MULTICAST_TTL :: int where "IP_MULTICAST_TTL = 10"
definition IP_MULTICAST_LOOP :: int where "IP_MULTICAST_LOOP = 11"
definition IP_ADD_MEMBERSHIP :: int where "IP_ADD_MEMBERSHIP = 12"
definition IP_DROP_MEMBERSHIP :: int where "IP_DROP_MEMBERSHIP = 13"
definition IP_ADD_SOURCE_MEMBERSHIP :: int where "IP_ADD_SOURCE_MEMBERSHIP = 70"
definition IP_DROP_SOURCE_MEMBERSHIP :: int where "IP_DROP_SOURCE_MEMBERSHIP = 71"
definition IP_BLOCK_SOURCE :: int where "IP_BLOCK_SOURCE = 72"
definition IP_UNBLOCK_SOURCE :: int where "IP_UNBLOCK_SOURCE = 73"
definition IPV6_MULTICAST_IF :: int where "IPV6_MULTICAST_IF = 9"
definition IPV6_MULTICAST_HOPS :: int where "IPV6_MULTICAST_HOPS = 10"
definition IPV6_MULTICAST_LOOP :: int where "IPV6_MULTICAST_LOOP = 11"
definition IPV6_JOIN_GROUP :: int where "IPV6_JOIN_GROUP = 12"
definition IPV6_LEAVE_GROUP :: int where "IPV6_LEAVE_GROUP = 13"
definition MCAST_JOIN_GROUP :: int where "MCAST_JOIN_GROUP = 80"
definition MCAST_LEAVE_GROUP :: int where "MCAST_LEAVE_GROUP = 81"
definition MCAST_JOIN_SOURCE_GROUP :: int where "MCAST_JOIN_SOURCE_GROUP = 82"
definition MCAST_LEAVE_SOURCE_GROUP :: int where "MCAST_LEAVE_SOURCE_GROUP = 83"
definition MCAST_BLOCK_SOURCE :: int where "MCAST_BLOCK_SOURCE = 84"
definition MCAST_UNBLOCK_SOURCE :: int where "MCAST_UNBLOCK_SOURCE = 85"
definition SIOCGIFADDR :: int where "SIOCGIFADDR = 0xc0206921"
definition INADDR_ANY :: "8 word list" where "INADDR_ANY = [0, 0, 0, 0]"
definition STORAGE_SIZE :: nat where \<comment> \<open>\<open>sizeof(struct sockaddr_storage)\<close>\<close>
  "STORAGE_SIZE = 128"

subsection \<open>Interfaces\<close>

definition minus1 :: "int \<Rightarrow> int io" where
  \<comment> \<open>\<open>errno = e; return(-1)\<close>\<close>
  "minus1 e = seq (set_errno e) (ret (- 1))"

definition addr4 :: "sockaddr \<Rightarrow> 8 word list" where
  \<comment> \<open>\<open>sin_addr\<close> of an address taken as a \<open>sockaddr_in\<close>\<close>
  "addr4 sa = (case sa of SaIn _ a \<Rightarrow> a | _ \<Rightarrow> INADDR_ANY)"

text \<open>
  The choice of the interface by index: a positive \<open>ifindex\<close>, else the index of \<open>ifname\<close>,
  else 0.  \<open>use\<close> is the rest of the function.
\<close>

definition with_ifindex :: "string option \<Rightarrow> int \<Rightarrow> (int \<Rightarrow> int io) \<Rightarrow> int io" where
  "with_ifindex ifname ifindex use =
     (if 0 < ifindex then use ifindex
      else (case ifname of
          Some nm \<Rightarrow>
            bind (call (SysOther ''if_nametoindex'' [] [nm])) (\<lambda>i.
            if i = 0 then minus1 ENXIO \<comment> \<open>i/f name not found\<close>
            else use i)
        | None \<Rightarrow> use 0))"

text \<open>
  The choice of the interface by its IPv4 address.  \<open>SIOCGIFADDR\<close> is asked with the name, of
  which \<open>strncpy\<close> keeps at most \<open>IFNAMSIZ\<close> (16) bytes.
\<close>

definition doioctl :: "int \<Rightarrow> string \<Rightarrow> (8 word list \<Rightarrow> int io) \<Rightarrow> int io" where
  "doioctl sockfd nm use =
     bind (sys (SysOther ''ioctl'' [sockfd, SIOCGIFADDR] [nm])) (\<lambda>r.
     if r_val r < 0 then ret (- 1) else use (addr4 (r_addr r)))"

definition with_ifaddr :: "int \<Rightarrow> string option \<Rightarrow> int \<Rightarrow> (8 word list \<Rightarrow> int io) \<Rightarrow> int io" where
  "with_ifaddr sockfd ifname ifindex use =
     (if 0 < ifindex then
        bind (sys (SysOther ''if_indextoname'' [ifindex] [])) (\<lambda>r.
        if r_val r = 0 then minus1 ENXIO \<comment> \<open>i/f index not found\<close>
        else doioctl sockfd (r_data r) use)
      else (case ifname of
          Some nm \<Rightarrow> doioctl sockfd (take 16 nm) use
        | None \<Rightarrow> use INADDR_ANY))"

subsection \<open>lib/mcast_join.c\<close>

definition mcast_join :: "bool \<Rightarrow> int \<Rightarrow> sockaddr \<Rightarrow> nat \<Rightarrow> string option \<Rightarrow> int \<Rightarrow> int io" where
  "mcast_join api sockfd grp grplen ifname ifindex =
     (if api then
        with_ifindex ifname ifindex (\<lambda>i.
        if STORAGE_SIZE < grplen then minus1 EINVAL
        else call (SysSetsockoptReq sockfd (family_to_level (sa_family grp)) MCAST_JOIN_GROUP i [grp]))
      else (case grp of
          SaIn _ a \<Rightarrow>
            with_ifaddr sockfd ifname ifindex (\<lambda>ia.
            call (SysSetsockoptReq sockfd IPPROTO_IP IP_ADD_MEMBERSHIP 0 [SaIn 0 a, SaIn 0 ia]))
        | SaIn6 _ a _ \<Rightarrow>
            with_ifindex ifname ifindex (\<lambda>i.
            call (SysSetsockoptReq sockfd IPPROTO_IPV6 IPV6_JOIN_GROUP i [SaIn6 0 a 0]))
        | _ \<Rightarrow> minus1 EAFNOSUPPORT))"

definition or_err_sys :: "string \<Rightarrow> int io \<Rightarrow> unit io" where
  "or_err_sys msg m = bind m (\<lambda>n. if n < 0 then err_sys msg else ret ())"

definition Mcast_join :: "bool \<Rightarrow> int \<Rightarrow> sockaddr \<Rightarrow> nat \<Rightarrow> string option \<Rightarrow> int \<Rightarrow> unit io" where
  "Mcast_join api sockfd grp grplen ifname ifindex =
     or_err_sys ''mcast_join error'' (mcast_join api sockfd grp grplen ifname ifindex)"

definition mcast_join_source_group ::
    "bool \<Rightarrow> int \<Rightarrow> sockaddr \<Rightarrow> nat \<Rightarrow> sockaddr \<Rightarrow> nat \<Rightarrow> string option \<Rightarrow> int \<Rightarrow> int io" where
  "mcast_join_source_group api sockfd src srclen grp grplen ifname ifindex =
     (if api then
        with_ifindex ifname ifindex (\<lambda>i.
        if STORAGE_SIZE < grplen \<or> STORAGE_SIZE < srclen then minus1 EINVAL
        else call (SysSetsockoptReq sockfd (family_to_level (sa_family grp))
               MCAST_JOIN_SOURCE_GROUP i [grp, src]))
      else (case grp of
          SaIn _ a \<Rightarrow>
            with_ifaddr sockfd ifname ifindex (\<lambda>ia.
            call (SysSetsockoptReq sockfd IPPROTO_IP IP_ADD_SOURCE_MEMBERSHIP 0
              [SaIn 0 a, SaIn 0 (addr4 src), SaIn 0 ia]))
        | _ \<Rightarrow> minus1 EAFNOSUPPORT))"

definition Mcast_join_source_group ::
    "bool \<Rightarrow> int \<Rightarrow> sockaddr \<Rightarrow> nat \<Rightarrow> sockaddr \<Rightarrow> nat \<Rightarrow> string option \<Rightarrow> int \<Rightarrow> unit io" where
  "Mcast_join_source_group api sockfd src srclen grp grplen ifname ifindex =
     or_err_sys ''mcast_join_source_group error''
       (mcast_join_source_group api sockfd src srclen grp grplen ifname ifindex)"

text \<open>
  \<open>mcast_block_source\<close>, \<open>mcast_unblock_source\<close> and \<open>mcast_leave_source_group\<close> differ in the
  names of the options only.
\<close>

definition source_request ::
    "bool \<Rightarrow> int \<Rightarrow> int \<Rightarrow> int \<Rightarrow> sockaddr \<Rightarrow> nat \<Rightarrow> sockaddr \<Rightarrow> nat \<Rightarrow> int io" where
  "source_request api mcast_opt ip_opt sockfd src srclen grp grplen =
     (if api then
        (if STORAGE_SIZE < grplen \<or> STORAGE_SIZE < srclen then minus1 EINVAL
         else call (SysSetsockoptReq sockfd (family_to_level (sa_family grp)) mcast_opt 0 [grp, src]))
      else (case grp of
          SaIn _ a \<Rightarrow>
            call (SysSetsockoptReq sockfd IPPROTO_IP ip_opt 0
              [SaIn 0 a, SaIn 0 (addr4 src), SaIn 0 INADDR_ANY])
        | _ \<Rightarrow> minus1 EAFNOSUPPORT))"

definition mcast_block_source :: "bool \<Rightarrow> int \<Rightarrow> sockaddr \<Rightarrow> nat \<Rightarrow> sockaddr \<Rightarrow> nat \<Rightarrow> int io" where
  "mcast_block_source api = source_request api MCAST_BLOCK_SOURCE IP_BLOCK_SOURCE"

definition Mcast_block_source :: "bool \<Rightarrow> int \<Rightarrow> sockaddr \<Rightarrow> nat \<Rightarrow> sockaddr \<Rightarrow> nat \<Rightarrow> unit io" where
  "Mcast_block_source api sockfd src srclen grp grplen =
     or_err_sys ''mcast_block_source error'' (mcast_block_source api sockfd src srclen grp grplen)"

definition mcast_unblock_source :: "bool \<Rightarrow> int \<Rightarrow> sockaddr \<Rightarrow> nat \<Rightarrow> sockaddr \<Rightarrow> nat \<Rightarrow> int io" where
  "mcast_unblock_source api = source_request api MCAST_UNBLOCK_SOURCE IP_UNBLOCK_SOURCE"

definition Mcast_unblock_source :: "bool \<Rightarrow> int \<Rightarrow> sockaddr \<Rightarrow> nat \<Rightarrow> sockaddr \<Rightarrow> nat \<Rightarrow> unit io" where
  "Mcast_unblock_source api sockfd src srclen grp grplen =
     or_err_sys ''mcast_unblock_source error'' (mcast_unblock_source api sockfd src srclen grp grplen)"

subsection \<open>lib/mcast_leave.c\<close>

definition mcast_leave :: "bool \<Rightarrow> int \<Rightarrow> sockaddr \<Rightarrow> nat \<Rightarrow> int io" where
  "mcast_leave api sockfd grp grplen =
     (if api then
        (if STORAGE_SIZE < grplen then minus1 EINVAL
         else call (SysSetsockoptReq sockfd (family_to_level (sa_family grp)) MCAST_LEAVE_GROUP 0 [grp]))
      else (case grp of
          SaIn _ a \<Rightarrow>
            call (SysSetsockoptReq sockfd IPPROTO_IP IP_DROP_MEMBERSHIP 0 [SaIn 0 a, SaIn 0 INADDR_ANY])
        | SaIn6 _ a _ \<Rightarrow>
            call (SysSetsockoptReq sockfd IPPROTO_IPV6 IPV6_LEAVE_GROUP 0 [SaIn6 0 a 0])
        | _ \<Rightarrow> minus1 EAFNOSUPPORT))"

definition Mcast_leave :: "bool \<Rightarrow> int \<Rightarrow> sockaddr \<Rightarrow> nat \<Rightarrow> unit io" where
  "Mcast_leave api sockfd grp grplen =
     or_err_sys ''mcast_leave error'' (mcast_leave api sockfd grp grplen)"

definition mcast_leave_source_group ::
    "bool \<Rightarrow> int \<Rightarrow> sockaddr \<Rightarrow> nat \<Rightarrow> sockaddr \<Rightarrow> nat \<Rightarrow> int io" where
  "mcast_leave_source_group api =
     source_request api MCAST_LEAVE_SOURCE_GROUP IP_DROP_SOURCE_MEMBERSHIP"

definition Mcast_leave_source_group ::
    "bool \<Rightarrow> int \<Rightarrow> sockaddr \<Rightarrow> nat \<Rightarrow> sockaddr \<Rightarrow> nat \<Rightarrow> unit io" where
  "Mcast_leave_source_group api sockfd src srclen grp grplen =
     or_err_sys ''mcast_leave_source_group error''
       (mcast_leave_source_group api sockfd src srclen grp grplen)"

subsection \<open>Options\<close>

text \<open>\<open>switch (sockfd_to_family(sockfd))\<close> with a default that fails.\<close>

definition by_family :: "int \<Rightarrow> int io \<Rightarrow> int io \<Rightarrow> int io" where
  "by_family sockfd m4 m6 =
     bind (sockfd_to_family sockfd) (\<lambda>fam.
     if fam = AF_INET then m4 else if fam = AF_INET6 then m6 else minus1 EAFNOSUPPORT)"

definition mcast_set_if :: "int \<Rightarrow> string option \<Rightarrow> int \<Rightarrow> int io" where
  "mcast_set_if sockfd ifname ifindex =
     by_family sockfd
       (with_ifaddr sockfd ifname ifindex (\<lambda>ia.
          call (SysSetsockoptReq sockfd IPPROTO_IP IP_MULTICAST_IF 0 [SaIn 0 ia])))
       (bind (if ifindex = 0 then
                (case ifname of
                   None \<Rightarrow> bind (minus1 EINVAL) (\<lambda>_. ret None) \<comment> \<open>must supply either index or name\<close>
                 | Some nm \<Rightarrow>
                     bind (call (SysOther ''if_nametoindex'' [] [nm])) (\<lambda>i.
                     if i = 0 then bind (minus1 ENXIO) (\<lambda>_. ret None) else ret (Some i)))
              else ret (Some ifindex))
          (\<lambda>idx. case idx of
              None \<Rightarrow> ret (- 1)
            | Some i \<Rightarrow> call (SysSetsockopt sockfd IPPROTO_IPV6 IPV6_MULTICAST_IF i)))"

definition Mcast_set_if :: "int \<Rightarrow> string option \<Rightarrow> int \<Rightarrow> unit io" where
  "Mcast_set_if sockfd ifname ifindex =
     or_err_sys ''mcast_set_if error'' (mcast_set_if sockfd ifname ifindex)"

text \<open>The IPv4 options are a \<open>u_char\<close>; the IPv6 ones an \<open>int\<close> or an unsigned \<open>int\<close>.\<close>

definition mcast_set_loop :: "int \<Rightarrow> int \<Rightarrow> int io" where
  "mcast_set_loop sockfd onoff =
     by_family sockfd
       (call (SysSetsockopt sockfd IPPROTO_IP IP_MULTICAST_LOOP (uint (of_int onoff :: 8 word))))
       (call (SysSetsockopt sockfd IPPROTO_IPV6 IPV6_MULTICAST_LOOP (uint (of_int onoff :: 32 word))))"

definition Mcast_set_loop :: "int \<Rightarrow> int \<Rightarrow> unit io" where
  "Mcast_set_loop sockfd onoff = or_err_sys ''mcast_set_loop error'' (mcast_set_loop sockfd onoff)"

definition mcast_set_ttl :: "int \<Rightarrow> int \<Rightarrow> int io" where
  "mcast_set_ttl sockfd val =
     by_family sockfd
       (call (SysSetsockopt sockfd IPPROTO_IP IP_MULTICAST_TTL (uint (of_int val :: 8 word))))
       (call (SysSetsockopt sockfd IPPROTO_IPV6 IPV6_MULTICAST_HOPS val))"

definition Mcast_set_ttl :: "int \<Rightarrow> int \<Rightarrow> unit io" where
  "Mcast_set_ttl sockfd val = or_err_sys ''mcast_set_ttl error'' (mcast_set_ttl sockfd val)"

definition get_option :: "int \<Rightarrow> int \<Rightarrow> int \<Rightarrow> (int \<Rightarrow> int) \<Rightarrow> int io" where
  \<comment> \<open>\<open>conv\<close> reads the option at the width of the variable that receives it\<close>
  "get_option sockfd level opt conv =
     bind (sys (SysGetsockopt sockfd level opt)) (\<lambda>r.
     ret (if r_val r < 0 then - 1 else conv (r_num r)))"

definition u_char :: "int \<Rightarrow> int" where "u_char v = uint (of_int v :: 8 word)"

definition mcast_get_if :: "int \<Rightarrow> int io" where
  "mcast_get_if sockfd =
     by_family sockfd (ret (- 1)) \<comment> \<open>TODO in the code\<close>
       (get_option sockfd IPPROTO_IPV6 IPV6_MULTICAST_IF to_int)"

definition mcast_get_loop :: "int \<Rightarrow> int io" where
  "mcast_get_loop sockfd =
     by_family sockfd (get_option sockfd IPPROTO_IP IP_MULTICAST_LOOP u_char)
       (get_option sockfd IPPROTO_IPV6 IPV6_MULTICAST_LOOP to_int)"

definition mcast_get_ttl :: "int \<Rightarrow> int io" where
  "mcast_get_ttl sockfd =
     by_family sockfd (get_option sockfd IPPROTO_IP IP_MULTICAST_TTL u_char)
       (get_option sockfd IPPROTO_IPV6 IPV6_MULTICAST_HOPS to_int)"

definition Mcast_get_if :: "int \<Rightarrow> int io" where
  "Mcast_get_if sockfd = bind (mcast_get_if sockfd) (unless_neg ''mcast_get_if error'')"

definition Mcast_get_loop :: "int \<Rightarrow> int io" where
  "Mcast_get_loop sockfd = bind (mcast_get_loop sockfd) (unless_neg ''mcast_get_loop error'')"

definition Mcast_get_ttl :: "int \<Rightarrow> int io" where
  "Mcast_get_ttl sockfd = bind (mcast_get_ttl sockfd) (unless_neg ''mcast_get_ttl error'')"

subsection \<open>The request a join makes\<close>

definition memberships :: "(syscall \<times> sysret) list \<Rightarrow> (int \<times> int \<times> int \<times> int \<times> sockaddr list) list" where
  \<comment> \<open>descriptor, level, option, interface index and addresses of every request\<close>
  "memberships hist =
     concat (map (\<lambda>e. case e of (SysSetsockoptReq fd lv opt i as, _) \<Rightarrow> [(fd, lv, opt, i, as)] | _ \<Rightarrow> []) hist)"

lemma memberships_simps [simp]:
  "memberships [] = []" "memberships (a @ b) = memberships a @ memberships b"
  "memberships ((SysSetsockoptReq fd lv opt i as, r) # es) = (fd, lv, opt, i, as) # memberships es"
  "memberships ((SysOther nm is ss, r) # es) = memberships es"
  by (simp_all add: memberships_def)

definition index_for :: "string option \<Rightarrow> int \<Rightarrow> int \<Rightarrow> bool" where
  "index_for ifname ifindex i =
     (if 0 < ifindex then i = ifindex else if ifname = None then i = 0 else i \<noteq> 0)"

definition wanted_if :: "string option \<Rightarrow> int \<Rightarrow> int \<Rightarrow> sockaddr list \<Rightarrow> bool" where
  \<comment> \<open>the interface of a request: an index, or for an \<open>ip_mreq\<close> the last address\<close>
  "wanted_if ifname ifindex i as \<longleftrightarrow>
     (case as of
        [_, SaIn _ ia] \<Rightarrow> 0 < ifindex \<or> ifname \<noteq> None \<or> ia = INADDR_ANY
      | _ \<Rightarrow> index_for ifname ifindex i)"

definition join_post :: "int \<Rightarrow> sockaddr \<Rightarrow> string option \<Rightarrow> int \<Rightarrow> (int \<times> int \<times> int \<times> int \<times> sockaddr list) list \<Rightarrow>
    int res \<Rightarrow> world \<Rightarrow> bool" where
  "join_post fd grp ifname ifindex before r w =
     (case r of
        Val n \<Rightarrow>
          memberships (trace w) = before \<and> n = - 1 \<and>
            (errno w \<in> {ENXIO, EINVAL, EAFNOSUPPORT} \<or>
             (\<exists>nm a. last (trace w) = (SysOther ''ioctl'' [fd, SIOCGIFADDR] [nm], a) \<and> r_val a < 0)) \<or>
          (\<exists>lv opt i as a. memberships (trace w) = before @ [(fd, lv, opt, i, as)] \<and>
             last (trace w) = (SysSetsockoptReq fd lv opt i as, a) \<and> n = r_val a \<and>
             as \<noteq> [] \<and> sa_family (hd as) = sa_family grp \<and> sa_bytes (hd as) = sa_bytes grp \<and>
             wanted_if ifname ifindex i as)
      | Blocked \<Rightarrow> True
      | _ \<Rightarrow> False)"

lemma join_post_simps [simp]:
  "join_post fd grp nm i before Blocked w" "\<not> join_post fd grp nm i before Undef w"
  "\<not> join_post fd grp nm i before (Exited c) w"
  by (simp_all add: join_post_def)

lemma wp_with_ifindex:
  "(\<And>i w. index_for ifname ifindex i \<Longrightarrow> memberships (trace w) = before \<Longrightarrow>
      wp (use i) (join_post fd grp ifname ifindex before) w) \<Longrightarrow>
   memberships (trace w) = before \<Longrightarrow>
   wp (with_ifindex ifname ifindex use) (join_post fd grp ifname ifindex before) w"
  by (cases ifname)
    (simp_all add: with_ifindex_def minus1_def index_for_def join_post_def split: list.split)

lemma wp_with_ifaddr:
  "(\<And>ia w. (0 < ifindex \<or> ifname \<noteq> None \<or> ia = INADDR_ANY) \<Longrightarrow> memberships (trace w) = before \<Longrightarrow>
      wp (use ia) (join_post fd grp ifname ifindex before) w) \<Longrightarrow>
   memberships (trace w) = before \<Longrightarrow>
   wp (with_ifaddr fd ifname ifindex use) (join_post fd grp ifname ifindex before) w"
  by (cases ifname)
    (simp_all add: with_ifaddr_def doioctl_def minus1_def join_post_def split: list.split)

lemma wp_mcast_join:
  "wp (mcast_join api fd grp len ifname ifindex)
     (join_post fd grp ifname ifindex (memberships (trace w))) w"
proof (cases api)
  case True
  then show ?thesis
    unfolding mcast_join_def
    by (simp only: if_True, intro wp_with_ifindex refl)
      (auto simp: minus1_def join_post_def wanted_if_def split: list.split)
next
  case False
  have v4: "wp (with_ifaddr fd ifname ifindex (\<lambda>ia.
        call (SysSetsockoptReq fd IPPROTO_IP IP_ADD_MEMBERSHIP 0 [SaIn 0 a, SaIn 0 ia])))
      (join_post fd (SaIn p a) ifname ifindex (memberships (trace w))) w" for p a
    by (intro wp_with_ifaddr refl)
      (auto simp: join_post_def wanted_if_def sa_bytes_def split: list.split)
  have v6: "wp (with_ifindex ifname ifindex (\<lambda>i.
        call (SysSetsockoptReq fd IPPROTO_IPV6 IPV6_JOIN_GROUP i [SaIn6 0 a 0])))
      (join_post fd (SaIn6 p a s) ifname ifindex (memberships (trace w))) w" for p a s
    by (intro wp_with_ifindex refl)
      (auto simp: join_post_def wanted_if_def sa_bytes_def split: list.split)
  from False v4 v6 show ?thesis
    by (cases grp) (auto simp: mcast_join_def minus1_def join_post_def)
qed

lemma wp_mcast_join_source:
  "wp (mcast_join_source_group api fd src slen grp len ifname ifindex)
     (\<lambda>r w'. case r of
        Val n \<Rightarrow> n = - 1 \<and> memberships (trace w') = memberships (trace w) \<or>
          (\<exists>req. memberships (trace w') = memberships (trace w) @ [req])
      | Blocked \<Rightarrow> True | _ \<Rightarrow> False) w"
  by (auto simp: mcast_join_source_group_def with_ifindex_def with_ifaddr_def doioctl_def minus1_def
      split: sockaddr.split option.split list.split)

subsection \<open>Properties\<close>

text \<open>Whichever body was compiled, \<open>mcast_join\<close> either makes exactly one request, its last
  call, for the address of the group on the descriptor and the interface it was given (a
  positive index before a name, a name before the default), and returns the answer; or it
  makes none and returns -1, with \<open>errno\<close> set for an unknown interface, a long address or
  an unknown family, or by the \<open>ioctl\<close> that failed.\<close>

theorem mcast_join_request:
  "wp (mcast_join api fd grp len ifname ifindex)
     (join_post fd grp ifname ifindex (memberships (trace w))) w"
  by (rule wp_mcast_join)

text \<open>On an IPv4 socket \<open>mcast_set_ttl\<close> sets the value modulo 256, so that a TTL of 256
  becomes 0, on an IPv6 socket the value itself; and \<open>mcast_get_ttl\<close> returns the value that
  was set when it is from 0 to 255.\<close>

definition ttl_of :: "(syscall \<times> sysret) list \<Rightarrow> int" where
  \<comment> \<open>the value of the last option set\<close>
  "ttl_of hist =
     (case last (filter (\<lambda>e. case fst e of SysSetsockopt _ _ _ _ \<Rightarrow> True | _ \<Rightarrow> False) hist) of
        (SysSetsockopt _ _ _ v, _) \<Rightarrow> v | _ \<Rightarrow> 0)"

theorem mcast_ttl_roundtrip:
  assumes "0 \<le> val" "val \<le> 255"
    "script w = [okaddr 0 sa, ok 0, okaddr 0 sa, (ok 0)\<lparr>r_num := ttl\<rparr>]"
    "ttl = ttl_of (trace (snd (mcast_set_ttl fd val w)))" \<comment> \<open>the kernel keeps the option\<close>
    "is_inet sa"
  shows "fst (bind (mcast_set_ttl fd val) (\<lambda>_. mcast_get_ttl fd) w) = Val val \<and>
    ttl_of (trace (snd (mcast_set_ttl fd (val + 256) w))) =
      (if sa_family sa = AF_INET then val else val + 256)"
proof -
  have wrap: "(256 :: 8 word) = 0" by (rule word_uint_eqI) simp
  have val: "uint (of_int val :: 8 word) = val" "uint (of_int (val + 256) :: 8 word) = val"
    "sint (of_int val :: 32 word) = val"
    using assms(1,2) by (simp_all add: wrap unsigned_of_int take_bit_eq_mod signed_of_int signed_take_bit_int_eq_self)
  have set4: "mcast_set_ttl fd v w = (Val 0, logged (SysSetsockopt fd IPPROTO_IP IP_MULTICAST_TTL
      (uint (of_int v :: 8 word))) (ok 0) (logged (SysGetsockname fd) (okaddr 0 sa) w))"
    if "sa_family sa = AF_INET" for v
    using that by (simp add: mcast_set_ttl_def by_family_def sockfd_to_family_def bind_def sys_def
        call_def ret_def assms(3) logged_def okaddr_def ok_def)
  have set6: "mcast_set_ttl fd v w = (Val 0, logged (SysSetsockopt fd IPPROTO_IPV6 IPV6_MULTICAST_HOPS v)
      (ok 0) (logged (SysGetsockname fd) (okaddr 0 sa) w))"
    if "sa_family sa = AF_INET6" for v
    using that by (simp add: mcast_set_ttl_def by_family_def sockfd_to_family_def bind_def sys_def
        call_def ret_def assms(3) logged_def okaddr_def ok_def af_defs)
  have fam: "sa_family sa = AF_INET \<or> sa_family sa = AF_INET6"
    using assms(5) by (cases sa) (simp_all add: is_inet_def)
  then show ?thesis
  proof
    assume v4: "sa_family sa = AF_INET"
    with assms(4) have "ttl = val" by (simp add: set4 ttl_of_def val)
    with v4 show ?thesis
      by (simp add: set4 ttl_of_def val wrap bind_def mcast_get_ttl_def by_family_def
          sockfd_to_family_def get_option_def u_char_def sys_def ret_def assms(3) okaddr_def ok_def)
  next
    assume v6: "sa_family sa = AF_INET6"
    with assms(4) have "ttl = val" by (simp add: set6 ttl_of_def)
    with v6 show ?thesis
      by (simp add: set6 ttl_of_def val bind_def mcast_get_ttl_def by_family_def af_defs
          sockfd_to_family_def get_option_def to_int_def sys_def ret_def assms(3) okaddr_def ok_def)
  qed
qed

theorem mcast_ttl_roundtrip_witness:
  "fst (bind (mcast_set_ttl 3 7) (\<lambda>_. mcast_get_ttl 3)
      (start [okaddr 0 (SaIn 0 [1, 2, 3, 4]), ok 0, okaddr 0 (SaIn 0 [1, 2, 3, 4]), (ok 0)\<lparr>r_num := 7\<rparr>])) =
      Val 7 \<and>
   ttl_of (trace (snd (mcast_set_ttl 3 (7 + 256)
      (start [okaddr 0 (SaIn 0 [1, 2, 3, 4]), ok 0, okaddr 0 (SaIn 0 [1, 2, 3, 4]), (ok 0)\<lparr>r_num := 7\<rparr>])))) =
     (if sa_family (SaIn 0 [1, 2, 3, 4]) = AF_INET then 7 else 7 + 256)"
  by (rule mcast_ttl_roundtrip [where ttl = 7])
    (simp_all add: start_def is_inet_def mcast_set_ttl_def by_family_def sockfd_to_family_def
      bind_def sys_def call_def ret_def ttl_of_def ret_defs)

end
