(* ===== verification/RingBuffer.thy ===== *)
theory RingBuffer
  imports Main
begin

text \<open>
  Circular buffers.  The sources have three: the datagrams of sigio/dgecho01.c, the accepted
  connections of server/serv08.c with server/pthread08.c, and the items of
  threads/example03.c.  Each is an array with an index to get from and one to put at; this
  theory has the contents of such an array as a list, and the locale \<open>fifo\<close>: what a queue
  promises and what follows for a history of puts and gets.
\<close>

subsection \<open>Indices and contents\<close>

definition ring_next :: "nat \<Rightarrow> nat \<Rightarrow> nat" where
  \<comment> \<open>\<open>if (++i >= n) i = 0\<close>\<close>
  "ring_next n i = (if n \<le> Suc i then 0 else Suc i)"

definition ring_contents :: "'a list \<Rightarrow> nat \<Rightarrow> nat \<Rightarrow> 'a list" where
  \<comment> \<open>\<open>n\<close> elements from index \<open>get\<close> on, around the end of the array\<close>
  "ring_contents xs get n = map (\<lambda>k. xs ! ((get + k) mod length xs)) [0..<n]"

lemma ring_next_mod: "i < n \<Longrightarrow> ring_next n i = Suc i mod n"
  by (auto simp: ring_next_def mod_Suc)

lemma ring_next_less: "i < n \<Longrightarrow> ring_next n i < n"
  by (simp add: ring_next_def)

lemma ring_next_add: "0 < n \<Longrightarrow> ring_next n ((a + b) mod n) = (a + Suc b) mod n"
  by (simp add: ring_next_mod mod_Suc_eq)

lemma ring_next_shift: "a < n \<Longrightarrow> (ring_next n a + b) mod n = (a + Suc b) mod n"
  by (simp add: ring_next_mod mod_add_left_eq)

lemma length_ring [simp]: "length (ring_contents xs get n) = n"
  by (simp add: ring_contents_def)

lemma ring_empty [simp]: "ring_contents xs get n = [] \<longleftrightarrow> n = 0"
  by (simp add: ring_contents_def)

lemma mod_add_inj: "i < n \<Longrightarrow> j < n \<Longrightarrow> (g + i) mod n = (g + j) mod n \<Longrightarrow> i = (j::nat)"
proof (induction i j rule: linorder_wlog)
  case (le a b)
  then have "(b - a) mod n = 0"
    using mod_eq_dvd_iff_nat [of "g + a" "g + b" n] by (simp add: mod_eq_0_iff_dvd)
  with le show ?case by simp
next
  case (sym a b)
  then show ?case by (metis)
qed

lemma ring_put:
  assumes "n < length xs"
  shows "ring_contents (xs[(get + n) mod length xs := x]) get (Suc n) = ring_contents xs get n @ [x]"
proof -
  have "xs \<noteq> []" using assms by auto
  have "(get + n) mod length xs \<noteq> (get + k) mod length xs" if "k < n" for k
    using mod_add_inj [of n "length xs" k get] that assms by auto
  with \<open>xs \<noteq> []\<close> show ?thesis
    by (simp add: ring_contents_def)
qed

lemma ring_get:
  assumes "get < length xs" "0 < n"
  shows "ring_contents xs get n = xs ! get # ring_contents xs (ring_next (length xs) get) (n - 1)"
proof (cases n)
  case (Suc m)
  with assms(1) show ?thesis
    by (simp add: ring_contents_def upt_conv_Cons map_Suc_upt [symmetric] ring_next_shift comp_def
        del: upt_Suc map_Suc_upt)
qed (use assms in simp)

subsection \<open>Queues and their histories\<close>

text \<open>
  \<open>ok\<close> is the invariant of the representation, \<open>queue\<close> its contents, \<open>room\<close> what the code
  tests before it puts.  The two laws are the contract every user of a ring relies on.
\<close>

locale fifo =
  fixes ok :: "'s \<Rightarrow> bool"
    and queue :: "'s \<Rightarrow> 'x list"
    and room :: "'s \<Rightarrow> bool"
    and put :: "'x \<Rightarrow> 's \<Rightarrow> 's"
    and front :: "'s \<Rightarrow> 'x"
    and pop :: "'s \<Rightarrow> 's"
  assumes put: "ok s \<Longrightarrow> room s \<Longrightarrow> ok (put x s) \<and> queue (put x s) = queue s @ [x]"
    and get: "ok s \<Longrightarrow> queue s \<noteq> [] \<Longrightarrow> ok (pop s) \<and> queue s = front s # queue (pop s)"
begin

text \<open>\<open>hist s ps gs\<close>: what was put is what was got, followed by what is still queued.\<close>

definition hist :: "'s \<Rightarrow> 'x list \<Rightarrow> 'x list \<Rightarrow> bool" where
  "hist s ps gs \<longleftrightarrow> ok s \<and> ps = gs @ queue s"

lemma hist_put: "hist s ps gs \<Longrightarrow> room s \<Longrightarrow> hist (put x s) (ps @ [x]) gs"
  using put [of s x] by (simp add: hist_def)

lemma hist_get: "hist s ps gs \<Longrightarrow> queue s \<noteq> [] \<Longrightarrow> hist (pop s) ps (gs @ [front s])"
  using get [of s] by (simp add: hist_def)

lemma hist_fifo: "hist s ps gs \<Longrightarrow> gs = take (length gs) ps"
  by (simp add: hist_def)

lemma hist_length: "hist s ps gs \<Longrightarrow> length ps = length gs + length (queue s)"
  by (simp add: hist_def)

lemma hist_ok: "hist s ps gs \<Longrightarrow> ok s"
  by (simp add: hist_def)

lemma hist_start: "ok s \<Longrightarrow> queue s = [] \<Longrightarrow> hist s [] []"
  by (simp add: hist_def)

lemma hist_front: "hist s ps gs \<Longrightarrow> queue s \<noteq> [] \<Longrightarrow> front s = ps ! length gs"
  using get [of s] by (simp add: hist_def nth_append)

text \<open>Several puts at once.\<close>

lemma put_all:
  assumes "ok s" "\<And>s' k. ok s' \<Longrightarrow> k < length xs \<Longrightarrow> queue s' = queue s @ take k xs \<Longrightarrow> room s'"
  shows "ok (fold put xs s) \<and> queue (fold put xs s) = queue s @ xs"
  using assms(2)
proof (induction xs rule: rev_induct)
  case (snoc x xs)
  have "room s'" if "ok s'" "k < length xs" "queue s' = queue s @ take k xs" for s' k
    using snoc.prems [of s' k] that by simp
  then have IH: "ok (fold put xs s)" "queue (fold put xs s) = queue s @ xs"
    using snoc.IH by blast+
  have "room (fold put xs s)"
    by (rule snoc.prems [OF IH(1), where k = "length xs"]) (simp_all add: IH(2))
  with put [OF IH(1)] IH(2) show ?case by simp
qed (simp add: assms(1))

end

end
