(* ===== verification/Sigio.thy ===== *)
theory Sigio
  imports RingBuffer Connect
begin

text \<open>
  The datagram server driven by \<open>SIGIO\<close>, sigio/dgecho01.c: a ring of \<open>QSIZE\<close> datagrams, the
  signal handler that reads into it, and the main loop that answers from it.

  The handler interrupts the main loop wherever \<open>SIGIO\<close> is not blocked.  A state is the
  place of the main loop, the static variables and the world; the step relation \<open>sig_step\<close>
  has the actions of the main loop and the handlers, in any order the signal mask allows.
  Proved here: the replies are the datagrams received, in their order, each to its sender,
  whatever the interleaving; the ring never holds more than \<open>QSIZE - 1\<close> of them, because the
  handler gives up as soon as it is full; and a queued datagram is answered.
\<close>

definition QSIZE :: nat where "QSIZE = 8"
definition MAXDG :: nat where "MAXDG = 4096"
definition SIGIO :: int where "SIGIO = 23"
definition F_SETOWN :: int where "F_SETOWN = 6"
definition FIOASYNC :: int where "FIOASYNC = 0x8004667d"
definition FIONBIO :: int where "FIONBIO = 0x8004667e"
definition SIG_BLOCK :: int where "SIG_BLOCK = 1"
definition SIG_SETMASK :: int where "SIG_SETMASK = 3"

type_synonym dgram = "string \<times> sockaddr" \<comment> \<open>the data, \<open>dg_len\<close> bytes, and the client's address\<close>

record dgq =
  dg_slots :: "dgram list"
  cntread :: "nat list"
  iget :: nat
  iput :: nat
  nqueue :: nat

definition dgq_init :: dgq where
  "dgq_init = \<lparr>dg_slots = replicate QSIZE ([], SaOther 0), cntread = replicate (QSIZE + 1) 0,
     iget = 0, iput = 0, nqueue = 0\<rparr>"

text \<open>The signal sets are named by numbers: \<open>zeromask\<close> 0, \<open>newmask\<close> 1, \<open>oldmask\<close> 2.\<close>

fun malloc_slots :: "nat \<Rightarrow> nat \<Rightarrow> unit io" where
  "malloc_slots clilen 0 = ret ()"
| "malloc_slots clilen (Suc n) =
     seq (Malloc (int MAXDG)) (seq (Malloc (int clilen)) (malloc_slots clilen n))"

definition dg_echo_setup :: "int \<Rightarrow> nat \<Rightarrow> dgq \<Rightarrow> dgq io" where
  \<comment> \<open>\<open>dg_echo\<close> before its loop\<close>
  "dg_echo_setup sockfd clilen q =
     seq (malloc_slots clilen QSIZE)
    (seq (Signal SIGHUP ''sig_hup'')
    (seq (Signal SIGIO ''sig_io'')
    (bind (call (SysOther ''getpid'' [] [])) (\<lambda>pid.
     seq (Fcntl sockfd F_SETOWN pid)
    (seq (Ioctl sockfd FIOASYNC 1)
    (seq (Ioctl sockfd FIONBIO 1)
    (seq (Sigemptyset 0)
    (seq (Sigemptyset 2)
    (seq (Sigemptyset 1)
    (seq (Sigaddset 1 SIGIO)
    (seq (Sigprocmask SIG_BLOCK 1 2)
    (ret (q\<lparr>iget := 0, iput := 0, nqueue := 0\<rparr>)))))))))))))"

subsection \<open>The handlers\<close>

definition dg_put :: "dgram \<Rightarrow> dgq \<Rightarrow> dgq" where
  \<comment> \<open>a datagram received into \<open>dg[iput]\<close>\<close>
  "dg_put d q = q\<lparr>dg_slots := (dg_slots q)[iput q := d],
                  nqueue := nqueue q + 1,
                  iput := ring_next QSIZE (iput q)\<rparr>"

definition sig_io_body :: "int \<Rightarrow> nat \<times> dgq \<Rightarrow> (nat \<times> dgq + nat \<times> dgq) io" where
  "sig_io_body sockfd = (\<lambda>(nread, q).
     if QSIZE \<le> nqueue q then err_quit ''receive overflow''
     else seq (guard (iput q < QSIZE)) \<comment> \<open>\<open>dg[iput]\<close>\<close>
       (bind (sys (SysRecvfrom sockfd MAXDG 0)) (\<lambda>r.
       if r_val r < 0 then
         bind get_errno (\<lambda>e.
         if e = EWOULDBLOCK then stop (nread, q) \<comment> \<open>all done; no more queued to read\<close>
         else err_sys ''recvfrom error'')
       else again (nread + 1, dg_put (r_data r, r_addr r) q))))"

definition sig_io :: "int \<Rightarrow> dgq \<Rightarrow> dgq io" where
  "sig_io sockfd q =
     bind (loop (sig_io_body sockfd) (0, q)) (\<lambda>(nread, q).
     seq (guard (nread \<le> QSIZE)) \<comment> \<open>\<open>cntread[nread]\<close>\<close>
    (ret (q\<lparr>cntread := (cntread q)[nread := cntread q ! nread + 1]\<rparr>)))"

fun print_counts :: "nat \<Rightarrow> nat list \<Rightarrow> unit io" where
  "print_counts i [] = ret ()"
| "print_counts i (c # cs) =
     seq (say (SysPut STDOUT_FILENO (''cntread['' @ dec i @ ''] = '' @ dec c @ [newline])))
       (print_counts (i + 1) cs)"

definition sig_hup :: "dgq \<Rightarrow> unit io" where
  "sig_hup q = print_counts 0 (cntread q)"

subsection \<open>The main loop\<close>

text \<open>
  The places of the loop: at the \<open>while\<close>, with \<open>SIGIO\<close> blocked; before \<open>Sendto\<close>, before
  \<open>++iget\<close> and before the second \<open>Sigprocmask\<close>, with \<open>SIGIO\<close> not blocked.
\<close>

datatype place = AtWait | AtSend | AtAdvance | AtBlock

definition dg_pop :: "dgq \<Rightarrow> dgq" where
  \<comment> \<open>both halves of taking a datagram off the queue\<close>
  "dg_pop q = q\<lparr>iget := ring_next QSIZE (iget q), nqueue := nqueue q - 1\<rparr>"

fun main_action :: "int \<Rightarrow> place \<Rightarrow> dgq \<Rightarrow> (place \<times> dgq) io" where
  "main_action sockfd AtWait q =
     seq (Sigprocmask SIG_SETMASK 2 0) (ret (AtSend, q)) \<comment> \<open>unblock SIGIO\<close>"
| "main_action sockfd AtSend q =
     seq (guard (iget q < QSIZE))
    (seq (Sendto sockfd (fst (dg_slots q ! iget q)) 0 (snd (dg_slots q ! iget q)))
      (ret (AtAdvance, q)))"
| "main_action sockfd AtAdvance q = ret (AtBlock, q\<lparr>iget := ring_next QSIZE (iget q)\<rparr>)"
| "main_action sockfd AtBlock q =
     seq (Sigprocmask SIG_BLOCK 1 2) (ret (AtWait, q\<lparr>nqueue := nqueue q - 1\<rparr>)) \<comment> \<open>block SIGIO\<close>"

text \<open>
  With an empty queue the loop stays in \<open>sigsuspend\<close>, which runs a handler with no signal
  blocked.  \<open>SIGHUP\<close> is never blocked.
\<close>

inductive sig_step :: "int \<Rightarrow> place \<times> dgq \<times> world \<Rightarrow> place \<times> dgq \<times> world \<Rightarrow> bool" for fd where
  main: "(p = AtWait \<longrightarrow> 0 < nqueue q) \<Longrightarrow> main_action fd p q w = (Val (p', q'), w') \<Longrightarrow>
    sig_step fd (p, q, w) (p', q', w')"
| sigio: "(p = AtWait \<longrightarrow> nqueue q = 0) \<Longrightarrow> sig_io fd q w = (Val q', w') \<Longrightarrow>
    sig_step fd (p, q, w) (p, q', w')"
| sighup: "sig_hup q w = (Val (), w') \<Longrightarrow> sig_step fd (p, q, w) (p, q, w')"

inductive sig_reach :: "int \<Rightarrow> world \<Rightarrow> place \<times> dgq \<times> world \<Rightarrow> bool" for fd w0 where
  start: "sig_reach fd w0 (AtWait, dgq_init, w0)"
| step: "sig_reach fd w0 s \<Longrightarrow> sig_step fd s s' \<Longrightarrow> sig_reach fd w0 s'"

inductive_cases sig_stepE: "sig_step fd (p, q, w) s"

subsection \<open>The ring of datagrams is a queue\<close>

definition dgq_ok :: "dgq \<Rightarrow> bool" where
  "dgq_ok q \<longleftrightarrow> length (dg_slots q) = QSIZE \<and> length (cntread q) = QSIZE + 1 \<and>
     iget q < QSIZE \<and> nqueue q \<le> QSIZE \<and> iput q = (iget q + nqueue q) mod QSIZE"

definition dgq_list :: "dgq \<Rightarrow> dgram list" where
  "dgq_list q = ring_contents (dg_slots q) (iget q) (nqueue q)"

lemma dgq_ok_iput: "dgq_ok q \<Longrightarrow> iput q < QSIZE"
  by (simp add: dgq_ok_def QSIZE_def)

lemma dgq_init_ok: "dgq_ok dgq_init" "dgq_list dgq_init = []"
  by (simp_all add: dgq_ok_def dgq_init_def dgq_list_def QSIZE_def)

lemma QSIZE_pos [simp]: "0 < QSIZE"
  by (simp add: QSIZE_def)

interpretation dgq: fifo dgq_ok dgq_list "\<lambda>q. nqueue q < QSIZE" dg_put "\<lambda>q. dg_slots q ! iget q" dg_pop
proof
  fix q :: dgq and d
  assume "dgq_ok q" "nqueue q < QSIZE"
  then show "dgq_ok (dg_put d q) \<and> dgq_list (dg_put d q) = dgq_list q @ [d]"
    using ring_put [of "nqueue q" "dg_slots q" "iget q" d]
    by (simp add: dgq_ok_def dgq_list_def dg_put_def ring_next_add)
next
  fix q :: dgq
  assume "dgq_ok q" "dgq_list q \<noteq> []"
  then show "dgq_ok (dg_pop q) \<and> dgq_list q = (dg_slots q ! iget q) # dgq_list (dg_pop q)"
    using ring_get [of "iget q" "dg_slots q" "nqueue q"] ring_next_shift [of "iget q" QSIZE "nqueue q - 1"]
    by (auto simp: dgq_ok_def dgq_list_def dg_pop_def ring_next_less)
qed

subsection \<open>What the handlers do\<close>

definition received :: "int \<Rightarrow> (syscall \<times> sysret) list \<Rightarrow> dgram list" where
  \<comment> \<open>the datagrams \<open>recvfrom\<close> has returned\<close>
  "received fd hist =
     concat (map (\<lambda>e. case e of
       (SysRecvfrom f n fl, r) \<Rightarrow> if f = fd \<and> 0 \<le> r_val r then [(r_data r, r_addr r)] else [] | _ \<Rightarrow> []) hist)"

definition replies :: "int \<Rightarrow> (syscall \<times> sysret) list \<Rightarrow> dgram list" where
  "replies fd hist =
     concat (map (\<lambda>e. case e of
       (SysSendto f s fl sa, r) \<Rightarrow> if f = fd then [(s, sa)] else [] | _ \<Rightarrow> []) hist)"

lemma received_simps [simp]:
  "received fd [] = []" "received fd (a @ b) = received fd a @ received fd b"
  "received fd ((SysRecvfrom f n fl, r) # es) =
     (if f = fd \<and> 0 \<le> r_val r then [(r_data r, r_addr r)] else []) @ received fd es"
  "received fd ((SysSendto f s fl sa, r) # es) = received fd es"
  "received fd ((SysOther nm is ss, r) # es) = received fd es"
  "received fd ((SysPut h s, r) # es) = received fd es"
  by (simp_all add: received_def)

lemma replies_simps [simp]:
  "replies fd [] = []" "replies fd (a @ b) = replies fd a @ replies fd b"
  "replies fd ((SysSendto f s fl sa, r) # es) = (if f = fd then [(s, sa)] else []) @ replies fd es"
  "replies fd ((SysRecvfrom f n fl, r) # es) = replies fd es"
  "replies fd ((SysOther nm is ss, r) # es) = replies fd es"
  "replies fd ((SysPut h s, r) # es) = replies fd es"
  by (simp_all add: replies_def)

interpretation io: consuming "sig_io_body fd" for fd
  by unfold_locales
    (auto simp: sig_io_body_def seq_def intro!: cont_eats_err_quit cont_eats_bind2 [OF shrinks_guard] body_eating eating
       split: prod.split)

text \<open>
  Between \<open>++iget\<close> and \<open>nqueue--\<close> the counter is one ahead of the queue: \<open>behind 1 q\<close> is
  the queue then.
\<close>

definition behind :: "nat \<Rightarrow> dgq \<Rightarrow> dgq" where
  "behind k q = q\<lparr>nqueue := nqueue q - k\<rparr>"

lemma behind_0 [simp]: "behind 0 q = q"
  by (simp add: behind_def)

lemma behind_fields [simp]: "nqueue (behind k q) = nqueue q - k" "iget (behind k q) = iget q"
  "iput (behind k q) = iput q"
  by (simp_all add: behind_def)

lemma dg_put_nqueue [simp]: "nqueue (dg_put d q) = nqueue q + 1" "iget (dg_put d q) = iget q"
  by (simp_all add: dg_put_def)

lemma behind_put: "k \<le> nqueue q \<Longrightarrow> behind k (dg_put d q) = dg_put d (behind k q)"
  by (simp add: behind_def dg_put_def Suc_diff_le)

text \<open>
  What the handler has done, from a queue \<open>q0\<close> and a trace \<open>h0\<close>: the datagrams \<open>ds\<close> it has
  read are put.
\<close>

definition did_put :: "nat \<Rightarrow> int \<Rightarrow> dgq \<Rightarrow> (syscall \<times> sysret) list \<Rightarrow> dgram list \<Rightarrow> dgq \<Rightarrow> world \<Rightarrow> bool" where
  "did_put k fd q0 h0 ds q w \<longleftrightarrow>
     k \<le> nqueue q0 \<and> nqueue q = nqueue q0 + length ds \<and> iget q = iget q0 \<and> dgq_ok (behind k q) \<and>
     dgq_list (behind k q) = dgq_list (behind k q0) @ ds \<and>
     received fd (trace w) = received fd h0 @ ds \<and> replies fd (trace w) = replies fd h0"

lemma did_put_more:
  assumes "did_put k fd q0 h0 ds q w" "nqueue q < QSIZE"
    "received fd (trace w') = received fd (trace w) @ [d]" "replies fd (trace w') = replies fd (trace w)"
  shows "did_put k fd q0 h0 (ds @ [d]) (dg_put d q) w'"
proof -
  have k: "k \<le> nqueue q" using assms(1) by (simp add: did_put_def)
  have "nqueue (behind k q) < QSIZE" using assms(2) by simp
  with assms(1,3,4) dgq.put [of "behind k q" d] show ?thesis
    by (simp add: did_put_def behind_put [OF k])
qed

definition io_inv :: "nat \<Rightarrow> int \<Rightarrow> dgq \<Rightarrow> (syscall \<times> sysret) list \<Rightarrow> nat \<times> dgq \<Rightarrow> world \<Rightarrow> bool" where
  "io_inv k fd q0 h0 s w \<longleftrightarrow> (\<exists>ds. fst s = length ds \<and> did_put k fd q0 h0 ds (snd s) w)"

definition io_post :: "nat \<Rightarrow> int \<Rightarrow> dgq \<Rightarrow> (syscall \<times> sysret) list \<Rightarrow> (nat \<times> dgq) res \<Rightarrow> world \<Rightarrow> bool" where
  "io_post k fd q0 h0 r w =
     (case r of Val s \<Rightarrow> io_inv k fd q0 h0 s w \<and> nqueue (snd s) < QSIZE | Undef \<Rightarrow> False | _ \<Rightarrow> True)"

lemma io_post_simps [simp]:
  "io_post k fd q0 h0 (Val s) w \<longleftrightarrow> io_inv k fd q0 h0 s w \<and> nqueue (snd s) < QSIZE"
  "io_post k fd q0 h0 Undef w \<longleftrightarrow> False" "io_post k fd q0 h0 (Exited c) w \<longleftrightarrow> True"
  "io_post k fd q0 h0 Blocked w \<longleftrightarrow> True"
  by (simp_all add: io_post_def)

lemma wp_sig_io_body:
  assumes "io_inv k fd q0 h0 s w"
  shows "wp (sig_io_body fd s) (body_post (io_inv k fd q0 h0) (io_post k fd q0 h0)) w"
proof (cases s)
  case (Pair n q)
  then obtain ds where ds: "n = length ds" "did_put k fd q0 h0 ds q w"
    using assms by (auto simp: io_inv_def)
  have same: "io_inv k fd q0 h0 (n, q) (logged (SysRecvfrom fd MAXDG 0) r w)" if "r_val r < 0" for r
    using assms that Pair by (simp add: io_inv_def did_put_def)
  have more: "io_inv k fd q0 h0 (Suc n, dg_put (r_data r, r_addr r) q) (logged (SysRecvfrom fd MAXDG 0) r w)"
    if "0 \<le> r_val r" "nqueue q < QSIZE" for r
    using did_put_more [OF ds(2) that(2), of "logged (SysRecvfrom fd MAXDG 0) r w" "(r_data r, r_addr r)"]
      that(1) ds(1)
    unfolding io_inv_def by (intro exI [of _ "ds @ [(r_data r, r_addr r)]"]) simp
  have "iput q < QSIZE" using ds(2) dgq_ok_iput [of "behind k q"] by (simp add: did_put_def)
  then show ?thesis
    using same more by (auto simp: Pair sig_io_body_def split: list.split)
qed

lemma wp_sig_io_loop:
  assumes "dgq_ok (behind k q)" "k \<le> nqueue q"
  shows "wp (loop (sig_io_body fd) (0, q)) (io_post k fd q (trace w)) w"
  by (rule io.wp_loop [where I = "io_inv k fd q (trace w)", OF _ wp_sig_io_body])
    (simp add: io_inv_def did_put_def assms)

definition handler_post :: "nat \<Rightarrow> int \<Rightarrow> dgq \<Rightarrow> (syscall \<times> sysret) list \<Rightarrow> dgq res \<Rightarrow> world \<Rightarrow> bool" where
  \<comment> \<open>after \<open>sig_io\<close>: the datagrams read were put, and the queue is not full\<close>
  "handler_post k fd q h0 r w =
     (case r of
        Val q' \<Rightarrow> nqueue q' < QSIZE \<and> (\<exists>ds. did_put k fd q h0 ds q' w)
      | Undef \<Rightarrow> False | _ \<Rightarrow> True)"

lemma handler_post_simps [simp]:
  "handler_post k fd q h0 Undef w \<longleftrightarrow> False" "handler_post k fd q h0 (Exited c) w \<longleftrightarrow> True"
  "handler_post k fd q h0 Blocked w \<longleftrightarrow> True"
  "handler_post k fd q h0 (Val q') w \<longleftrightarrow> nqueue q' < QSIZE \<and> (\<exists>ds. did_put k fd q h0 ds q' w)"
  by (simp_all add: handler_post_def)

lemma did_put_count:
  "did_put k fd q h0 ds q' w \<Longrightarrow> did_put k fd q h0 ds (q'\<lparr>cntread := (cntread q')[n := c]\<rparr>) w"
  by (auto simp: did_put_def dgq_ok_def dgq_list_def behind_def)

lemma did_put_length: "nqueue q' < QSIZE \<Longrightarrow> did_put k fd q h0 ds q' w \<Longrightarrow> length ds \<le> QSIZE"
  by (simp add: did_put_def)

lemma wp_sig_io:
  assumes "dgq_ok (behind k q)" "k \<le> nqueue q"
  shows "wp (sig_io fd q) (handler_post k fd q (trace w)) w"
  unfolding sig_io_def wp_bind
proof (rule wp_conseq [OF wp_sig_io_loop [OF assms]])
  fix r :: "(nat \<times> dgq) res" and w' :: world
  assume post: "io_post k fd q (trace w) r w'"
  have put: "length ds \<le> QSIZE \<and> handler_post k fd q (trace w)
      (Val (q'\<lparr>cntread := (cntread q')[length ds := Suc (cntread q' ! length ds)]\<rparr>)) w'"
    if "did_put k fd q (trace w) ds q' w'" "nqueue q' < QSIZE" for ds q'
    using did_put_length [OF that(2,1)] did_put_count [OF that(1)] that(2) by auto
  show "on_val (\<lambda>a. wp (case a of (nread, q) \<Rightarrow> seq (guard (nread \<le> QSIZE))
      (ret (q\<lparr>cntread := (cntread q)[nread := cntread q ! nread + 1]\<rparr>))) (handler_post k fd q (trace w)))
      (handler_post k fd q (trace w)) r w'"
    using post put
    by (cases r) (auto simp: io_inv_def simp del: handler_post_simps(4))
qed

lemma wp_print_counts: "wp (print_counts i cs) (\<lambda>r w'. r = Val () \<and>
   received fd (trace w') = received fd (trace w) \<and> replies fd (trace w') = replies fd (trace w)) w"
proof (induction cs arbitrary: i w)
  case (Cons c cs)
  show ?case
    by (simp, rule wp_conseq [OF Cons.IH]) simp
qed simp

lemma wp_sig_hup: "wp (sig_hup q) (\<lambda>r w'. r = Val () \<and>
   received fd (trace w') = received fd (trace w) \<and> replies fd (trace w') = replies fd (trace w)) w"
  unfolding sig_hup_def by (rule wp_print_counts)

subsection \<open>The whole server\<close>

text \<open>The queue at each place, and the datagrams received and not yet sent.\<close>

definition lag :: "place \<Rightarrow> nat" where
  "lag p = (if p = AtBlock then 1 else 0)"

definition pending :: "place \<Rightarrow> dgq \<Rightarrow> dgram list" where
  "pending p q = (if p = AtAdvance then tl (dgq_list q) else dgq_list (behind (lag p) q))"

definition sig_inv :: "int \<Rightarrow> place \<times> dgq \<times> world \<Rightarrow> bool" where
  "sig_inv fd s =
     (case s of (p, q, w) \<Rightarrow>
        dgq_ok (behind (lag p) q) \<and> nqueue q < QSIZE \<and> (p \<noteq> AtWait \<longrightarrow> 0 < nqueue q) \<and>
        received fd (trace w) = replies fd (trace w) @ pending p q)"

lemma Sigprocmask_trace:
  assumes "seq (Sigprocmask how sigs oset) (ret v) w = (Val v', w')"
  shows "v' = v \<and> received fd (trace w') = received fd (trace w) \<and> replies fd (trace w') = replies fd (trace w)"
proof -
  have "wp (seq (Sigprocmask how sigs oset) (ret v)) (\<lambda>r w'. \<forall>v'. r = Val v' \<longrightarrow> v' = v \<and>
      received fd (trace w') = received fd (trace w) \<and> replies fd (trace w') = replies fd (trace w)) w"
    by (simp add: Sigprocmask_def split: list.split)
  from wpD [OF this assms] show ?thesis by simp
qed

lemma Sendto_trace:
  assumes "seq (Sendto fd s fl sa) (ret v) w = (Val v', w')"
  shows "v' = v \<and> received fd (trace w') = received fd (trace w) \<and>
    replies fd (trace w') = replies fd (trace w) @ [(s, sa)]"
proof -
  have "wp (seq (Sendto fd s fl sa) (ret v)) (\<lambda>r w'. \<forall>v'. r = Val v' \<longrightarrow> v' = v \<and>
      received fd (trace w') = received fd (trace w) \<and>
      replies fd (trace w') = replies fd (trace w) @ [(s, sa)]) w"
    by (simp add: Sendto_def split: list.split)
  from wpD [OF this assms] show ?thesis by simp
qed

lemma guard_seq: "seq (guard b) m w = (Val v, w') \<longleftrightarrow> b \<and> m w = (Val v, w')"
  by (simp add: seq_def guard_def bind_def ret_def undef_def)

lemma dgq_front:
  "dgq_ok q \<Longrightarrow> 0 < nqueue q \<Longrightarrow> dgq_list q = (dg_slots q ! iget q) # dgq_list (dg_pop q) \<and> dgq_ok (dg_pop q)"
  using dgq.get [of q] by (simp add: dgq_list_def)

lemma pop_behind: "behind 1 (q\<lparr>iget := ring_next QSIZE (iget q)\<rparr>) = dg_pop q"
  by (simp add: behind_def dg_pop_def)

lemma main_action_inv:
  assumes "sig_inv fd (p, q, w)" "p = AtWait \<longrightarrow> 0 < nqueue q"
    "main_action fd p q w = (Val (p', q'), w')"
  shows "sig_inv fd (p', q', w')"
proof (cases p)
  case AtWait
  with assms show ?thesis
    by (auto simp: sig_inv_def lag_def pending_def dest!: Sigprocmask_trace [where fd = fd])
next
  case AtSend
  with assms show ?thesis
    using dgq_front [of q]
    by (auto simp: sig_inv_def lag_def pending_def guard_seq dest!: Sendto_trace)
next
  case AtAdvance
  with assms show ?thesis
    using dgq_front [of q] by (auto simp: sig_inv_def lag_def pending_def ret_def pop_behind [simplified])
next
  case AtBlock
  with assms show ?thesis
    by (auto simp: sig_inv_def lag_def pending_def behind_def dest!: Sigprocmask_trace [where fd = fd])
qed

lemma sig_io_inv:
  assumes "sig_inv fd (p, q, w)" "p = AtWait \<longrightarrow> nqueue q = 0" "sig_io fd q w = (Val q', w')"
  shows "sig_inv fd (p, q', w')"
proof -
  have lag: "dgq_ok (behind (lag p) q)" "lag p \<le> nqueue q"
    using assms(1) by (auto simp: sig_inv_def lag_def)
  obtain ds where ds: "did_put (lag p) fd q (trace w) ds q' w'" "nqueue q' < QSIZE"
    using wpD [OF wp_sig_io [OF lag] assms(3)] by auto
  have "pending p q' = pending p q @ ds"
  proof (cases "p = AtAdvance")
    case True
    then have "dgq_list q \<noteq> []" using assms(1) by (auto simp: sig_inv_def dgq_list_def)
    with True ds(1) show ?thesis by (simp add: pending_def did_put_def lag_def)
  qed (use ds(1) in \<open>simp add: pending_def did_put_def\<close>)
  with assms(1) ds show ?thesis
    by (auto simp: sig_inv_def did_put_def)
qed

lemma sig_step_inv: "sig_step fd s s' \<Longrightarrow> sig_inv fd s \<Longrightarrow> sig_inv fd s'"
proof (induction rule: sig_step.induct)
  case (main p q w p' q' w')
  then show ?case by (blast intro: main_action_inv)
next
  case (sigio p q w q' w')
  then show ?case by (blast intro: sig_io_inv)
next
  case (sighup q w w' p)
  have "received fd (trace w') = received fd (trace w) \<and> replies fd (trace w') = replies fd (trace w)"
    using wpD [OF wp_sig_hup [where fd = fd] sighup.hyps] by simp
  with sighup.prems show ?case by (simp add: sig_inv_def)
qed

lemma sig_reach_inv:
  assumes "sig_reach fd w0 s" "received fd (trace w0) = []" "replies fd (trace w0) = []"
  shows "sig_inv fd s"
  using assms(1)
proof (induction rule: sig_reach.induct)
  case start
  show ?case
    using assms(2,3) dgq_init_ok
    by (simp add: sig_inv_def lag_def pending_def) (simp add: dgq_init_def)
next
  case (step s s')
  then show ?case by (blast intro: sig_step_inv)
qed

subsection \<open>The handler on a given sequence of datagrams\<close>

definition dgram_ok :: "dgram \<Rightarrow> bool" where
  "dgram_ok d \<longleftrightarrow> length (fst d) \<le> MAXDG"

definition arrival :: "dgram \<Rightarrow> sysret" where
  \<comment> \<open>what \<open>recvfrom\<close> answers for a datagram\<close>
  "arrival d = okdata (fst d)\<lparr>r_addr := snd d\<rparr>"

definition took :: "int \<Rightarrow> dgram \<Rightarrow> world \<Rightarrow> world" where
  \<comment> \<open>the world after a datagram was read\<close>
  "took fd d w = logged (SysRecvfrom fd MAXDG 0) (arrival d) w"

lemma sig_io_body_arrival:
  assumes "dgram_ok d" "script w = arrival d # rest" "nqueue q < QSIZE" "iput q < QSIZE"
  shows "sig_io_body fd (n, q) w = (Val (Inl (n + 1, dg_put d q)), took fd d w)"
  using assms
  by (cases d) (simp add: sig_io_body_def seq_def guard_def bind_def sys_def again_def ret_def took_def logged_def
      arrival_def okdata_def ok_def dgram_ok_def fits_read_def)

lemma took_script [simp]: "script (took fd d w) = tl (script w)"
  by (simp add: took_def)

lemma loop_arrivals:
  assumes "list_all dgram_ok ds" "script w = map arrival ds @ rest" "nqueue q + length ds \<le> QSIZE"
    "iput q < QSIZE"
  shows "loop (sig_io_body fd) (n, q) w =
    loop (sig_io_body fd) (n + length ds, fold dg_put ds q) (fold (took fd) ds w)"
  using assms
proof (induction ds arbitrary: n q w)
  case (Cons d ds)
  have q: "nqueue q < QSIZE" using Cons.prems(3) by simp
  have put: "iput (dg_put d q) < QSIZE" using Cons.prems(4) by (simp add: dg_put_def ring_next_less)
  have "loop (sig_io_body fd) (n, q) w = loop (sig_io_body fd) (n + 1, dg_put d q) (took fd d w)"
    using sig_io_body_arrival [of d w "map arrival ds @ rest" q fd n] Cons.prems(1,2,4) q
    by (subst io.loop_unfold) (simp add: bind_def)
  also have "\<dots> = loop (sig_io_body fd) (n + 1 + length ds, fold dg_put ds (dg_put d q))
      (fold (took fd) ds (took fd d w))"
    by (rule Cons.IH) (use Cons.prems put in simp_all)
  finally show ?case by simp
qed simp

lemma fold_put_iput: "iput q < QSIZE \<Longrightarrow> iput (fold dg_put ds q) < QSIZE"
  by (induction ds arbitrary: q) (simp_all add: dg_put_def ring_next_less)

lemma fold_took_script: "script w = map arrival ds @ rest \<Longrightarrow> script (fold (took fd) ds w) = rest"
  by (induction ds arbitrary: w) simp_all

lemma fold_took_trace: "trace (fold (took fd) ds w) =
    trace w @ map (\<lambda>d. (SysRecvfrom fd MAXDG 0, arrival d)) ds"
  by (induction ds arbitrary: w) (simp_all add: took_def)

lemma fold_put_nqueue [simp]: "nqueue (fold dg_put ds q) = nqueue q + length ds"
  by (induction ds arbitrary: q) simp_all

lemma err_quit_eq: "(err_quit msg :: 'a io) w = (Exited 1, err_world False LOG_ERR msg w)"
proof -
  have "wp (err_quit msg :: 'a io) (\<lambda>r w'. r = Exited 1 \<and> w' = err_world False LOG_ERR msg w) w" by simp
  then show ?thesis by (simp add: wp_def split: prod.splits)
qed

lemma sig_io_full:
  assumes "list_all dgram_ok ds" "script w = map arrival ds @ rest" "nqueue q + length ds = QSIZE"
    "iput q < QSIZE"
  shows "fst (sig_io fd q w) = Exited 1"
proof -
  let ?s = "(length ds, fold dg_put ds q)" and ?w = "fold (took fd) ds w"
  have "loop (sig_io_body fd) (0, q) w = loop (sig_io_body fd) ?s ?w"
    using loop_arrivals [OF assms(1,2), of q fd 0] assms(3,4) by simp
  moreover have "sig_io_body fd ?s = err_quit ''receive overflow''"
    using assms(3) by (simp add: sig_io_body_def)
  ultimately have "fst (loop (sig_io_body fd) (0, q) w) = Exited 1"
    using fun_cong [OF io.loop_unfold [of fd ?s], of ?w] by (simp add: bind_def err_quit_eq)
  then show ?thesis by (auto simp: sig_io_def bind_def split: prod.splits)
qed

lemma sig_io_drains:
  assumes "list_all dgram_ok ds" "script w = map arrival ds @ fail EWOULDBLOCK # rest"
    "nqueue q + length ds < QSIZE" "iput q < QSIZE"
  shows "\<exists>q' w'. sig_io fd q w = (Val q', w') \<and>
    q' = (fold dg_put ds q)\<lparr>cntread := (cntread q')\<rparr> \<and> script w' = rest"
proof -
  let ?s = "(length ds, fold dg_put ds q)" and ?w = "fold (took fd) ds w"
  have scr: "script ?w = fail EWOULDBLOCK # rest" by (rule fold_took_script [OF assms(2)])
  have "loop (sig_io_body fd) (0, q) w = loop (sig_io_body fd) ?s ?w"
    using loop_arrivals [OF assms(1,2), of q fd 0] assms(3,4) by simp
  moreover have "sig_io_body fd ?s ?w = (Val (Inr ?s), logged (SysRecvfrom fd MAXDG 0) (fail EWOULDBLOCK) ?w)"
    using assms(3) scr fold_put_iput [OF assms(4), of ds]
    by (simp add: sig_io_body_def seq_def guard_def bind_def sys_def get_errno_def stop_def ret_def logged_def fail_def ok_def
        fits_read_def)
  ultimately have "loop (sig_io_body fd) (0, q) w =
      (Val ?s, logged (SysRecvfrom fd MAXDG 0) (fail EWOULDBLOCK) ?w)"
    using fun_cong [OF io.loop_unfold [of fd ?s], of ?w] by (simp add: bind_def ret_def)
  then show ?thesis
    using assms(3) scr by (simp add: sig_io_def bind_def seq_def guard_def ret_def)
qed

subsection \<open>Properties\<close>

lemma actions_defined:
  assumes "sig_inv fd (p, q, w)"
  shows "iget q < QSIZE \<and> iput q < QSIZE \<and> fst (main_action fd p q w) \<noteq> Undef \<and> fst (sig_io fd q w) \<noteq> Undef"
proof -
  have ok: "dgq_ok (behind (lag p) q)" "lag p \<le> nqueue q"
    using assms by (auto simp: sig_inv_def lag_def)
  then have get: "iget q < QSIZE" and put: "iput q < QSIZE"
    using dgq_ok_iput [OF ok(1)] by (simp_all add: dgq_ok_def)
  have "wp (main_action fd p q) (\<lambda>r w'. r \<noteq> Undef) w"
    using get by (cases p) (auto simp: Sigprocmask_def Sendto_def split: list.split)
  moreover have "wp (sig_io fd q) (\<lambda>r w'. r \<noteq> Undef) w"
    by (rule wp_conseq [OF wp_sig_io [OF ok]]) auto
  ultimately show ?thesis using get put by (auto simp: wp_def split: prod.splits)
qed

text \<open>C33: in every state the server can reach, however the signals interrupt the main loop,
  the datagrams received are the replies sent followed by those still queued: each datagram
  is answered once, in the order of arrival, with its own data and to its own client; the
  queue counts at most seven; and both indices are within the ring, so that neither the next
  action of the main loop nor the handler reads or writes a slot out of bounds.\<close>

theorem dgecho_replies:
  assumes "sig_reach fd w0 (p, q, w)" "trace w0 = []"
  shows "received fd (trace w) = replies fd (trace w) @ pending p q \<and> nqueue q < QSIZE \<and>
    iget q < QSIZE \<and> iput q < QSIZE \<and>
    fst (main_action fd p q w) \<noteq> Undef \<and> fst (sig_io fd q w) \<noteq> Undef"
proof -
  have inv: "sig_inv fd (p, q, w)"
    by (rule sig_reach_inv [OF assms(1)]) (simp_all add: assms(2))
  with actions_defined [OF inv] show ?thesis by (simp add: sig_inv_def)
qed

definition dgram_a :: dgram where "dgram_a = (''hi'', SaIn 7 [1, 2, 3, 4])"

definition dg_script :: "sysret list" where
  "dg_script = [arrival dgram_a, fail EWOULDBLOCK, ok 0, ok 2]"

definition dg_run :: "(place \<times> dgq) res \<times> world" where
  \<comment> \<open>the handler with one datagram, then the main loop up to its reply\<close>
  "dg_run = bind (sig_io 3 dgq_init) (\<lambda>q.
     bind (main_action 3 AtWait q) (\<lambda>(p, q). main_action 3 p q)) (start dg_script)"

lemma dg_run_reach:
  "\<exists>q w. dg_run = (Val (AtAdvance, q), w) \<and> sig_reach 3 (start dg_script) (AtAdvance, q, w)"
proof -
  obtain q w where q: "sig_io 3 dgq_init (start dg_script) = (Val q, w)"
    "q = (fold dg_put [dgram_a] dgq_init)\<lparr>cntread := cntread q\<rparr>" "script w = [ok 0, ok 2]"
    using sig_io_drains [of "[dgram_a]" "start dg_script" "[ok 0, ok 2]" dgq_init 3]
    by (auto simp: start_def dg_script_def dgq_init_def QSIZE_def dgram_ok_def dgram_a_def MAXDG_def)
  have "nqueue q = nqueue (dg_put dgram_a dgq_init)" "iget q = iget (dg_put dgram_a dgq_init)"
    "dg_slots q = dg_slots (dg_put dgram_a dgq_init)"
    by (subst q(2), simp)+
  then have n: "nqueue q = 1" "dg_slots q ! iget q = dgram_a" "iget q < QSIZE"
    by (simp_all add: dg_put_def dgq_init_def)
  define w1 where "w1 = logged (SysOther ''sigprocmask'' [SIG_SETMASK, 2, 0] []) (ok 0) w"
  define w2 where "w2 = logged (SysSendto 3 ''hi'' 0 (SaIn 7 [1, 2, 3, 4])) (ok 2) w1"
  have r1: "sig_reach 3 (start dg_script) (AtWait, q, w)"
    by (rule sig_reach.step [OF sig_reach.start sig_step.sigio]) (use q(1) in \<open>simp_all add: dgq_init_def\<close>)
  have m1: "main_action 3 AtWait q w = (Val (AtSend, q), w1)"
    using q(3) by (simp add: seq_def bind_def Sigprocmask_def void_def call_def sys_def unless_neg1_def
        ret_def w1_def logged_def ok_def)
  have m2: "main_action 3 AtSend q w1 = (Val (AtAdvance, q), w2)"
    using q(3) n by (simp add: seq_def bind_def guard_def Sendto_def call_def sys_def ret_def dgram_a_def
        w1_def w2_def logged_def ok_def fits_write_def)
  have "sig_reach 3 (start dg_script) (AtSend, q, w1)"
    by (rule sig_reach.step [OF r1], rule sig_step.main [OF _ m1]) (simp add: n)
  then have "sig_reach 3 (start dg_script) (AtAdvance, q, w2)"
    by (rule sig_reach.step, intro sig_step.main [OF _ m2]) simp
  moreover have "dg_run = (Val (AtAdvance, q), w2)"
    using q(1) m1 m2 by (simp add: dg_run_def bind_def)
  ultimately show ?thesis by blast
qed

theorem dgecho_replies_witness:
  "case dg_run of
     (Val (p, q), w) \<Rightarrow> received 3 (trace w) = replies 3 (trace w) @ pending p q \<and> nqueue q < QSIZE \<and>
       iget q < QSIZE \<and> iput q < QSIZE \<and>
       fst (main_action 3 p q w) \<noteq> Undef \<and> fst (sig_io 3 q w) \<noteq> Undef
   | _ \<Rightarrow> False"
proof -
  obtain q w where run: "dg_run = (Val (AtAdvance, q), w)"
    "sig_reach 3 (start dg_script) (AtAdvance, q, w)"
    using dg_run_reach by blast
  show ?thesis using dgecho_replies [OF run(2)] by (simp add: run(1) start_def)
qed

text \<open>\<open>sig_io\<close> reads all datagrams that have arrived and returns if they leave a slot
  free; but as soon as the ring is full, with \<open>QSIZE\<close> datagrams queued, it exits with
  "receive overflow", without asking whether there is another one: the eighth slot is never
  used.\<close>

theorem sig_io_overflow:
  assumes "list_all dgram_ok ds" "script w = map arrival ds @ fail EWOULDBLOCK # rest" "dgq_ok q"
    "nqueue q + length ds \<le> QSIZE"
  shows "case sig_io fd q w of
      (Val q', w') \<Rightarrow> nqueue q + length ds < QSIZE \<and> dgq_list q' = dgq_list q @ ds \<and> script w' = rest
    | (r, w') \<Rightarrow> r = Exited 1 \<and> nqueue q + length ds = QSIZE"
proof (cases "nqueue q + length ds = QSIZE")
  case True
  with sig_io_full [OF assms(1,2), of q fd] dgq_ok_iput [OF assms(3)] show ?thesis by (auto split: prod.splits)
next
  case False
  then have lt: "nqueue q + length ds < QSIZE" using assms(4) by simp
  obtain q' w' where q': "sig_io fd q w = (Val q', w')" "q' = (fold dg_put ds q)\<lparr>cntread := cntread q'\<rparr>"
    "script w' = rest"
    using sig_io_drains [OF assms(1,2) lt dgq_ok_iput [OF assms(3)], of fd] by blast
  have "dgq_list q' = dgq_list (fold dg_put ds q)"
    by (subst q'(2)) (simp add: dgq_list_def)
  also have "\<dots> = dgq_list q @ ds"
  proof (rule dgq.put_all [THEN conjunct2, OF assms(3)])
    fix s' k
    assume "dgq_ok s'" "k < length ds" "dgq_list s' = dgq_list q @ take k ds"
    then have "nqueue s' = nqueue q + k"
      using length_ring [of "dg_slots s'" "iget s'" "nqueue s'"] by (simp add: dgq_list_def)
    with \<open>k < length ds\<close> lt show "nqueue s' < QSIZE" by simp
  qed
  finally show ?thesis using q'(1,3) lt by simp
qed

theorem sig_io_overflow_witness:
  "case sig_io 3 dgq_init (start (map arrival (replicate 8 dgram_a) @ fail EWOULDBLOCK # [])) of
      (Val q', w') \<Rightarrow> nqueue dgq_init + length (replicate 8 dgram_a) < QSIZE \<and>
        dgq_list q' = dgq_list dgq_init @ replicate 8 dgram_a \<and> script w' = []
    | (r, w') \<Rightarrow> r = Exited 1 \<and> nqueue dgq_init + length (replicate 8 dgram_a) = QSIZE"
  by (rule sig_io_overflow)
    (simp_all add: start_def dgq_ok_def dgq_init_def QSIZE_def dgram_ok_def dgram_a_def MAXDG_def list_all_iff)

text \<open>A queued datagram is answered: when the main loop is at its test, the queue is not
  empty and the two mask changes and the \<open>sendto\<close> succeed, four actions of the main loop
  send the first datagram of the queue and come back to the test with the rest of it.\<close>

inductive main_steps :: "int \<Rightarrow> nat \<Rightarrow> place \<times> dgq \<times> world \<Rightarrow> place \<times> dgq \<times> world \<Rightarrow> bool" for fd where
  none: "main_steps fd 0 s s"
| more: "main_action fd p q w = (Val (p', q'), w') \<Longrightarrow> (p = AtWait \<longrightarrow> 0 < nqueue q) \<Longrightarrow>
    main_steps fd n (p', q', w') s \<Longrightarrow> main_steps fd (Suc n) (p, q, w) s"

theorem dgecho_answers:
  assumes "dgq_ok q" "dgq_list q = d # ds" "script w = [ok 0, ok (int (length (fst d))), ok 0] @ rest"
  shows "\<exists>q' w'. main_steps fd 4 (AtWait, q, w) (AtWait, q', w') \<and>
    replies fd (trace w') = replies fd (trace w) @ [d] \<and> dgq_list q' = ds \<and> script w' = rest"
proof -
  have n: "0 < nqueue q" using assms(2) by (cases "nqueue q") (simp_all add: dgq_list_def ring_contents_def)
  have front: "dg_slots q ! iget q = d" "dgq_list (dg_pop q) = ds" "iget q < QSIZE"
    using dgq_front [OF assms(1) n] assms(1,2) by (simp_all add: dgq_ok_def)
  define w1 where "w1 = logged (SysOther ''sigprocmask'' [SIG_SETMASK, 2, 0] []) (ok 0) w"
  define w2 where "w2 = logged (SysSendto fd (fst d) 0 (snd d)) (ok (int (length (fst d)))) w1"
  define w3 where "w3 = logged (SysOther ''sigprocmask'' [SIG_BLOCK, 1, 2] []) (ok 0) w2"
  let ?q1 = "q\<lparr>iget := ring_next QSIZE (iget q)\<rparr>"
  have m1: "main_action fd AtWait q w = (Val (AtSend, q), w1)"
    using assms(3) by (simp add: seq_def bind_def Sigprocmask_def void_def call_def sys_def unless_neg1_def
        ret_def w1_def logged_def ok_def)
  have m2: "main_action fd AtSend q w1 = (Val (AtAdvance, q), w2)"
    using assms(3) front by (simp add: seq_def bind_def guard_def Sendto_def call_def sys_def ret_def
        w1_def w2_def logged_def ok_def fits_write_def)
  have m3: "main_action fd AtAdvance q w2 = (Val (AtBlock, ?q1), w2)"
    by (simp add: ret_def)
  have m4: "main_action fd AtBlock ?q1 w2 = (Val (AtWait, dg_pop q), w3)"
    using assms(3) by (simp add: seq_def bind_def Sigprocmask_def void_def call_def sys_def unless_neg1_def
        ret_def w1_def w2_def w3_def logged_def ok_def dg_pop_def)
  have "main_steps fd (Suc (Suc (Suc (Suc 0)))) (AtWait, q, w) (AtWait, dg_pop q, w3)"
    by (intro main_steps.more [OF m1] main_steps.more [OF m2] main_steps.more [OF m3]
        main_steps.more [OF m4] main_steps.none) (simp_all add: n)
  moreover have "replies fd (trace w3) = replies fd (trace w) @ [d]" "script w3 = rest"
    using assms(3) by (simp_all add: w1_def w2_def w3_def)
  ultimately show ?thesis using front(2) by (auto simp: eval_nat_numeral)
qed

theorem dgecho_answers_witness:
  "\<exists>q' w'. main_steps 3 4 (AtWait, dg_put dgram_a dgq_init, start [ok 0, ok 2, ok 0]) (AtWait, q', w') \<and>
    replies 3 (trace w') = replies 3 (trace (start [ok 0, ok 2, ok 0])) @ [dgram_a] \<and> dgq_list q' = [] \<and>
    script w' = []"
proof (rule dgecho_answers)
  have "dgq_ok (dg_put dgram_a dgq_init) \<and> dgq_list (dg_put dgram_a dgq_init) = dgq_list dgq_init @ [dgram_a]"
    by (rule dgq.put [OF dgq_init_ok(1)]) (simp add: dgq_init_def)
  then show "dgq_ok (dg_put dgram_a dgq_init)" "dgq_list (dg_put dgram_a dgq_init) = [dgram_a]"
    by (simp_all add: dgq_init_ok)
qed (simp add: start_def dgram_a_def)

end
