(* ===== verification/Prodcons.thy ===== *)
theory Prodcons
  imports RingBuffer
begin

text \<open>
  The producer and the consumer of threads/example03.c: a ring of \<open>BUFFSIZE\<close> items, a mutex and
  two condition variables.

  A step is an action of one thread, from one call of the pthread library to the next;
  \<open>act t s\<close> is \<open>None\<close> when thread \<open>t\<close> is blocked in a call.  The scheduler is free, and a
  sleeping thread may wake up without a signal.  Proved here: the consumer gets the items in
  the order in which they were produced, at most one thread is in its critical section, the
  buffer stays within its bounds, the program never deadlocks, and the number of its actions
  is bounded by the number of spurious wakeups.

  The mutex and the conditions are static and never initialised.  POSIX does not say that
  zeroed ones can be used; the model takes them as initialised (\<open>pc_init\<close>), as systems do where
  the static initialisers are zero.
\<close>

definition NLOOP :: nat where "NLOOP = 50"
definition BUFFSIZE :: nat where "BUFFSIZE = 10"

record buf_t =
  b_buf :: "int list"
  b_nitems :: nat
  b_nextget :: nat
  b_nextput :: nat

definition buf_init :: buf_t where
  "buf_init = \<lparr>b_buf = replicate BUFFSIZE 0, b_nitems = 0, b_nextget = 0, b_nextput = 0\<rparr>"

text \<open>The statements between the wait and the signal of \<open>produce\<close> and of \<open>consume\<close>.\<close>

definition store :: "int \<Rightarrow> buf_t \<Rightarrow> buf_t" where
  "store val b =
     b\<lparr>b_buf := (b_buf b)[b_nextput b := val],
       b_nextput := ring_next BUFFSIZE (b_nextput b),
       b_nitems := b_nitems b + 1\<rparr>"

definition fetched :: "buf_t \<Rightarrow> int" where
  "fetched b = b_buf b ! b_nextget b"

definition fetch :: "buf_t \<Rightarrow> buf_t" where
  "fetch b =
     b\<lparr>b_nextget := ring_next BUFFSIZE (b_nextget b),
       b_nitems := b_nitems b - 1\<rparr>"

subsection \<open>The threads\<close>

datatype tid = Producer | Consumer

fun other :: "tid \<Rightarrow> tid" where
  "other Producer = Consumer"
| "other Consumer = Producer"

text \<open>
  The places of a thread: before the lock, before the test of the \<open>while\<close>, in
  \<open>pthread_cond_wait\<close>, in it and woken up but without the mutex, after the \<open>while\<close>, before
  the signal, before the unlock, and after its loop.
\<close>

datatype pc = AtLock | AtTest | Asleep | AtRelock | AtBody | AtSignal | AtUnlock | Finished

record pc_state =
  buf :: buf_t
  mutex :: "tid option"
  pcs :: "tid \<Rightarrow> pc"
  rounds :: "tid \<Rightarrow> nat" \<comment> \<open>\<open>i\<close> of \<open>produce_loop\<close> and \<open>consume_loop\<close>\<close>
  consumed :: "int list"

definition pc_init :: pc_state where
  "pc_init = \<lparr>buf = buf_init, mutex = None, pcs = (\<lambda>_. AtLock), rounds = (\<lambda>_. 0), consumed = []\<rparr>"

fun must_wait :: "tid \<Rightarrow> buf_t \<Rightarrow> bool" where
  "must_wait Producer b = (BUFFSIZE \<le> b_nitems b)"
| "must_wait Consumer b = (b_nitems b \<le> 0)"

fun body :: "tid \<Rightarrow> pc_state \<Rightarrow> pc_state" where
  "body Producer s = s\<lparr>buf := store (int (rounds s Producer)) (buf s)\<rparr>"
| "body Consumer s = s\<lparr>buf := fetch (buf s), consumed := consumed s @ [fetched (buf s)]\<rparr>"

definition goto :: "tid \<Rightarrow> pc \<Rightarrow> pc_state \<Rightarrow> pc_state" where
  "goto t p s = s\<lparr>pcs := (pcs s)(t := p)\<rparr>"

definition wake :: "tid \<Rightarrow> pc_state \<Rightarrow> pc_state" where
  \<comment> \<open>\<open>pthread_cond_signal\<close> on the condition \<open>t\<close> waits for\<close>
  "wake t s = (if pcs s t = Asleep then goto t AtRelock s else s)"

definition act :: "tid \<Rightarrow> pc_state \<Rightarrow> pc_state option" where
  "act t s =
     (case pcs s t of
        AtLock \<Rightarrow> if mutex s = None then Some (goto t AtTest (s\<lparr>mutex := Some t\<rparr>)) else None
      | AtTest \<Rightarrow>
          if must_wait t (buf s) then Some (goto t Asleep (s\<lparr>mutex := None\<rparr>))
          else Some (goto t AtBody s)
      | Asleep \<Rightarrow> None
      | AtRelock \<Rightarrow> if mutex s = None then Some (goto t AtTest (s\<lparr>mutex := Some t\<rparr>)) else None
      | AtBody \<Rightarrow> Some (goto t AtSignal (body t s))
      | AtSignal \<Rightarrow> Some (goto t AtUnlock (wake (other t) s))
      | AtUnlock \<Rightarrow>
          let s' = s\<lparr>mutex := None, rounds := (rounds s)(t := rounds s t + 1)\<rparr>
          in Some (goto t (if rounds s t + 1 < NLOOP then AtLock else Finished) s')
      | Finished \<Rightarrow> None)"

inductive pc_step :: "pc_state \<Rightarrow> pc_state \<Rightarrow> bool" where
  act: "act t s = Some s' \<Longrightarrow> pc_step s s'"
| spurious: "pcs s t = Asleep \<Longrightarrow> pc_step s (goto t AtRelock s)"

inductive pc_reach :: "pc_state \<Rightarrow> bool" where
  start: "pc_reach pc_init"
| step: "pc_reach s \<Longrightarrow> pc_step s s' \<Longrightarrow> pc_reach s'"

subsection \<open>The buffer is a queue\<close>

definition buf_ok :: "buf_t \<Rightarrow> bool" where
  "buf_ok b \<longleftrightarrow> length (b_buf b) = BUFFSIZE \<and> b_nextget b < BUFFSIZE \<and> b_nitems b \<le> BUFFSIZE \<and>
     b_nextput b = (b_nextget b + b_nitems b) mod BUFFSIZE"

definition items :: "buf_t \<Rightarrow> int list" where
  "items b = ring_contents (b_buf b) (b_nextget b) (b_nitems b)"

lemma length_items [simp]: "length (items b) = b_nitems b"
  by (simp add: items_def)

lemma buf_init_ok: "buf_ok buf_init" "items buf_init = []"
  by (simp_all add: buf_ok_def buf_init_def items_def BUFFSIZE_def)

lemma BUFFSIZE_pos [simp]: "0 < BUFFSIZE" by (simp add: BUFFSIZE_def)

interpretation buf: fifo buf_ok items "\<lambda>b. b_nitems b < BUFFSIZE" store fetched fetch
proof
  fix b :: buf_t and x
  assume "buf_ok b" "b_nitems b < BUFFSIZE"
  then show "buf_ok (store x b) \<and> items (store x b) = items b @ [x]"
    using ring_put [of "b_nitems b" "b_buf b" "b_nextget b" x]
    by (simp add: buf_ok_def items_def store_def ring_next_add)
next
  fix b :: buf_t
  assume "buf_ok b" "items b \<noteq> []"
  then show "buf_ok (fetch b) \<and> items b = fetched b # items (fetch b)"
    using ring_get [of "b_nextget b" "b_buf b" "b_nitems b"]
      ring_next_shift [of "b_nextget b" BUFFSIZE "b_nitems b - 1"]
    by (auto simp: buf_ok_def items_def fetch_def fetched_def ring_next_less)
qed

subsection \<open>The invariant\<close>

definition holding :: "pc \<Rightarrow> bool" where
  \<comment> \<open>the places inside the critical section\<close>
  "holding p \<longleftrightarrow> p \<in> {AtTest, AtBody, AtSignal, AtUnlock}"

definition past_body :: "pc \<Rightarrow> nat" where
  "past_body p = (if p = AtSignal \<or> p = AtUnlock then 1 else 0)"

definition worked :: "pc_state \<Rightarrow> tid \<Rightarrow> nat" where
  \<comment> \<open>how many times the thread has executed its body\<close>
  "worked s t = rounds s t + past_body (pcs s t)"

definition mutex_inv :: "pc_state \<Rightarrow> bool" where
  "mutex_inv s \<longleftrightarrow> (\<forall>t. mutex s = Some t \<longleftrightarrow> holding (pcs s t))"

definition rounds_inv :: "pc_state \<Rightarrow> bool" where
  "rounds_inv s \<longleftrightarrow> (\<forall>t. if pcs s t = Finished then rounds s t = NLOOP else rounds s t < NLOOP)"

definition hist_inv :: "pc_state \<Rightarrow> bool" where
  "hist_inv s \<longleftrightarrow> buf.hist (buf s) (map int [0..<worked s Producer]) (consumed s) \<and>
     length (consumed s) = worked s Consumer"

definition ready_inv :: "pc_state \<Rightarrow> bool" where
  "ready_inv s \<longleftrightarrow> (\<forall>t. pcs s t = AtBody \<longrightarrow> \<not> must_wait t (buf s))"

definition wakeup_inv :: "pc_state \<Rightarrow> bool" where
  \<comment> \<open>no wakeup is lost\<close>
  "wakeup_inv s \<longleftrightarrow> (\<forall>t. pcs s t = Asleep \<longrightarrow> must_wait t (buf s) \<or> pcs s (other t) = AtSignal)"

lemmas pc_inv_defs = mutex_inv_def rounds_inv_def hist_inv_def ready_inv_def wakeup_inv_def

definition pc_inv :: "pc_state \<Rightarrow> bool" where
  "pc_inv s \<longleftrightarrow> mutex_inv s \<and> rounds_inv s \<and> hist_inv s \<and> ready_inv s \<and> wakeup_inv s"

lemma all_tid: "(\<forall>t. P t) \<longleftrightarrow> P Producer \<and> P Consumer"
  by (metis tid.exhaust)

lemma goto_fields [simp]:
  "buf (goto t p s) = buf s" "mutex (goto t p s) = mutex s" "rounds (goto t p s) = rounds s"
  "consumed (goto t p s) = consumed s" "pcs (goto t p s) = (pcs s)(t := p)"
  by (simp_all add: goto_def)

lemma wake_fields [simp]:
  "buf (wake t s) = buf s" "mutex (wake t s) = mutex s" "rounds (wake t s) = rounds s"
  "consumed (wake t s) = consumed s"
  "pcs (wake t s) = (if pcs s t = Asleep then (pcs s)(t := AtRelock) else pcs s)"
  by (simp_all add: wake_def)

lemma body_fields [simp]:
  "mutex (body t s) = mutex s" "rounds (body t s) = rounds s" "pcs (body t s) = pcs s"
  by (cases t, simp_all)+

lemma other_neq [simp]: "other t \<noteq> t" "t \<noteq> other t" "other (other t) = t"
  by (cases t, simp_all)+

lemma pc_init_inv: "pc_inv pc_init"
  using buf.hist_start [OF buf_init_ok]
  by (simp add: pc_inv_def pc_inv_defs pc_init_def holding_def worked_def past_body_def NLOOP_def)

subsection \<open>Every step keeps it\<close>

lemma act_cases:
  assumes "act t s = Some s'"
  obtains
    (lock) "pcs s t = AtLock \<or> pcs s t = AtRelock" "mutex s = None" "s' = goto t AtTest (s\<lparr>mutex := Some t\<rparr>)"
  | (sleep) "pcs s t = AtTest" "must_wait t (buf s)" "s' = goto t Asleep (s\<lparr>mutex := None\<rparr>)"
  | (pass) "pcs s t = AtTest" "\<not> must_wait t (buf s)" "s' = goto t AtBody s"
  | (work) "pcs s t = AtBody" "s' = goto t AtSignal (body t s)"
  | (signal) "pcs s t = AtSignal" "s' = goto t AtUnlock (wake (other t) s)"
  | (unlock) "pcs s t = AtUnlock"
      "s' = goto t (if rounds s t + 1 < NLOOP then AtLock else Finished)
         (s\<lparr>mutex := None, rounds := (rounds s)(t := rounds s t + 1)\<rparr>)"
  using assms by (auto simp: act_def Let_def split: pc.splits if_splits)

lemma mutual: "mutex_inv s \<Longrightarrow> holding (pcs s t) \<Longrightarrow> holding (pcs s u) \<Longrightarrow> t = u"
  unfolding mutex_inv_def by (metis option.inject)

lemma act_mutex:
  assumes "act t s = Some s'" "mutex_inv s"
  shows "mutex_inv s'"
  using assms(1)
  by (cases rule: act_cases) (use assms(2) in \<open>cases t; auto simp: mutex_inv_def all_tid holding_def\<close>)+

lemma act_rounds:
  assumes "act t s = Some s'" "rounds_inv s"
  shows "rounds_inv s'"
  using assms(1)
proof (cases rule: act_cases)
  case unlock
  then have "rounds s t < NLOOP" using assms(2) by (auto simp: rounds_inv_def split: if_splits)
  then have "Suc (rounds s t) < NLOOP \<or> Suc (rounds s t) = NLOOP" by linarith
  with unlock assms(2) show ?thesis by (auto simp: rounds_inv_def)
qed (use assms(2) in \<open>auto simp: rounds_inv_def\<close>)

lemma act_ready:
  assumes "act t s = Some s'" "mutex_inv s" "ready_inv s"
  shows "ready_inv s'"
  using assms(1)
proof (cases rule: act_cases)
  case work
  have "pcs s u \<noteq> AtBody" if "u \<noteq> t" for u
    using mutual [OF assms(2), of t u] work that by (auto simp: holding_def)
  with work show ?thesis by (auto simp: ready_inv_def)
qed (use assms(3) in \<open>auto simp: ready_inv_def\<close>)

lemma act_wakeup:
  assumes "act t s = Some s'" "mutex_inv s" "wakeup_inv s"
  shows "wakeup_inv s'"
  using assms(1)
proof (cases rule: act_cases)
  case work
  with assms(3) show ?thesis
    by (cases t) (auto simp: wakeup_inv_def all_tid)
next
  case signal
  with assms(3) show ?thesis
    by (cases t) (auto simp: wakeup_inv_def all_tid)
qed (use assms(3) in \<open>cases t; auto simp: wakeup_inv_def all_tid\<close>)+

lemma body_hist:
  assumes "hist_inv s" "pcs s t = AtBody" "\<not> must_wait t (buf s)"
  shows "hist_inv (goto t AtSignal (body t s))"
proof (cases t)
  case Producer
  with assms have "buf.hist (store (int (rounds s Producer)) (buf s))
      (map int [0..<worked s Producer] @ [int (rounds s Producer)]) (consumed s)"
    by (intro buf.hist_put) (simp_all add: hist_inv_def)
  with Producer assms show ?thesis by (simp add: hist_inv_def worked_def past_body_def)
next
  case Consumer
  then have "items (buf s) \<noteq> []" using assms(3) by (auto simp flip: length_greater_0_conv)
  with assms Consumer have "buf.hist (fetch (buf s)) (map int [0..<worked s Producer])
      (consumed s @ [fetched (buf s)])"
    by (intro buf.hist_get) (simp_all add: hist_inv_def)
  with Consumer assms show ?thesis by (simp add: hist_inv_def worked_def past_body_def)
qed

lemma worked_same:
  "buf s' = buf s \<Longrightarrow> consumed s' = consumed s \<Longrightarrow> worked s' = worked s \<Longrightarrow> hist_inv s \<Longrightarrow> hist_inv s'"
  by (simp add: hist_inv_def)

lemma act_hist:
  assumes "act t s = Some s'" "ready_inv s" "hist_inv s"
  shows "hist_inv s'"
  using assms(1)
proof (cases rule: act_cases)
  case work
  with assms show ?thesis by (auto simp: ready_inv_def intro: body_hist)
qed (rule worked_same [OF _ _ _ assms(3)]; auto simp: worked_def past_body_def fun_eq_iff)+

lemma pc_step_inv: "pc_step s s' \<Longrightarrow> pc_inv s \<Longrightarrow> pc_inv s'"
proof (induction rule: pc_step.induct)
  case (act t s s')
  then show ?case
    unfolding pc_inv_def by (blast intro: act_mutex act_rounds act_hist act_ready act_wakeup)
next
  case (spurious s t)
  have "hist_inv (goto t AtRelock s)"
    using spurious worked_same [of "goto t AtRelock s" s]
    by (simp add: pc_inv_def worked_def past_body_def fun_eq_iff)
  moreover have "mutex_inv (goto t AtRelock s)"
    using spurious.prems spurious.hyps unfolding pc_inv_def mutex_inv_def all_tid
    by (cases t) (simp_all add: holding_def)
  moreover have "rounds_inv (goto t AtRelock s)"
    using spurious.prems spurious.hyps unfolding pc_inv_def rounds_inv_def all_tid
    by (cases t) simp_all
  moreover have "ready_inv (goto t AtRelock s)"
    using spurious.prems unfolding pc_inv_def ready_inv_def by simp
  moreover have "wakeup_inv (goto t AtRelock s)"
    using spurious.prems spurious.hyps unfolding pc_inv_def wakeup_inv_def all_tid
    by (cases t) simp_all
  ultimately show ?case by (simp add: pc_inv_def)
qed

lemma pc_reach_inv: "pc_reach s \<Longrightarrow> pc_inv s"
  by (induction rule: pc_reach.induct) (blast intro: pc_init_inv pc_step_inv)+

subsection \<open>No deadlock\<close>

lemma holding_acts: "holding (pcs s t) \<Longrightarrow> act t s \<noteq> None"
  by (auto simp: holding_def act_def Let_def)

lemma worked_rounds: "\<not> holding (pcs s t) \<Longrightarrow> worked s t = rounds s t"
  by (auto simp: worked_def past_body_def holding_def)

lemma stuck_finished:
  assumes "pc_inv s" "\<And>t. act t s = None"
  shows "pcs s t = Finished"
proof -
  have hold: "\<not> holding (pcs s t)" for t using holding_acts assms(2) by blast
  then have free: "mutex s = None"
    using assms(1) by (cases "mutex s") (auto simp: pc_inv_def mutex_inv_def)
  have halt: "pcs s t = Asleep \<or> pcs s t = Finished" for t
    using assms(2) [of t] free by (auto simp: act_def Let_def split: pc.splits if_splits)
  have count: "worked s Producer = worked s Consumer + b_nitems (buf s)"
    using assms(1) buf.hist_length by (fastforce simp: pc_inv_def hist_inv_def)
  have sleep: "pcs s t = Asleep \<Longrightarrow> must_wait t (buf s)" for t
    using assms(1) halt [of "other t"] by (auto simp: pc_inv_def wakeup_inv_def)
  have rounds: "pcs s t = Finished \<Longrightarrow> rounds s t = NLOOP" "pcs s t \<noteq> Finished \<Longrightarrow> rounds s t < NLOOP" for t
    using assms(1) by (auto simp: pc_inv_def rounds_inv_def split: if_splits)
  have "pcs s Producer = Finished \<and> pcs s Consumer = Finished"
    using halt [of Producer] halt [of Consumer] sleep [of Producer] sleep [of Consumer]
      rounds [of Producer] rounds [of Consumer] count worked_rounds [OF hold, of Producer]
      worked_rounds [OF hold, of Consumer] BUFFSIZE_def
    by auto
  then show ?thesis by (cases t) simp_all
qed

subsection \<open>Termination\<close>

text \<open>
  Every action lowers a measure: what is left to be done, and how far each thread is from its
  next body.  A spurious wakeup raises it by 2.
\<close>

fun rank :: "pc \<Rightarrow> nat" where
  "rank Finished = 0"
| "rank Asleep = 0"
| "rank AtBody = 0"
| "rank AtTest = 1"
| "rank AtRelock = 2"
| "rank AtLock = 2"
| "rank AtUnlock = 3"
| "rank AtSignal = 6"

definition todo :: "pc_state \<Rightarrow> nat" where
  "todo s = 7 * ((NLOOP - worked s Producer) + (NLOOP - worked s Consumer)) +
     rank (pcs s Producer) + rank (pcs s Consumer)"

lemma act_todo:
  assumes "act t s = Some s'" "rounds_inv s"
  shows "todo s' < todo s"
  using assms(1)
proof (cases rule: act_cases)
  case work
  then have "rounds s t < NLOOP" using assms(2) by (auto simp: rounds_inv_def split: if_splits)
  with work show ?thesis by (cases t) (auto simp: todo_def worked_def past_body_def)
next
  case signal
  then show ?thesis by (cases t) (auto simp: todo_def worked_def past_body_def)
next
  case unlock
  then show ?thesis by (cases t) (auto simp: todo_def worked_def past_body_def)
qed (cases t; auto simp: todo_def worked_def past_body_def)+

inductive pc_run :: "nat \<Rightarrow> nat \<Rightarrow> pc_state \<Rightarrow> pc_state \<Rightarrow> bool" where
  \<comment> \<open>numbers of actions and of spurious wakeups\<close>
  none: "pc_run 0 0 s s"
| more: "pc_run n k s s' \<Longrightarrow> act t s' = Some s'' \<Longrightarrow> pc_run (Suc n) k s s''"
| woke: "pc_run n k s s' \<Longrightarrow> pcs s' t = Asleep \<Longrightarrow> pc_run n (Suc k) s (goto t AtRelock s')"

lemma pc_run_reach: "pc_run n k pc_init s \<Longrightarrow> pc_reach s"
  by (induction n k "pc_init" s rule: pc_run.induct) (blast intro: pc_reach.intros pc_step.intros)+

lemma pc_reach_run: "pc_reach s \<Longrightarrow> \<exists>n k. pc_run n k pc_init s"
proof (induction rule: pc_reach.induct)
  case (step s s')
  from step.hyps(2) step.IH show ?case
    by (cases rule: pc_step.cases) (blast intro: pc_run.more pc_run.woke)+
qed (blast intro: pc_run.none)

lemma spurious_todo: "pcs s t = Asleep \<Longrightarrow> todo (goto t AtRelock s) = todo s + 2"
  by (cases t) (simp_all add: todo_def worked_def past_body_def)

lemma pc_run_bound: "pc_run n k pc_init s \<Longrightarrow> n + todo s \<le> todo pc_init + 2 * k"
proof (induction n k "pc_init" s rule: pc_run.induct)
  case (more n k s' t s'')
  have "rounds_inv s'" using pc_reach_inv [OF pc_run_reach [OF more.hyps(1)]] by (simp add: pc_inv_def)
  from act_todo [OF more.hyps(3) this] more.hyps(2) show ?case by simp
qed (simp_all add: spurious_todo)

subsection \<open>Properties\<close>

text \<open>C34: in every reachable state, with spurious wakeups too, the consumer has got the
  integers from 0 on in order, none lost and none twice, those produced and not yet got are
  in the buffer, which holds at most \<open>BUFFSIZE\<close>, and at most one thread is in its critical
  section.\<close>

theorem prodcons_order:
  assumes "pc_reach s"
  shows "consumed s @ items (buf s) = map int [0..<worked s Producer] \<and>
    length (consumed s) = worked s Consumer \<and> length (items (buf s)) \<le> BUFFSIZE \<and>
    \<not> (holding (pcs s Producer) \<and> holding (pcs s Consumer))"
proof -
  have inv: "pc_inv s" by (rule pc_reach_inv [OF assms])
  have "\<not> (holding (pcs s Producer) \<and> holding (pcs s Consumer))"
    using mutual [of s Producer Consumer] inv by (auto simp: pc_inv_def)
  with inv show ?thesis
    by (simp add: pc_inv_def hist_inv_def buf.hist_def buf_ok_def)
qed

fun run_acts :: "tid list \<Rightarrow> pc_state \<Rightarrow> pc_state option" where
  \<comment> \<open>the actions of a schedule\<close>
  "run_acts [] s = Some s"
| "run_acts (t # ts) s = (case act t s of None \<Rightarrow> None | Some s' \<Rightarrow> run_acts ts s')"

lemma run_acts_reach: "run_acts ts s = Some s' \<Longrightarrow> pc_reach s \<Longrightarrow> pc_reach s'"
  by (induction ts arbitrary: s) (auto split: option.splits dest: pc_reach.step [OF _ pc_step.act])

lemma run_acts_run: "run_acts ts s = Some s' \<Longrightarrow> pc_run n k s0 s \<Longrightarrow> pc_run (n + length ts) k s0 s'"
  by (induction ts arbitrary: s n) (force split: option.splits intro: pc_run.more)+

definition early :: "tid list" where
  \<comment> \<open>the consumer waits, the producer puts an item and wakes it up\<close>
  "early = [Consumer, Consumer, Producer, Producer, Producer, Producer, Producer, Consumer, Consumer]"

lemma early_runs: "run_acts early pc_init \<noteq> None"
  by (simp add: early_def act_def Let_def pc_init_def buf_init_def BUFFSIZE_def NLOOP_def store_def)

theorem prodcons_order_witness:
  "case run_acts early pc_init of
     None \<Rightarrow> False
   | Some s \<Rightarrow> consumed s @ items (buf s) = map int [0..<worked s Producer] \<and>
       length (consumed s) = worked s Consumer \<and> length (items (buf s)) \<le> BUFFSIZE \<and>
       \<not> (holding (pcs s Producer) \<and> holding (pcs s Consumer))"
proof -
  obtain s where s: "run_acts early pc_init = Some s" using early_runs by blast
  show ?thesis
    using prodcons_order [OF run_acts_reach [OF s pc_reach.start]] unfolding s option.case .
qed

text \<open>C35: the program ends, however it is scheduled, if its threads are woken up without a
  signal only finitely often: a run with \<open>k\<close> spurious wakeups makes at most \<open>704 + 2 * k\<close>
  actions.  It never deadlocks, with spurious wakeups or without: when no thread can act both
  have finished, the consumer has got the \<open>NLOOP\<close> integers in order, and the buffer is
  empty.  Every reachable state is the state after such a run.\<close>

theorem prodcons_ends:
  assumes "pc_run n k pc_init s"
  shows "n \<le> 704 + 2 * k \<and>
    (if act Producer s = None \<and> act Consumer s = None
     then pcs s = (\<lambda>_. Finished) \<and> consumed s = map int [0..<NLOOP] \<and> items (buf s) = []
     else n < 704 + 2 * k)"
proof -
  have bound: "n + todo s \<le> 704 + 2 * k"
    using pc_run_bound [OF assms]
    by (simp add: todo_def pc_init_def worked_def past_body_def NLOOP_def)
  have inv: "pc_inv s" by (rule pc_reach_inv [OF pc_run_reach [OF assms]])
  show ?thesis
  proof (cases "act Producer s = None \<and> act Consumer s = None")
    case True
    then have "act t s = None" for t by (cases t) simp_all
    then have fin: "pcs s t = Finished" for t using stuck_finished [OF inv] by blast
    then have worked: "worked s t = NLOOP" for t
      using inv by (simp add: pc_inv_def rounds_inv_def worked_def past_body_def)
    have all: "map int [0..<NLOOP] = consumed s @ items (buf s)" and "length (consumed s) = NLOOP"
      using inv worked by (simp_all add: pc_inv_def hist_inv_def buf.hist_def)
    moreover have "NLOOP = length (consumed s) + b_nitems (buf s)"
      using arg_cong [where f = length, OF all] by simp
    ultimately have "consumed s = map int [0..<NLOOP]" "items (buf s) = []"
      by (simp_all add: items_def)
    then show ?thesis using fin bound True by auto
  next
    case False
    then obtain t s' where "act t s = Some s'" by auto
    then have "todo s' < todo s" using inv by (intro act_todo) (simp_all add: pc_inv_def)
    with bound False show ?thesis by auto
  qed
qed

theorem prodcons_ends_witness:
  "case run_acts early pc_init of
     None \<Rightarrow> False
   | Some s \<Rightarrow> length early \<le> 704 \<and>
       (if act Producer s = None \<and> act Consumer s = None
        then pcs s = (\<lambda>_. Finished) \<and> consumed s = map int [0..<NLOOP] \<and> items (buf s) = []
        else length early < 704)"
proof -
  obtain s where s: "run_acts early pc_init = Some s" using early_runs by blast
  have "pc_run (length early) 0 pc_init s" using run_acts_run [OF s pc_run.none] by simp
  from prodcons_ends [OF this, unfolded mult_0_right add_0_right] show ?thesis unfolding s option.case .
qed

end
