(* ===== verification/Prethread.thy ===== *)
theory Prethread
  imports RingBuffer
begin

text \<open>
  The prethreaded server of server/serv08.c and server/pthread08.c: the main thread accepts
  connections and puts them into a ring of \<open>MAXNCLI\<close> descriptors, from which any number of
  threads take them, under one mutex and one condition variable.

  A step is an action of one thread, from one call of the pthread library to the next, in any
  order the scheduler may choose; \<open>pthread_cond_signal\<close> may wake up any sleeping thread, and a
  thread may wake up without a signal.  \<open>handed\<close> and \<open>accepted\<close> record what happened.  Proved
  here: every accepted connection is handed to exactly one thread, in the order of acceptance;
  the mutex excludes; the ring holds at most \<open>MAXNCLI - 1\<close>; and the threads are never all
  asleep with a connection waiting.
\<close>

definition MAXNCLI :: nat where "MAXNCLI = 32"

subsection \<open>The ring of descriptors\<close>

record ring =
  clifd :: "int list"
  cl_iget :: nat
  cl_iput :: nat

definition ring_init :: ring where
  "ring_init = \<lparr>clifd = replicate MAXNCLI 0, cl_iget = 0, cl_iput = 0\<rparr>"

definition ring_store :: "int \<Rightarrow> ring \<Rightarrow> ring" where
  "ring_store connfd q =
     q\<lparr>clifd := (clifd q)[cl_iput q := connfd], cl_iput := ring_next MAXNCLI (cl_iput q)\<rparr>"

definition ring_first :: "ring \<Rightarrow> int" where
  "ring_first q = clifd q ! cl_iget q"

definition ring_take :: "ring \<Rightarrow> ring" where
  "ring_take q = q\<lparr>cl_iget := ring_next MAXNCLI (cl_iget q)\<rparr>"

definition ring_ok :: "ring \<Rightarrow> bool" where
  "ring_ok q \<longleftrightarrow> length (clifd q) = MAXNCLI \<and> cl_iget q < MAXNCLI \<and> cl_iput q < MAXNCLI"

definition ring_count :: "ring \<Rightarrow> nat" where
  "ring_count q =
     (if cl_iget q \<le> cl_iput q then cl_iput q - cl_iget q else cl_iput q + MAXNCLI - cl_iget q)"

definition waiting :: "ring \<Rightarrow> int list" where
  "waiting q = ring_contents (clifd q) (cl_iget q) (ring_count q)"

lemma MAXNCLI_pos [simp]: "0 < MAXNCLI" by (simp add: MAXNCLI_def)

lemma ring_count_less: "ring_ok q \<Longrightarrow> ring_count q < MAXNCLI"
  by (auto simp: ring_ok_def ring_count_def)

lemma ring_iput: "ring_ok q \<Longrightarrow> cl_iput q = (cl_iget q + ring_count q) mod MAXNCLI"
  by (auto simp: ring_ok_def ring_count_def)

lemma waiting_empty: "waiting q = [] \<longleftrightarrow> cl_iget q = cl_iput q \<or> \<not> ring_ok q \<and> ring_count q = 0"
  by (auto simp: waiting_def ring_count_def ring_ok_def)

lemma ring_count_store:
  "ring_ok q \<Longrightarrow> ring_next MAXNCLI (cl_iput q) \<noteq> cl_iget q \<Longrightarrow> ring_count (ring_store fd q) = Suc (ring_count q)"
  by (auto simp: ring_ok_def ring_count_def ring_store_def ring_next_def split: if_splits)

lemma ring_count_take:
  "ring_ok q \<Longrightarrow> cl_iget q \<noteq> cl_iput q \<Longrightarrow> ring_count (ring_take q) = ring_count q - 1"
  by (auto simp: ring_ok_def ring_count_def ring_take_def ring_next_def split: if_splits)

interpretation rq: fifo ring_ok waiting "\<lambda>q. ring_next MAXNCLI (cl_iput q) \<noteq> cl_iget q"
  ring_store ring_first ring_take
proof
  fix q :: ring and x
  assume q: "ring_ok q" "ring_next MAXNCLI (cl_iput q) \<noteq> cl_iget q"
  have "ring_count q < length (clifd q)" using ring_count_less [OF q(1)] q(1) by (simp add: ring_ok_def)
  from ring_put [OF this, of "cl_iget q" x] q ring_count_store [OF q]
  show "ring_ok (ring_store x q) \<and> waiting (ring_store x q) = waiting q @ [x]"
    using ring_iput [OF q(1)]
    by (simp add: waiting_def ring_ok_def ring_store_def ring_next_less)
next
  fix q :: ring
  assume q: "ring_ok q" "waiting q \<noteq> []"
  then have "cl_iget q \<noteq> cl_iput q" "0 < ring_count q"
    by (auto simp: waiting_def ring_count_def)
  with ring_get [of "cl_iget q" "clifd q" "ring_count q"] q(1) ring_count_take [OF q(1)]
  show "ring_ok (ring_take q) \<and> waiting q = ring_first q # waiting (ring_take q)"
    by (simp add: waiting_def ring_ok_def ring_take_def ring_first_def ring_next_less)
qed

lemma ring_init_ok: "ring_ok ring_init" "waiting ring_init = []"
  by (simp_all add: ring_ok_def ring_init_def waiting_def ring_count_def)

subsection \<open>The threads\<close>

datatype who = Main | Worker nat

datatype main_pc = MAccept | MLock int | MPut int | MSignal | MUnlock | MExit
datatype worker_pc = WLock | WTest | WAsleep | WRelock | WTake | WUnlock int | WCount int | WServe int

record srv =
  ring_of :: ring
  lock :: "who option"
  main_at :: main_pc
  worker_at :: "nat \<Rightarrow> worker_pc"
  thread_count :: "nat \<Rightarrow> nat"
  accepted :: "int list"
  handed :: "(nat \<times> int) list"

definition srv_init :: srv where
  "srv_init = \<lparr>ring_of = ring_init, lock = None, main_at = MAccept, worker_at = (\<lambda>_. WLock),
     thread_count = (\<lambda>_. 0), accepted = [], handed = []\<rparr>"

definition main_goto :: "main_pc \<Rightarrow> srv \<Rightarrow> srv" where
  "main_goto p s = s\<lparr>main_at := p\<rparr>"

definition worker_goto :: "nat \<Rightarrow> worker_pc \<Rightarrow> srv \<Rightarrow> srv" where
  "worker_goto i p s = s\<lparr>worker_at := (worker_at s)(i := p)\<rparr>"

text \<open>
  The main loop; \<open>connfd\<close> is what the next \<open>accept\<close> returns, \<open>pick\<close> the thread a signal
  wakes up.
\<close>

definition main_act :: "int \<Rightarrow> nat option \<Rightarrow> srv \<Rightarrow> srv option" where
  "main_act connfd pick s =
     (case main_at s of
        MAccept \<Rightarrow> Some (main_goto (MLock connfd) (s\<lparr>accepted := accepted s @ [connfd]\<rparr>))
      | MLock fd \<Rightarrow> if lock s = None then Some (main_goto (MPut fd) (s\<lparr>lock := Some Main\<rparr>)) else None
      | MPut fd \<Rightarrow>
          let q = ring_store fd (ring_of s) in
          Some (main_goto (if cl_iput q = cl_iget q then MExit \<comment> \<open>\<open>err_quit\<close>\<close> else MSignal) (s\<lparr>ring_of := q\<rparr>))
      | MSignal \<Rightarrow>
          Some (main_goto MUnlock
            (case pick of Some i \<Rightarrow> if worker_at s i = WAsleep then worker_goto i WRelock s else s | None \<Rightarrow> s))
      | MUnlock \<Rightarrow> Some (main_goto MAccept (s\<lparr>lock := None\<rparr>))
      | MExit \<Rightarrow> None)"

text \<open>The loop of \<open>thread_main\<close>.\<close>

definition worker_act :: "nat \<Rightarrow> srv \<Rightarrow> srv option" where
  "worker_act i s =
     (case worker_at s i of
        WLock \<Rightarrow> if lock s = None then Some (worker_goto i WTest (s\<lparr>lock := Some (Worker i)\<rparr>)) else None
      | WTest \<Rightarrow>
          if cl_iget (ring_of s) = cl_iput (ring_of s)
          then Some (worker_goto i WAsleep (s\<lparr>lock := None\<rparr>))
          else Some (worker_goto i WTake s)
      | WAsleep \<Rightarrow> None
      | WRelock \<Rightarrow> if lock s = None then Some (worker_goto i WTest (s\<lparr>lock := Some (Worker i)\<rparr>)) else None
      | WTake \<Rightarrow>
          let connfd = ring_first (ring_of s) in
          Some (worker_goto i (WUnlock connfd)
            (s\<lparr>ring_of := ring_take (ring_of s), handed := handed s @ [(i, connfd)]\<rparr>))
      | WUnlock connfd \<Rightarrow> Some (worker_goto i (WCount connfd) (s\<lparr>lock := None\<rparr>))
      | WCount connfd \<Rightarrow>
          Some (worker_goto i (WServe connfd)
            (s\<lparr>thread_count := (thread_count s)(i := thread_count s i + 1)\<rparr>))
      | WServe connfd \<Rightarrow> Some (worker_goto i WLock s))" \<comment> \<open>\<open>web_child\<close> and \<open>Close\<close>\<close>

text \<open>A signal wakes up a sleeping thread when there is one.\<close>

definition picks :: "nat \<Rightarrow> nat option \<Rightarrow> srv \<Rightarrow> bool" where
  "picks n pick s \<longleftrightarrow>
     (case pick of
        Some i \<Rightarrow> i < n \<and> worker_at s i = WAsleep
      | None \<Rightarrow> \<forall>i < n. worker_at s i \<noteq> WAsleep)"

inductive srv_step :: "nat \<Rightarrow> srv \<Rightarrow> srv \<Rightarrow> bool" for n where
  main: "main_act connfd pick s = Some s' \<Longrightarrow> (main_at s = MSignal \<longrightarrow> picks n pick s) \<Longrightarrow> srv_step n s s'"
| worker: "i < n \<Longrightarrow> main_at s \<noteq> MExit \<Longrightarrow> worker_act i s = Some s' \<Longrightarrow> srv_step n s s'"
| spurious: "i < n \<Longrightarrow> main_at s \<noteq> MExit \<Longrightarrow> worker_at s i = WAsleep \<Longrightarrow>
    srv_step n s (worker_goto i WRelock s)"

inductive srv_reach :: "nat \<Rightarrow> srv \<Rightarrow> bool" for n where
  start: "srv_reach n srv_init"
| step: "srv_reach n s \<Longrightarrow> srv_step n s s' \<Longrightarrow> srv_reach n s'"

subsection \<open>The invariant\<close>

fun main_holds :: "main_pc \<Rightarrow> bool" where
  "main_holds (MPut _) = True"
| "main_holds MSignal = True"
| "main_holds MUnlock = True"
| "main_holds MExit = True"
| "main_holds _ = False"

fun worker_holds :: "worker_pc \<Rightarrow> bool" where
  "worker_holds WTest = True"
| "worker_holds WTake = True"
| "worker_holds (WUnlock _) = True"
| "worker_holds _ = False"

fun inflight :: "main_pc \<Rightarrow> int list" where
  \<comment> \<open>accepted and not yet in the ring\<close>
  "inflight (MLock fd) = [fd]"
| "inflight (MPut fd) = [fd]"
| "inflight _ = []"

fun uncounted :: "worker_pc \<Rightarrow> nat" where
  "uncounted (WUnlock _) = 1"
| "uncounted (WCount _) = 1"
| "uncounted _ = 0"

definition taken_by :: "nat \<Rightarrow> (nat \<times> int) list \<Rightarrow> nat" where
  "taken_by i hs = length (filter (\<lambda>h. fst h = i) hs)"

definition lock_inv :: "srv \<Rightarrow> bool" where
  "lock_inv s \<longleftrightarrow> (lock s = Some Main \<longleftrightarrow> main_holds (main_at s)) \<and>
     (\<forall>i. lock s = Some (Worker i) \<longleftrightarrow> worker_holds (worker_at s i))"

definition ring_inv :: "srv \<Rightarrow> bool" where
  "ring_inv s \<longleftrightarrow> main_at s = MExit \<or>
     (\<exists>ps. accepted s = ps @ inflight (main_at s) \<and> rq.hist (ring_of s) ps (map snd (handed s)))"

definition take_inv :: "srv \<Rightarrow> bool" where
  "take_inv s \<longleftrightarrow> (\<forall>i. worker_at s i = WTake \<longrightarrow> cl_iget (ring_of s) \<noteq> cl_iput (ring_of s))"

definition count_inv :: "srv \<Rightarrow> bool" where
  "count_inv s \<longleftrightarrow> (\<forall>i. taken_by i (handed s) = thread_count s i + uncounted (worker_at s i))"

definition awake_inv :: "nat \<Rightarrow> srv \<Rightarrow> bool" where
  "awake_inv n s \<longleftrightarrow> cl_iget (ring_of s) = cl_iput (ring_of s) \<or> main_at s = MSignal \<or> main_at s = MExit \<or>
     (\<exists>i < n. worker_at s i \<noteq> WAsleep)"

definition srv_inv :: "nat \<Rightarrow> srv \<Rightarrow> bool" where
  "srv_inv n s \<longleftrightarrow> lock_inv s \<and> ring_inv s \<and> take_inv s \<and> count_inv s \<and> awake_inv n s"

lemma goto_simps [simp]:
  "ring_of (main_goto p s) = ring_of s" "lock (main_goto p s) = lock s" "main_at (main_goto p s) = p"
  "worker_at (main_goto p s) = worker_at s" "thread_count (main_goto p s) = thread_count s"
  "accepted (main_goto p s) = accepted s" "handed (main_goto p s) = handed s"
  "ring_of (worker_goto i w s) = ring_of s" "lock (worker_goto i w s) = lock s"
  "main_at (worker_goto i w s) = main_at s" "worker_at (worker_goto i w s) = (worker_at s)(i := w)"
  "thread_count (worker_goto i w s) = thread_count s" "accepted (worker_goto i w s) = accepted s"
  "handed (worker_goto i w s) = handed s"
  by (simp_all add: main_goto_def worker_goto_def)

lemma taken_by_simps [simp]:
  "taken_by i [] = 0" "taken_by i (hs @ [(j, fd)]) = taken_by i hs + (if j = i then 1 else 0)"
  by (simp_all add: taken_by_def)

lemma srv_init_inv: "0 < n \<Longrightarrow> srv_inv n srv_init"
  using rq.hist_start [OF ring_init_ok]
  by (auto simp: srv_inv_def lock_inv_def ring_inv_def take_inv_def count_inv_def awake_inv_def srv_init_def)

subsection \<open>The main thread keeps it\<close>

lemma main_act_cases:
  assumes "main_act fd pick s = Some s'"
  obtains
    (accept) "main_at s = MAccept" "s' = main_goto (MLock fd) (s\<lparr>accepted := accepted s @ [fd]\<rparr>)"
  | (lock) c where "main_at s = MLock c" "lock s = None" "s' = main_goto (MPut c) (s\<lparr>lock := Some Main\<rparr>)"
  | (full) c where "main_at s = MPut c" "cl_iput (ring_store c (ring_of s)) = cl_iget (ring_of s)"
      "s' = main_goto MExit (s\<lparr>ring_of := ring_store c (ring_of s)\<rparr>)"
  | (put) c where "main_at s = MPut c" "cl_iput (ring_store c (ring_of s)) \<noteq> cl_iget (ring_of s)"
      "s' = main_goto MSignal (s\<lparr>ring_of := ring_store c (ring_of s)\<rparr>)"
  | (wakes) i where "main_at s = MSignal" "pick = Some i" "worker_at s i = WAsleep"
      "s' = main_goto MUnlock (worker_goto i WRelock s)"
  | (nobody) "main_at s = MSignal" "pick = None \<or> (\<exists>i. pick = Some i \<and> worker_at s i \<noteq> WAsleep)"
      "s' = main_goto MUnlock s"
  | (unlock) "main_at s = MUnlock" "s' = main_goto MAccept (s\<lparr>lock := None\<rparr>)"
proof -
  have iget: "cl_iget (ring_store c q) = cl_iget q" for c q by (simp add: ring_store_def)
  show ?thesis
    using assms that
    by (auto simp: main_act_def Let_def iget split: main_pc.splits if_splits option.splits)
qed

lemma main_excludes: "lock_inv s \<Longrightarrow> main_holds (main_at s) \<Longrightarrow> \<not> worker_holds (worker_at s i)"
  unfolding lock_inv_def by (metis option.inject who.distinct(1))

lemma worker_excludes:
  "lock_inv s \<Longrightarrow> worker_holds (worker_at s i) \<Longrightarrow> worker_holds (worker_at s j) \<Longrightarrow> i = j"
  unfolding lock_inv_def by (metis option.inject who.inject)

lemma main_lock_inv:
  assumes "main_act fd pick s = Some s'" "lock_inv s"
  shows "lock_inv s'"
  using assms(1)
proof (cases rule: main_act_cases)
  case (lock c)
  with assms(2) show ?thesis by (auto simp: lock_inv_def)
next
  case unlock
  with assms(2) show ?thesis by (auto simp: lock_inv_def)
qed (use assms(2) in \<open>auto simp: lock_inv_def\<close>)

lemma main_ring_inv:
  assumes "main_act fd pick s = Some s'" "ring_inv s"
  shows "ring_inv s'"
  using assms(1)
proof (cases rule: main_act_cases)
  case (put c)
  then obtain ps where ps: "accepted s = ps @ [c]" "rq.hist (ring_of s) ps (map snd (handed s))"
    using assms(2) by (auto simp: ring_inv_def)
  have "rq.hist (ring_store c (ring_of s)) (ps @ [c]) (map snd (handed s))"
    by (rule rq.hist_put [OF ps(2)]) (use put(2) in \<open>simp add: ring_store_def\<close>)
  with put ps(1) show ?thesis by (auto simp: ring_inv_def)
qed (use assms(2) in \<open>auto simp: ring_inv_def\<close>)

lemma main_take_inv:
  assumes "main_act fd pick s = Some s'" "lock_inv s" "take_inv s"
  shows "take_inv s'"
  using assms(1)
proof (cases rule: main_act_cases)
  case (full c)
  then have "worker_at s i \<noteq> WTake" for i
    using main_excludes [OF assms(2), of i] by auto
  with full show ?thesis by (simp add: take_inv_def)
next
  case (put c)
  then have "worker_at s i \<noteq> WTake" for i
    using main_excludes [OF assms(2), of i] by auto
  with put show ?thesis by (simp add: take_inv_def)
qed (use assms(3) in \<open>auto simp: take_inv_def\<close>)

lemma main_count_inv:
  assumes "main_act fd pick s = Some s'" "count_inv s"
  shows "count_inv s'"
  using assms(1)
proof (cases rule: main_act_cases)
  case (wakes i)
  then have "uncounted (worker_at s i) = 0" by simp
  with wakes assms(2) show ?thesis by (auto simp: count_inv_def)
qed (use assms(2) in \<open>auto simp: count_inv_def\<close>)

lemma main_awake_inv:
  assumes "main_act fd pick s = Some s'" "main_at s = MSignal \<longrightarrow> picks n pick s" "0 < n" "awake_inv n s"
  shows "awake_inv n s'"
  using assms(1)
proof (cases rule: main_act_cases)
  case (wakes i)
  with assms(2) have "i < n" by (simp add: picks_def)
  with wakes show ?thesis by (auto simp: awake_inv_def)
next
  case nobody
  with assms(2,3) show ?thesis by (auto simp: picks_def awake_inv_def)
qed (use assms(4) in \<open>auto simp: awake_inv_def\<close>)

subsection \<open>The other threads keep it\<close>

lemma worker_act_cases:
  assumes "worker_act i s = Some s'"
  obtains
    (lock) "worker_at s i = WLock \<or> worker_at s i = WRelock" "lock s = None"
      "s' = worker_goto i WTest (s\<lparr>lock := Some (Worker i)\<rparr>)"
  | (sleep) "worker_at s i = WTest" "cl_iget (ring_of s) = cl_iput (ring_of s)"
      "s' = worker_goto i WAsleep (s\<lparr>lock := None\<rparr>)"
  | (pass) "worker_at s i = WTest" "cl_iget (ring_of s) \<noteq> cl_iput (ring_of s)" "s' = worker_goto i WTake s"
  | (take) "worker_at s i = WTake"
      "s' = worker_goto i (WUnlock (ring_first (ring_of s)))
        (s\<lparr>ring_of := ring_take (ring_of s), handed := handed s @ [(i, ring_first (ring_of s))]\<rparr>)"
  | (unlock) c where "worker_at s i = WUnlock c" "s' = worker_goto i (WCount c) (s\<lparr>lock := None\<rparr>)"
  | (count) c where "worker_at s i = WCount c"
      "s' = worker_goto i (WServe c) (s\<lparr>thread_count := (thread_count s)(i := thread_count s i + 1)\<rparr>)"
  | (serve) c where "worker_at s i = WServe c" "s' = worker_goto i WLock s"
  using assms that by (auto simp: worker_act_def Let_def split: worker_pc.splits if_splits)

lemma worker_lock_inv:
  assumes "worker_act i s = Some s'" "lock_inv s"
  shows "lock_inv s'"
proof -
  have holder: "worker_holds (worker_at s i) \<Longrightarrow> lock s = Some (Worker i)"
    using assms(2) by (simp add: lock_inv_def)
  from assms(1) show ?thesis
    by (cases rule: worker_act_cases) (use assms(2) holder in \<open>auto simp: lock_inv_def\<close>)
qed

lemma worker_ring_inv:
  assumes "worker_act i s = Some s'" "main_at s \<noteq> MExit" "take_inv s" "ring_inv s"
  shows "ring_inv s'"
  using assms(1)
proof (cases rule: worker_act_cases)
  case take
  obtain ps where ps: "accepted s = ps @ inflight (main_at s)" "rq.hist (ring_of s) ps (map snd (handed s))"
    using assms(2,4) by (auto simp: ring_inv_def)
  have "waiting (ring_of s) \<noteq> []"
    using take(1) assms(3) rq.hist_ok [OF ps(2)] by (auto simp: waiting_empty take_inv_def)
  from rq.hist_get [OF ps(2) this] ps(1) take show ?thesis by (auto simp: ring_inv_def)
qed (use assms(4) in \<open>auto simp: ring_inv_def\<close>)

lemma worker_take_inv:
  assumes "worker_act i s = Some s'" "lock_inv s" "take_inv s"
  shows "take_inv s'"
  using assms(1)
proof (cases rule: worker_act_cases)
  case take
  then have "worker_at s j \<noteq> WTake" if "j \<noteq> i" for j
    using worker_excludes [OF assms(2), of i j] that by auto
  with take show ?thesis by (auto simp: take_inv_def)
qed (use assms(3) in \<open>auto simp: take_inv_def\<close>)

lemma worker_count_inv:
  assumes "worker_act i s = Some s'" "count_inv s"
  shows "count_inv s'"
proof -
  have i: "taken_by i (handed s) = thread_count s i + uncounted (worker_at s i)"
    using assms(2) by (simp add: count_inv_def)
  from assms(1) show ?thesis
    by (cases rule: worker_act_cases) (use assms(2) i in \<open>auto simp: count_inv_def\<close>)
qed

lemma worker_awake_inv:
  assumes "worker_act i s = Some s'" "i < n" "awake_inv n s"
  shows "awake_inv n s'"
  using assms(1)
proof (cases rule: worker_act_cases)
  case sleep
  then show ?thesis by (simp add: awake_inv_def)
qed (use assms(2) in \<open>auto simp: awake_inv_def\<close>)

lemma spurious_inv:
  assumes "srv_inv n s" "i < n" "worker_at s i = WAsleep"
  shows "srv_inv n (worker_goto i WRelock s)"
  using assms
  by (auto simp: srv_inv_def lock_inv_def ring_inv_def take_inv_def count_inv_def awake_inv_def)

lemma srv_step_inv: "srv_step n s s' \<Longrightarrow> 0 < n \<Longrightarrow> srv_inv n s \<Longrightarrow> srv_inv n s'"
proof (induction rule: srv_step.induct)
  case (main connfd pick s s')
  then show ?case
    unfolding srv_inv_def
    by (blast intro: main_lock_inv main_ring_inv main_take_inv main_count_inv main_awake_inv)
next
  case (worker i s s')
  then show ?case
    unfolding srv_inv_def
    by (blast intro: worker_lock_inv worker_ring_inv worker_take_inv worker_count_inv worker_awake_inv)
next
  case (spurious i s)
  then show ?case by (blast intro: spurious_inv)
qed

lemma srv_reach_inv: "srv_reach n s \<Longrightarrow> 0 < n \<Longrightarrow> srv_inv n s"
  by (induction rule: srv_reach.induct) (blast intro: srv_init_inv srv_step_inv)+

subsection \<open>Properties\<close>

text \<open>C36: in every reachable state of the running server, whatever the scheduling, the
  connections handed to the threads, then those waiting in the ring, then the one the main
  thread is putting are those accepted, in order: each is handed to exactly one thread.  A
  thread's count is the number of connections it was handed, but for the one it has not
  counted yet; no two threads are in the critical section; the ring holds fewer than
  \<open>MAXNCLI\<close>; and with a connection waiting some thread is awake or about to be woken.\<close>

theorem serv08_handoff:
  assumes "srv_reach n s" "0 < n" "main_at s \<noteq> MExit"
  shows "accepted s = map snd (handed s) @ waiting (ring_of s) @ inflight (main_at s) \<and>
    taken_by i (handed s) = thread_count s i + uncounted (worker_at s i) \<and>
    \<not> (main_holds (main_at s) \<and> worker_holds (worker_at s i)) \<and>
    \<not> (i \<noteq> j \<and> worker_holds (worker_at s i) \<and> worker_holds (worker_at s j)) \<and>
    length (waiting (ring_of s)) < MAXNCLI \<and>
    (waiting (ring_of s) = [] \<or> main_at s = MSignal \<or> (\<exists>k < n. worker_at s k \<noteq> WAsleep))"
proof -
  have inv: "srv_inv n s" by (rule srv_reach_inv [OF assms(1,2)])
  obtain ps where ps: "accepted s = ps @ inflight (main_at s)" "rq.hist (ring_of s) ps (map snd (handed s))"
    using inv assms(3) by (auto simp: srv_inv_def ring_inv_def)
  have ok: "ring_ok (ring_of s)" by (rule rq.hist_ok [OF ps(2)])
  have "length (waiting (ring_of s)) < MAXNCLI"
    using ring_count_less [OF ok] by (simp add: waiting_def)
  moreover have "\<not> (main_holds (main_at s) \<and> worker_holds (worker_at s i))"
    using main_excludes inv by (auto simp: srv_inv_def)
  moreover have "\<not> (i \<noteq> j \<and> worker_holds (worker_at s i) \<and> worker_holds (worker_at s j))"
    using worker_excludes inv by (auto simp: srv_inv_def)
  moreover have "waiting (ring_of s) = [] \<or> main_at s = MSignal \<or> (\<exists>k < n. worker_at s k \<noteq> WAsleep)"
    using inv assms(3) by (auto simp: srv_inv_def awake_inv_def waiting_empty)
  ultimately show ?thesis
    using ps inv by (simp add: rq.hist_def srv_inv_def count_inv_def)
qed

text \<open>A run under a given schedule.\<close>

datatype turn = MainTurn int "nat option" | WorkerTurn nat

fun take_turn :: "nat \<Rightarrow> turn \<Rightarrow> srv \<Rightarrow> srv option" where
  "take_turn n (MainTurn fd pick) s =
     (if main_at s = MSignal \<and> \<not> picks n pick s then None else main_act fd pick s)"
| "take_turn n (WorkerTurn i) s =
     (if i < n \<and> main_at s \<noteq> MExit then worker_act i s else None)"

fun srv_run :: "nat \<Rightarrow> turn list \<Rightarrow> srv \<Rightarrow> srv option" where
  "srv_run n [] s = Some s"
| "srv_run n (e # es) s = (case take_turn n e s of None \<Rightarrow> None | Some s' \<Rightarrow> srv_run n es s')"

lemma take_turn_step: "take_turn n e s = Some s' \<Longrightarrow> srv_step n s s'"
  by (cases e) (auto split: if_splits intro: srv_step.intros)

lemma srv_run_reach: "srv_run n es s = Some s' \<Longrightarrow> srv_reach n s \<Longrightarrow> srv_reach n s'"
  by (induction es arbitrary: s) (auto split: option.splits dest!: take_turn_step dest: srv_reach.step)

definition one_conn :: "turn list" where
  \<comment> \<open>thread 0 sleeps, connection 7 is accepted, thread 0 is woken up and takes it\<close>
  "one_conn = [WorkerTurn 0, WorkerTurn 0, MainTurn 7 None, MainTurn 7 None, MainTurn 7 None,
     MainTurn 7 (Some 0), MainTurn 7 None, WorkerTurn 0, WorkerTurn 0, WorkerTurn 0]"

lemma one_conn_runs:
  "\<exists>s. srv_run 2 one_conn srv_init = Some s \<and> main_at s \<noteq> MExit"
  by (simp add: one_conn_def srv_init_def ring_init_def main_act_def worker_act_def Let_def picks_def
      ring_store_def ring_next_def MAXNCLI_def)

theorem serv08_handoff_witness:
  "case srv_run 2 one_conn srv_init of
     None \<Rightarrow> False
   | Some s \<Rightarrow> accepted s = map snd (handed s) @ waiting (ring_of s) @ inflight (main_at s) \<and>
      taken_by 0 (handed s) = thread_count s 0 + uncounted (worker_at s 0) \<and>
      \<not> (main_holds (main_at s) \<and> worker_holds (worker_at s 0)) \<and>
      \<not> (0 \<noteq> (1 :: nat) \<and> worker_holds (worker_at s 0) \<and> worker_holds (worker_at s 1)) \<and>
      length (waiting (ring_of s)) < MAXNCLI \<and>
      (waiting (ring_of s) = [] \<or> main_at s = MSignal \<or> (\<exists>k < 2. worker_at s k \<noteq> WAsleep))"
proof -
  obtain s where s: "srv_run 2 one_conn srv_init = Some s" "main_at s \<noteq> MExit"
    using one_conn_runs by blast
  have reach: "srv_reach 2 s" by (rule srv_run_reach [OF s(1) srv_reach.start])
  have "(0 :: nat) < 2" by simp
  from serv08_handoff [OF reach this s(2), of 0 1] show ?thesis unfolding s(1) option.case .
qed

end
