(* ===== verification/WebThreads.thy ===== *)
theory WebThreads
  imports Main
begin

text \<open>
  The web clients with threads, threads/web02.c and threads/web03.c: one thread for each file,
  at most \<open>maxnconn\<close> at a time, and a main thread that joins those that have finished.

  A step is an action of one thread, from one access of shared data or call of the pthread
  library to the next, in any order the scheduler may choose.  Reading a file is one action:
  it has no shared data.  Proved here: the counters of the main thread agree with the flags
  of the files and the "nothing found" exit is never taken; and both programs can get stuck,
  because a thread sets \<open>F_DONE\<close> before it takes the mutex.
\<close>

definition F_CONNECTING :: int where "F_CONNECTING = 1"
definition F_READING :: int where "F_READING = 2"
definition F_DONE :: int where "F_DONE = 4"
definition F_JOINED :: int where "F_JOINED = 8"

unbundle bit_operations_syntax

lemmas flag_defs = F_CONNECTING_def F_READING_def F_DONE_def F_JOINED_def

datatype version = Web02 | Web03

datatype who = MainThread | FileThread nat

text \<open>
  The places of the main thread: the test of the outer loop, the inner loop, in web02.c the
  assignment to \<open>f_flags\<close> after \<open>pthread_create\<close>, the lock, the test of \<open>ndone\<close>, asleep and
  woken up in \<open>pthread_cond_wait\<close>, the scan at file \<open>i\<close>, in \<open>pthread_join\<close> for file \<open>i\<close>, the
  unlock, after \<open>exit(0)\<close>, and after \<open>err_quit\<close>.
\<close>

datatype main_pc = MLoop | MFill | MMark nat | MLock | MTest | MAsleep | MRelock | MScan nat | MJoin nat
  | MUnlock | MDone | MQuit

datatype file_pc = TNone | TConnect | TRead | TLock | TInc | TSignal | TUnlock | TExit

record wst =
  f_flags :: "nat \<Rightarrow> int"
  nconn :: int
  nlefttoconn :: int
  nlefttoread :: int
  ndone :: int
  ndone_mutex :: "who option"
  main_pc :: main_pc
  file_pc :: "nat \<Rightarrow> file_pc"

definition wst_init :: "nat \<Rightarrow> wst" where
  "wst_init nfiles = \<lparr>f_flags = (\<lambda>_. 0), nconn = 0, nlefttoconn = int nfiles, nlefttoread = int nfiles,
     ndone = 0, ndone_mutex = None, main_pc = MLoop, file_pc = (\<lambda>_. TNone)\<rparr>"

definition set_main :: "main_pc \<Rightarrow> wst \<Rightarrow> wst" where "set_main p s = s\<lparr>main_pc := p\<rparr>"
definition set_file :: "nat \<Rightarrow> file_pc \<Rightarrow> wst \<Rightarrow> wst" where
  "set_file i p s = s\<lparr>file_pc := (file_pc s)(i := p)\<rparr>"
definition set_flags :: "nat \<Rightarrow> int \<Rightarrow> wst \<Rightarrow> wst" where
  "set_flags i f s = s\<lparr>f_flags := (f_flags s)(i := f)\<rparr>"

definition find_free :: "nat \<Rightarrow> wst \<Rightarrow> nat option" where
  \<comment> \<open>the first file with no flag\<close>
  "find_free nfiles s = List.find (\<lambda>i. f_flags s i = 0) [0..<nfiles]"

definition create :: "nat \<Rightarrow> wst \<Rightarrow> wst" where
  "create i s = set_file i TConnect s"

definition one_more :: "wst \<Rightarrow> wst" where
  "one_more s = s\<lparr>nconn := nconn s + 1, nlefttoconn := nlefttoconn s - 1\<rparr>"

definition main_step :: "version \<Rightarrow> nat \<Rightarrow> int \<Rightarrow> wst \<Rightarrow> wst option" where
  "main_step v nfiles maxnconn s =
     (case main_pc s of
        MLoop \<Rightarrow> Some (set_main (if 0 < nlefttoread s then MFill else MDone) s)
      | MFill \<Rightarrow>
          if nconn s < maxnconn \<and> 0 < nlefttoconn s then
            (case find_free nfiles s of
               None \<Rightarrow> Some (set_main MQuit s)
             | Some i \<Rightarrow>
                 (case v of
                    Web03 \<Rightarrow> Some (one_more (create i (set_flags i F_CONNECTING s)))
                  | Web02 \<Rightarrow> Some (set_main (MMark i) (create i s))))
          else Some (set_main MLock s)
      | MMark i \<Rightarrow> Some (set_main MFill (one_more (set_flags i F_CONNECTING s)))
      | MLock \<Rightarrow>
          if ndone_mutex s = None then Some (set_main MTest (s\<lparr>ndone_mutex := Some MainThread\<rparr>)) else None
      | MTest \<Rightarrow>
          (case v of
             Web03 \<Rightarrow>
               if ndone s = 0 then Some (set_main MAsleep (s\<lparr>ndone_mutex := None\<rparr>))
               else Some (set_main (MScan 0) s)
           | Web02 \<Rightarrow> Some (set_main (if 0 < ndone s then MScan 0 else MUnlock) s))
      | MAsleep \<Rightarrow> None
      | MRelock \<Rightarrow>
          if ndone_mutex s = None then Some (set_main MTest (s\<lparr>ndone_mutex := Some MainThread\<rparr>)) else None
      | MScan i \<Rightarrow>
          if i < nfiles then
            Some (set_main (if f_flags s i AND F_DONE \<noteq> 0 then MJoin i else MScan (i + 1)) s)
          else Some (set_main MUnlock s)
      | MJoin i \<Rightarrow>
          if file_pc s i = TExit then
            Some (set_main (MScan (i + 1))
              ((set_flags i F_JOINED s)\<lparr>ndone := ndone s - 1, nconn := nconn s - 1,
                 nlefttoread := nlefttoread s - 1\<rparr>))
          else None
      | MUnlock \<Rightarrow> Some (set_main MLoop (s\<lparr>ndone_mutex := None\<rparr>))
      | MDone \<Rightarrow> None
      | MQuit \<Rightarrow> None)"

text \<open>\<open>do_get_read\<close>; in web02.c there is no condition to signal.\<close>

definition file_step :: "version \<Rightarrow> nat \<Rightarrow> wst \<Rightarrow> wst option" where
  "file_step v i s =
     (case file_pc s i of
        TNone \<Rightarrow> None
      | TConnect \<Rightarrow> Some (set_file i TRead (set_flags i F_READING s)) \<comment> \<open>\<open>write_get_cmd\<close>\<close>
      | TRead \<Rightarrow> Some (set_file i TLock (set_flags i F_DONE s))
      | TLock \<Rightarrow>
          if ndone_mutex s = None then Some (set_file i TInc (s\<lparr>ndone_mutex := Some (FileThread i)\<rparr>)) else None
      | TInc \<Rightarrow> Some (set_file i (case v of Web02 \<Rightarrow> TUnlock | Web03 \<Rightarrow> TSignal) (s\<lparr>ndone := ndone s + 1\<rparr>))
      | TSignal \<Rightarrow> Some (set_file i TUnlock (if main_pc s = MAsleep then set_main MRelock s else s))
      | TUnlock \<Rightarrow> Some (set_file i TExit (s\<lparr>ndone_mutex := None\<rparr>))
      | TExit \<Rightarrow> None)"

fun web_step :: "version \<Rightarrow> nat \<Rightarrow> int \<Rightarrow> who \<Rightarrow> wst \<Rightarrow> wst option" where
  "web_step v nfiles maxnconn MainThread s = main_step v nfiles maxnconn s"
| "web_step v nfiles maxnconn (FileThread i) s =
     (if main_pc s \<in> {MDone, MQuit} then None else file_step v i s)"

inductive web_reach :: "version \<Rightarrow> nat \<Rightarrow> int \<Rightarrow> wst \<Rightarrow> wst \<Rightarrow> bool" for v n m s0 where
  refl: "web_reach v n m s0 s0"
| step: "web_reach v n m s0 s \<Longrightarrow> web_step v n m t s = Some s' \<Longrightarrow> web_reach v n m s0 s'"
| spurious: "web_reach v n m s0 s \<Longrightarrow> main_pc s = MAsleep \<Longrightarrow> web_reach v n m s0 (set_main MRelock s)"

fun schedule :: "version \<Rightarrow> nat \<Rightarrow> int \<Rightarrow> who list \<Rightarrow> wst \<Rightarrow> wst option" where
  "schedule v n m [] s = Some s"
| "schedule v n m (t # ts) s =
     (case web_step v n m t s of None \<Rightarrow> None | Some s' \<Rightarrow> schedule v n m ts s')"

lemma schedule_reach: "schedule v n m ts s' = Some s'' \<Longrightarrow> web_reach v n m s s' \<Longrightarrow> web_reach v n m s s''"
  by (induction ts arbitrary: s') (auto split: option.splits dest: web_reach.step)

lemma set_simps [simp]:
  "main_pc (set_main p s) = p" "file_pc (set_main p s) = file_pc s" "f_flags (set_main p s) = f_flags s"
  "nconn (set_main p s) = nconn s" "nlefttoconn (set_main p s) = nlefttoconn s"
  "nlefttoread (set_main p s) = nlefttoread s" "ndone (set_main p s) = ndone s"
  "ndone_mutex (set_main p s) = ndone_mutex s"
  "main_pc (set_file i q s) = main_pc s" "file_pc (set_file i q s) = (file_pc s)(i := q)"
  "f_flags (set_file i q s) = f_flags s" "nconn (set_file i q s) = nconn s"
  "nlefttoconn (set_file i q s) = nlefttoconn s" "nlefttoread (set_file i q s) = nlefttoread s"
  "ndone (set_file i q s) = ndone s" "ndone_mutex (set_file i q s) = ndone_mutex s"
  "main_pc (set_flags i f s) = main_pc s" "file_pc (set_flags i f s) = file_pc s"
  "f_flags (set_flags i f s) = (f_flags s)(i := f)" "nconn (set_flags i f s) = nconn s"
  "nlefttoconn (set_flags i f s) = nlefttoconn s" "nlefttoread (set_flags i f s) = nlefttoread s"
  "ndone (set_flags i f s) = ndone s" "ndone_mutex (set_flags i f s) = ndone_mutex s"
  by (simp_all add: set_main_def set_file_def set_flags_def)

subsection \<open>Getting stuck\<close>

text \<open>
  The main thread joins a thread while it holds the mutex that this thread waits for: from
  then on neither moves.
\<close>

definition embraced :: "nat \<Rightarrow> wst \<Rightarrow> bool" where
  "embraced i s \<longleftrightarrow> main_pc s = MJoin i \<and> ndone_mutex s = Some MainThread \<and> file_pc s i = TLock \<and>
     (\<forall>j. file_pc s j \<notin> {TInc, TSignal, TUnlock})"

definition stuck_forever :: "version \<Rightarrow> nat \<Rightarrow> int \<Rightarrow> wst \<Rightarrow> bool" where
  \<comment> \<open>whatever is done from here, the main thread does not leave its outer loop\<close>
  "stuck_forever v n m s \<longleftrightarrow>
     (\<forall>s'. web_reach v n m s s' \<longrightarrow> main_pc s' = main_pc s \<and> main_pc s' \<noteq> MDone \<and> 0 < nlefttoread s')"

lemma embraced_step:
  assumes "embraced i s" "web_step v n m t s = Some s'"
  shows "embraced i s' \<and> nlefttoread s' = nlefttoread s"
proof (cases t)
  case MainThread
  with assms show ?thesis by (simp add: embraced_def main_step_def)
next
  case (FileThread j)
  have "file_step v j s = Some s'" using assms FileThread by (simp add: embraced_def)
  moreover have "file_pc s j \<notin> {TInc, TSignal, TUnlock}" using assms(1) by (auto simp: embraced_def)
  ultimately show ?thesis
    using assms(1)
    by (cases "file_pc s j") (auto simp: file_step_def embraced_def split: if_splits)
qed

lemma embraced_stuck:
  assumes "embraced i s" "0 < nlefttoread s"
  shows "stuck_forever v n m s"
proof -
  have "embraced i s' \<and> nlefttoread s' = nlefttoread s" if "web_reach v n m s s'" for s'
    using that
  proof (induction rule: web_reach.induct)
    case refl
    then show ?case by (simp add: assms(1))
  next
    case (step s1 t s2)
    then show ?case using embraced_step by metis
  next
    case (spurious s1)
    then show ?case by (simp add: embraced_def)
  qed
  then show ?thesis
    using assms by (simp add: stuck_forever_def embraced_def)
qed

definition embrace :: "version \<Rightarrow> who list" where
  \<comment> \<open>thread 0 ends, thread 1 has set \<open>F_DONE\<close> and waits, the main thread scans\<close>
  "embrace v =
     replicate (case v of Web02 \<Rightarrow> 6 | Web03 \<Rightarrow> 4) MainThread @
     replicate (case v of Web02 \<Rightarrow> 5 | Web03 \<Rightarrow> 6) (FileThread 0) @
     replicate 2 (FileThread 1) @ replicate 5 MainThread"

lemma embrace_runs: "\<exists>s. schedule v 2 2 (embrace v) (wst_init 2) = Some s \<and> embraced 1 s \<and> nlefttoread s = 1"
proof -
  have n2: "[0..<2] = [0, 1::nat]" by (simp add: numeral_2_eq_2)
  show ?thesis
    by (cases v)
      (simp_all add: embrace_def wst_init_def main_step_def file_step_def find_free_def n2 create_def one_more_def
        flag_defs embraced_def eval_nat_numeral)
qed

subsection \<open>The counters of web03.c\<close>

definition tally :: "nat \<Rightarrow> (int \<Rightarrow> bool) \<Rightarrow> (nat \<Rightarrow> int) \<Rightarrow> int" where
  \<comment> \<open>the number of files whose flags satisfy \<open>P\<close>\<close>
  "tally n P f = (\<Sum>i<n. if P (f i) then 1 else 0)"

lemma tally_update:
  assumes "i < n"
  shows "tally n P (f(i := x)) = tally n P f - (if P (f i) then 1 else 0) + (if P x then 1 else 0)"
proof -
  let ?g = "\<lambda>f j. if P (f j) then 1 else (0::int)"
  have "tally n P g = ?g g i + (\<Sum>j\<in>{..<n} - {i}. ?g g j)" for g
    unfolding tally_def by (rule sum.remove) (use assms in simp_all)
  from this [of f] this [of "f(i := x)"] show ?thesis by simp
qed

lemma tally_none: "tally n P f \<le> 0 \<Longrightarrow> i < n \<Longrightarrow> \<not> P (f i)"
  using sum_nonneg_eq_0_iff [of "{..<n}" "\<lambda>i. if P (f i) then 1 else (0::int)"]
    sum_nonneg [of "{..<n}" "\<lambda>i. if P (f i) then 1 else (0::int)"]
  by (force simp: tally_def)

lemma tally_pos: "0 < tally n P f \<Longrightarrow> \<exists>i < n. P (f i)"
  by (rule ccontr) (simp add: tally_def)

lemma tally_mono: "(\<And>x. P x \<Longrightarrow> Q x) \<Longrightarrow> tally n P f \<le> tally n Q f"
  by (auto simp: tally_def intro!: sum_mono)

definition flags_of :: "file_pc \<Rightarrow> int set" where
  "flags_of p =
     (case p of TNone \<Rightarrow> {0} | TConnect \<Rightarrow> {F_CONNECTING} | TRead \<Rightarrow> {F_READING}
      | TExit \<Rightarrow> {F_DONE, F_JOINED} | _ \<Rightarrow> {F_DONE})"

definition web_inv :: "nat \<Rightarrow> int \<Rightarrow> wst \<Rightarrow> bool" where
  "web_inv n m s \<longleftrightarrow>
     (\<forall>i. f_flags s i \<in> flags_of (file_pc s i) \<and> (n \<le> i \<longrightarrow> file_pc s i = TNone)) \<and>
     nlefttoconn s = tally n (\<lambda>f. f = 0) (f_flags s) \<and>
     nlefttoread s = tally n (\<lambda>f. f \<noteq> F_JOINED) (f_flags s) \<and>
     nconn s = nlefttoread s - nlefttoconn s \<and> nconn s \<le> max 0 m \<and>
     (\<forall>i. main_pc s = MJoin i \<longrightarrow> i < n \<and> f_flags s i = F_DONE) \<and>
     (\<forall>i. main_pc s \<noteq> MMark i) \<and> main_pc s \<noteq> MQuit \<and> (main_pc s = MDone \<longrightarrow> nlefttoread s \<le> 0)"

lemma wst_init_inv: "web_inv n m (wst_init n)"
  by (simp add: web_inv_def wst_init_def flags_of_def tally_def flag_defs)

lemma find_free_Some: "find_free n s = Some i \<Longrightarrow> i < n \<and> f_flags s i = 0"
  by (auto simp: find_free_def find_Some_iff)

lemma find_free_None: "find_free n s = None \<Longrightarrow> i < n \<Longrightarrow> f_flags s i \<noteq> 0"
  by (auto simp: find_free_def find_None_iff)

lemma flags_of_0: "f \<in> flags_of p \<Longrightarrow> f = 0 \<longleftrightarrow> p = TNone"
  by (auto simp: flags_of_def flag_defs split: file_pc.splits)

lemma flags_of_done: "f \<in> flags_of p \<Longrightarrow> f AND F_DONE \<noteq> 0 \<Longrightarrow> f = F_DONE"
  by (auto simp: flags_of_def flag_defs split: file_pc.splits)

lemma main_fill_inv:
  assumes "web_inv n m s" "main_pc s = MFill" "main_step Web03 n m s = Some s'"
  shows "web_inv n m s'"
proof (cases "nconn s < m \<and> 0 < nlefttoconn s")
  case True
  then obtain i where i: "find_free n s = Some i"
    using tally_pos [of n "\<lambda>f. f = 0" "f_flags s"] find_free_None [of n s] assms(1)
    by (cases "find_free n s") (auto simp: web_inv_def)
  have s': "s' = one_more (create i (set_flags i F_CONNECTING s))"
    using assms(2,3) True i by (simp add: main_step_def)
  have "i < n" "f_flags s i = 0" using find_free_Some [OF i] by simp_all
  with assms(1,2) True show ?thesis
    by (auto simp: s' web_inv_def one_more_def create_def tally_update flags_of_def flag_defs)
next
  case False
  with assms show ?thesis by (auto simp: main_step_def web_inv_def)
qed

lemma main_join_inv:
  assumes "web_inv n m s" "main_pc s = MJoin i" "main_step Web03 n m s = Some s'"
  shows "web_inv n m s'"
proof -
  have i: "i < n" "f_flags s i = F_DONE" using assms(1,2) by (auto simp: web_inv_def)
  have "file_pc s i = TExit" and s': "s' = set_main (MScan (i + 1))
      ((set_flags i F_JOINED s)\<lparr>ndone := ndone s - 1, nconn := nconn s - 1, nlefttoread := nlefttoread s - 1\<rparr>)"
    using assms(2,3) by (simp_all add: main_step_def split: if_splits)
  with assms(1,2) i show ?thesis
    by (auto simp: s' web_inv_def tally_update flags_of_def flag_defs)
qed

lemma web_inv_main:
  assumes "web_inv n m s" "p \<in> {MLoop, MFill, MLock, MTest, MAsleep, MRelock, MUnlock} \<union> range MScan"
  shows "web_inv n m (set_main p s)" "web_inv n m (set_main p (s\<lparr>ndone_mutex := x\<rparr>))"
  using assms by (auto simp: web_inv_def)

lemma main_step_inv:
  assumes "web_inv n m s" "main_step Web03 n m s = Some s'"
  shows "web_inv n m s'"
proof (cases "main_pc s")
  case MFill
  from main_fill_inv [OF assms(1) this assms(2)] show ?thesis .
next
  case (MJoin i)
  from main_join_inv [OF assms(1) this assms(2)] show ?thesis .
next
  case (MScan i)
  have "f_flags s i = F_DONE" if "f_flags s i AND F_DONE \<noteq> 0"
    using flags_of_done [OF _ that, of "file_pc s i"] assms(1) by (auto simp: web_inv_def)
  with MScan assms show ?thesis
    by (cases "i < n"; cases "f_flags s i AND F_DONE \<noteq> 0")
      (auto simp: main_step_def web_inv_def simp del: set_simps(1), simp_all)
next
  case MLoop
  with assms show ?thesis
    by (cases "0 < nlefttoread s") (auto simp: main_step_def web_inv_def)
next
  case MMark
  with assms show ?thesis by (simp add: web_inv_def)
qed (use assms in \<open>auto simp: main_step_def intro: web_inv_main split: if_splits\<close>)

lemma web_inv_file:
  assumes "web_inv n m s" "f_flags s i \<in> flags_of p" "i < n"
  shows "web_inv n m (set_file i p s)" "web_inv n m (set_file i p (s\<lparr>ndone_mutex := x\<rparr>))"
    "web_inv n m (set_file i p (s\<lparr>ndone := y\<rparr>))"
  using assms by (auto simp: web_inv_def)

lemma file_step_inv:
  assumes "web_inv n m s" "file_step Web03 i s = Some s'"
  shows "web_inv n m s'"
proof -
  have i: "i < n" if "file_pc s i \<noteq> TNone" using assms(1) that by (meson linorder_not_le web_inv_def)
  have flags: "f_flags s i \<in> flags_of (file_pc s i)" using assms(1) by (simp add: web_inv_def)
  show ?thesis
  proof (cases "file_pc s i")
    case TConnect
    with assms i flags show ?thesis
      by (auto simp: file_step_def web_inv_def tally_update flags_of_def flag_defs)
  next
    case TRead
    with assms i flags show ?thesis
      by (auto simp: file_step_def web_inv_def tally_update flags_of_def flag_defs)
  next
    case TSignal
    have "web_inv n m (if main_pc s = MAsleep then set_main MRelock s else s)"
      using assms(1) by (simp add: web_inv_main)
    moreover have "s' = set_file i TUnlock (if main_pc s = MAsleep then set_main MRelock s else s)"
      using assms(2) TSignal by (simp add: file_step_def)
    moreover have "f_flags s i \<in> flags_of TUnlock" using flags TSignal by (simp add: flags_of_def)
    ultimately show ?thesis using web_inv_file(1) i TSignal by auto
  qed (use assms i flags in \<open>auto simp: file_step_def flags_of_def intro!: web_inv_file split: if_splits\<close>)
qed

lemma web_reach_inv: "web_reach Web03 n m (wst_init n) s \<Longrightarrow> web_inv n m s"
proof (induction rule: web_reach.induct)
  case refl
  show ?case by (rule wst_init_inv)
next
  case (step s t s')
  then show ?case
    by (cases t) (auto intro: main_step_inv file_step_inv split: if_splits)
next
  case (spurious s)
  then show ?case by (auto simp: web_inv_def)
qed

lemma tally_diff: "tally n (\<lambda>f. f \<noteq> F_JOINED) g - tally n (\<lambda>f. f = 0) g = tally n (\<lambda>f. f \<noteq> 0 \<and> f \<noteq> F_JOINED) g"
  unfolding tally_def sum_subtractf [symmetric] by (rule sum.cong) (auto simp: flag_defs)

subsection \<open>Properties\<close>

text \<open>C37: both programs can get stuck: with two files and two connections there is a schedule
  that leads from the start to a state in which the main thread holds the mutex and waits in
  \<open>pthread_join\<close> for a thread that has set \<open>F_DONE\<close> but waits for that mutex; from there the
  main thread never leaves the join, whatever the scheduling, and a file is never joined.\<close>

theorem web_deadlock:
  "\<exists>s. schedule v 2 2 (embrace v) (wst_init 2) = Some s \<and> embraced 1 s \<and> stuck_forever v 2 2 s"
proof -
  obtain s where s: "schedule v 2 2 (embrace v) (wst_init 2) = Some s" "embraced 1 s" "nlefttoread s = 1"
    using embrace_runs by blast
  have "stuck_forever v 2 2 s" by (rule embraced_stuck [OF s(2)]) (simp add: s(3))
  with s show ?thesis by blast
qed

text \<open>C38: in every reachable state of web03.c the counters agree with the flags: \<open>nlefttoconn\<close> counts
  the files whose flag is 0, \<open>nlefttoread\<close> those not joined, \<open>nconn\<close> those in between; the flag of
  every file agrees with the place of its thread.  There are at most \<open>maxnconn\<close> connections, the
  exit "nothing found" is never taken, and when the program ends every file was read and its
  thread joined.\<close>

theorem web03_counters:
  assumes "web_reach Web03 n m (wst_init n) s"
  shows "nlefttoconn s = tally n (\<lambda>f. f = 0) (f_flags s) \<and>
    nlefttoread s = tally n (\<lambda>f. f \<noteq> F_JOINED) (f_flags s) \<and>
    nconn s = tally n (\<lambda>f. f \<noteq> 0 \<and> f \<noteq> F_JOINED) (f_flags s) \<and>
    (\<forall>i. f_flags s i \<in> flags_of (file_pc s i)) \<and>
    0 \<le> nconn s \<and> nconn s \<le> max 0 m \<and> nconn s = nlefttoread s - nlefttoconn s \<and>
    main_pc s \<noteq> MQuit \<and>
    (if main_pc s = MDone then \<forall>i. i < n = (f_flags s i = F_JOINED) \<and> i < n = (file_pc s i = TExit)
     else True)"
proof -
  have inv: "web_inv n m s" by (rule web_reach_inv [OF assms])
  have "tally n (\<lambda>f. f = 0) (f_flags s) \<le> tally n (\<lambda>f. f \<noteq> F_JOINED) (f_flags s)"
    by (rule tally_mono) (simp add: flag_defs)
  then have "0 \<le> nconn s" using inv by (simp add: web_inv_def)
  moreover have "nconn s = tally n (\<lambda>f. f \<noteq> 0 \<and> f \<noteq> F_JOINED) (f_flags s)"
    using tally_diff [of n "f_flags s"] inv by (simp add: web_inv_def)
  moreover have "i < n = (f_flags s i = F_JOINED) \<and> i < n = (file_pc s i = TExit)" if "main_pc s = MDone" for i
  proof -
    have fl: "f_flags s i \<in> flags_of (file_pc s i)" "n \<le> i \<Longrightarrow> file_pc s i = TNone"
      using inv by (auto simp: web_inv_def)
    have "i < n \<Longrightarrow> f_flags s i = F_JOINED"
      using tally_none [of n "\<lambda>f. f \<noteq> F_JOINED" "f_flags s" i] inv that by (auto simp: web_inv_def)
    with fl show ?thesis
      by (cases "i < n"; cases "file_pc s i") (auto simp: flags_of_def flag_defs)
  qed
  ultimately show ?thesis using inv by (auto simp: web_inv_def)
qed

lemma one_file_runs: "schedule Web03 1 1 (replicate 3 MainThread @ replicate 6 (FileThread 0) @
    replicate 7 MainThread) (wst_init 1) \<noteq> None"
  by (simp add: wst_init_def main_step_def file_step_def find_free_def create_def one_more_def
        flag_defs eval_nat_numeral)

theorem web03_counters_witness:
  "case schedule Web03 1 1 (replicate 3 MainThread @ replicate 6 (FileThread 0) @
      replicate 7 MainThread) (wst_init 1) of
     None \<Rightarrow> False
   | Some s \<Rightarrow> nlefttoconn s = tally 1 (\<lambda>f. f = 0) (f_flags s) \<and>
    nlefttoread s = tally 1 (\<lambda>f. f \<noteq> F_JOINED) (f_flags s) \<and>
    nconn s = tally 1 (\<lambda>f. f \<noteq> 0 \<and> f \<noteq> F_JOINED) (f_flags s) \<and>
    (\<forall>i. f_flags s i \<in> flags_of (file_pc s i)) \<and>
    0 \<le> nconn s \<and> nconn s \<le> max 0 1 \<and> nconn s = nlefttoread s - nlefttoconn s \<and>
    main_pc s \<noteq> MQuit \<and>
    (if main_pc s = MDone then \<forall>i. i < 1 = (f_flags s i = F_JOINED) \<and> i < 1 = (file_pc s i = TExit)
     else True)"
proof -
  obtain s where s: "schedule Web03 1 1 (replicate 3 MainThread @ replicate 6 (FileThread 0) @
      replicate 7 MainThread) (wst_init 1) = Some s"
    using one_file_runs by blast
  from web03_counters [OF schedule_reach [OF s web_reach.refl]] show ?thesis unfolding s option.case .
qed

end
