(* ===== verification/SelectCli.thy ===== *)
theory SelectCli
  imports StreamIO Connect
begin

text \<open>
  The clients that watch standard input and the socket at once: select/strcliselect02.c,
  which uses blocking calls, and nonblock/strclinonb.c, which makes every descriptor
  nonblocking and keeps two buffers of its own.  Proved here: neither repeats or reorders a
  byte on its way from standard input to the socket or from the socket to standard output; the
  first one loses none and half closes the socket once, after all the input; the second one
  holds at most \<open>MAXLINE\<close> bytes in each direction, and loses those it holds when the server
  ends the connection.  The descriptor of the socket is taken to be below \<open>FD_SETSIZE\<close>, beyond
  which \<open>FD_SET\<close> is undefined.
\<close>

lemma eats_Select: "eats (Select n rs ws t)"
  unfolding Select_def by (intro eats_bind1 eating)

definition SHUT_WR :: int where "SHUT_WR = 1"

subsection \<open>nonblock/strclinonb.c\<close>

text \<open>
  The two buffers: \<open>to_data\<close> is \<open>to[0]\<close> up to \<open>toiptr\<close>, \<open>tooptr\<close> the offset of the next byte to
  write; the same for \<open>fr\<close>.
\<close>

record nb =
  to_data :: string
  tooptr :: nat
  fr_data :: string
  froptr :: nat
  stdineof :: bool

definition nb_init :: nb where
  "nb_init = \<lparr>to_data = [], tooptr = 0, fr_data = [], froptr = 0, stdineof = False\<rparr>"

definition nb_rset :: "int \<Rightarrow> nb \<Rightarrow> int list" where
  "nb_rset sockfd st =
     (if \<not> stdineof st \<and> length (to_data st) < MAXLINE then [STDIN_FILENO] else []) @
     (if length (fr_data st) < MAXLINE then [sockfd] else [])"

definition nb_wset :: "int \<Rightarrow> nb \<Rightarrow> int list" where
  "nb_wset sockfd st =
     (if tooptr st \<noteq> length (to_data st) then [sockfd] else []) @
     (if froptr st \<noteq> length (fr_data st) then [STDOUT_FILENO] else [])"

text \<open>The four parts of a round.  The second component is \<open>wset\<close>, which the reads add to.\<close>

definition nb_stdin :: "int \<Rightarrow> int list \<Rightarrow> nb \<times> int list \<Rightarrow> (nb \<times> int list) io" where
  "nb_stdin sockfd rset = (\<lambda>(st, wset).
     if STDIN_FILENO \<in> set rset then
       bind (sys (SysRead STDIN_FILENO (MAXLINE - length (to_data st)))) (\<lambda>r.
       if r_val r < 0 then
         bind get_errno (\<lambda>e.
         if e \<noteq> EWOULDBLOCK then err_sys ''read error on stdin'' else ret (st, wset))
       else if r_val r = 0 then
         seq (only_if (tooptr st = length (to_data st)) (Shutdown sockfd SHUT_WR)) \<comment> \<open>send FIN\<close>
           (ret (st\<lparr>stdineof := True\<rparr>, wset))
       else ret (st\<lparr>to_data := to_data st @ r_data r\<rparr>, wset @ [sockfd]))
     else ret (st, wset))"

definition nb_sock :: "int \<Rightarrow> int list \<Rightarrow> nb \<times> int list \<Rightarrow> (nb \<times> int list) option io" where
  \<comment> \<open>\<open>None\<close>: normal termination\<close>
  "nb_sock sockfd rset = (\<lambda>(st, wset).
     if sockfd \<in> set rset then
       bind (sys (SysRead sockfd (MAXLINE - length (fr_data st)))) (\<lambda>r.
       if r_val r < 0 then
         bind get_errno (\<lambda>e.
         if e \<noteq> EWOULDBLOCK then err_sys ''read error on socket'' else ret (Some (st, wset)))
       else if r_val r = 0 then
         (if stdineof st then ret None else err_quit ''str_cli: server terminated prematurely'')
       else ret (Some (st\<lparr>fr_data := fr_data st @ r_data r\<rparr>, wset @ [STDOUT_FILENO])))
     else ret (Some (st, wset)))"

definition nb_stdout :: "int list \<Rightarrow> nb \<Rightarrow> nb io" where
  "nb_stdout wset st =
     (let rest = drop (froptr st) (fr_data st) in
      if STDOUT_FILENO \<in> set wset \<and> 0 < length rest then
        bind (call (SysWrite STDOUT_FILENO rest)) (\<lambda>nwritten.
        if nwritten < 0 then
          bind get_errno (\<lambda>e. if e \<noteq> EWOULDBLOCK then err_sys ''write error to stdout'' else ret st)
        else if froptr st + nat nwritten = length (fr_data st) then
          ret (st\<lparr>fr_data := [], froptr := 0\<rparr>) \<comment> \<open>back to beginning of buffer\<close>
        else ret (st\<lparr>froptr := froptr st + nat nwritten\<rparr>))
      else ret st)"

definition nb_to :: "int \<Rightarrow> int list \<Rightarrow> nb \<Rightarrow> nb io" where
  "nb_to sockfd wset st =
     (let rest = drop (tooptr st) (to_data st) in
      if sockfd \<in> set wset \<and> 0 < length rest then
        bind (call (SysWrite sockfd rest)) (\<lambda>nwritten.
        if nwritten < 0 then
          bind get_errno (\<lambda>e. if e \<noteq> EWOULDBLOCK then err_sys ''write error to socket'' else ret st)
        else if tooptr st + nat nwritten = length (to_data st) then
          seq (only_if (stdineof st) (Shutdown sockfd SHUT_WR)) \<comment> \<open>send FIN\<close>
            (ret (st\<lparr>to_data := [], tooptr := 0\<rparr>)) \<comment> \<open>back to beginning of buffer\<close>
        else ret (st\<lparr>tooptr := tooptr st + nat nwritten\<rparr>))
      else ret st)"

definition nb_body :: "int \<Rightarrow> nb \<Rightarrow> (nb + unit) io" where
  "nb_body sockfd = (\<lambda>st.
     bind (Select (max (max STDIN_FILENO STDOUT_FILENO) sockfd + 1)
         (nb_rset sockfd st) (nb_wset sockfd st) None) (\<lambda>r.
     bind (nb_stdin sockfd (r_rset r) (st, r_wset r)) (\<lambda>s.
     bind (nb_sock sockfd (r_rset r) s) (\<lambda>v.
     case v of
       None \<Rightarrow> stop ()
     | Some s \<Rightarrow>
         bind (nb_stdout (snd s) (fst s)) (\<lambda>st.
         bind (nb_to sockfd (snd s) st) again)))))"

definition set_nonblocking :: "int \<Rightarrow> unit io" where
  "set_nonblocking fd =
     bind (Fcntl fd F_GETFL 0) (\<lambda>val. void (Fcntl fd F_SETFL (val OR O_NONBLOCK)))"

definition str_cli_nonb :: "int \<Rightarrow> unit io" where
  "str_cli_nonb sockfd =
     seq (set_nonblocking sockfd)
    (seq (set_nonblocking STDIN_FILENO)
    (seq (set_nonblocking STDOUT_FILENO)
      (loop (nb_body sockfd) nb_init)))"

lemma shrinks_nb [eating]:
  "shrinks (nb_stdin fd rs s)" "shrinks (nb_sock fd rs s)" "shrinks (nb_stdout ws st)"
  "shrinks (nb_to fd ws st)" "shrinks (Shutdown fd how)"
proof -
  show sh: "shrinks (Shutdown fd how)" for fd how unfolding Shutdown_def by (intro eating)
  show "shrinks (nb_stdin fd rs s)" unfolding nb_stdin_def by (intro eating sh)
  show "shrinks (nb_sock fd rs s)" unfolding nb_sock_def by (intro eating)
  show "shrinks (nb_stdout ws st)" unfolding nb_stdout_def by (intro eating)
  show "shrinks (nb_to fd ws st)" unfolding nb_to_def by (intro eating sh)
qed

interpretation nb: consuming "nb_body fd" for fd
  by unfold_locales (unfold nb_body_def, intro body_eating eats_Select eating)

subsection \<open>What the trace says\<close>

definition eof_on :: "int \<Rightarrow> (syscall \<times> sysret) list \<Rightarrow> bool" where
  \<comment> \<open>a read for at least one byte has returned 0\<close>
  "eof_on fd new \<longleftrightarrow>
     list_ex (\<lambda>(c, r). case c of SysRead fd' m \<Rightarrow> fd' = fd \<and> 0 < m \<and> r_val r = 0 | _ \<Rightarrow> False) new"

definition closes :: "int \<Rightarrow> (syscall \<times> sysret) list \<Rightarrow> nat" where
  \<comment> \<open>how often the socket was half closed\<close>
  "closes fd new = length (filter (\<lambda>e. fst e = SysShutdown fd SHUT_WR) new)"

definition after_close :: "int \<Rightarrow> (syscall \<times> sysret) list \<Rightarrow> string" where
  \<comment> \<open>what was written to the socket after it was half closed\<close>
  "after_close fd new = stream_out fd (dropWhile (\<lambda>e. fst e \<noteq> SysShutdown fd SHUT_WR) new)"

fun quiet :: "syscall \<Rightarrow> bool" where
  "quiet (SysRead _ _) = False"
| "quiet (SysWrite _ _) = False"
| "quiet (SysShutdown _ _) = False"
| "quiet _ = True"

lemma eof_on_snoc [simp]:
  "eof_on fd [] = False" "eof_on fd (new @ new') \<longleftrightarrow> eof_on fd new \<or> eof_on fd new'"
  "eof_on fd [(SysRead fd' m, r)] \<longleftrightarrow> fd' = fd \<and> 0 < m \<and> r_val r = 0"
  "eof_on fd [(SysWrite fd' s, r)] = False" "eof_on fd [(SysShutdown fd' how, r)] = False"
  by (simp_all add: eof_on_def)

lemma closes_snoc [simp]:
  "closes fd [] = 0" "closes fd (new @ new') = closes fd new + closes fd new'"
  "closes fd [(SysRead fd' m, r)] = 0" "closes fd [(SysWrite fd' s, r)] = 0"
  "closes fd [(SysShutdown fd' how, r)] = (if fd' = fd \<and> how = SHUT_WR then 1 else 0)"
  by (simp_all add: closes_def)

lemma dropWhile_snoc:
  "dropWhile P (xs @ [x]) = (if list_ex (\<lambda>y. \<not> P y) xs then dropWhile P xs @ [x] else if P x then [] else [x])"
  by (induction xs) auto

lemma closes_0: "closes fd new = 0 \<longleftrightarrow> \<not> list_ex (\<lambda>e. fst e = SysShutdown fd SHUT_WR) new"
  by (induction new) (auto simp: closes_def)

lemma no_close_drop:
  "\<not> list_ex (\<lambda>e. fst e = SysShutdown fd SHUT_WR) new \<Longrightarrow>
   dropWhile (\<lambda>e. fst e \<noteq> SysShutdown fd SHUT_WR) new = []"
  by (induction new) auto

lemma after_close_snoc [simp]:
  "after_close fd [] = []"
  "after_close fd (new @ [e]) = after_close fd new @ (if closes fd new = 0 then [] else bytes_out fd e)"
  by (auto simp: after_close_def dropWhile_snoc closes_0 no_close_drop bytes_out_def split: prod.split)

lemma quiet_simps:
  assumes "quiet c"
  shows "bytes_in fd (c, r) = []" "bytes_out fd (c, r) = []" "eof_on fd [(c, r)] = False"
    "closes fd [(c, r)] = 0"
  using assms by (cases c; simp add: bytes_in_def bytes_out_def eof_on_def closes_def)+

lemma bytes_shutdown [simp]:
  "bytes_in fd (SysShutdown fd' how, r) = []" "bytes_out fd (SysShutdown fd' how, r) = []"
  by (simp_all add: bytes_in_def bytes_out_def)

text \<open>A property of the trace that calls other than reading, writing and half closing keep.\<close>

definition quiet_closed :: "((syscall \<times> sysret) list \<Rightarrow> bool) \<Rightarrow> bool" where
  "quiet_closed P \<longleftrightarrow> (\<forall>new c r. quiet c \<longrightarrow> P new \<longrightarrow> P (new @ [(c, r)]))"

lemma extends_quiet:
  "quiet_closed P \<Longrightarrow> quiet c \<Longrightarrow> extends P log w \<Longrightarrow> extends P log (logged c r w)"
  by (intro extends_logged) (auto simp: quiet_closed_def elim!: extends_weaken)

lemma extends_err_quiet:
  "quiet_closed P \<Longrightarrow> extends P log w \<Longrightarrow> extends P log (err_world flag level msg w)"
  by (rule extends_err) (auto simp: quiet_closed_def)

subsection \<open>The relay of the nonblocking client\<close>

definition relay_ok :: "int \<Rightarrow> nb \<Rightarrow> (syscall \<times> sysret) list \<Rightarrow> bool" where
  "relay_ok s st new \<longleftrightarrow>
     stream_in STDIN_FILENO new = stream_out s new @ drop (tooptr st) (to_data st) \<and>
     stream_in s new = stream_out STDOUT_FILENO new @ drop (froptr st) (fr_data st) \<and>
     tooptr st \<le> length (to_data st) \<and> froptr st \<le> length (fr_data st) \<and>
     length (to_data st) \<le> MAXLINE \<and> length (fr_data st) \<le> MAXLINE \<and>
     (stdineof st \<longleftrightarrow> eof_on STDIN_FILENO new) \<and>
     closes s new = (if stdineof st \<and> tooptr st = length (to_data st) then 1 else 0) \<and>
     after_close s new = []"

definition relay_cut :: "int \<Rightarrow> (syscall \<times> sysret) list \<Rightarrow> bool" where
  \<comment> \<open>what holds wherever a run is cut\<close>
  "relay_cut s new \<longleftrightarrow>
     prefix (stream_out s new) (stream_in STDIN_FILENO new) \<and>
     prefix (stream_out STDOUT_FILENO new) (stream_in s new) \<and>
     after_close s new = [] \<and>
     length (stream_in STDIN_FILENO new) \<le> length (stream_out s new) + MAXLINE \<and>
     length (stream_in s new) \<le> length (stream_out STDOUT_FILENO new) + MAXLINE \<and>
     closes s new \<le> 1 \<and>
     (if closes s new = 1 then eof_on STDIN_FILENO new \<and> stream_out s new = stream_in STDIN_FILENO new else True)"

lemma quiet_closed_relay: "quiet_closed (relay_ok s st)" "quiet_closed (relay_cut s)"
  by (auto simp: quiet_closed_def relay_ok_def relay_cut_def quiet_simps)

lemma relay_ok_cut: "relay_ok s st new \<Longrightarrow> relay_cut s new"
  by (auto simp: relay_ok_def relay_cut_def split: if_splits)

lemma relay_read_stdin:
  assumes "relay_ok s st new" "fits_read (MAXLINE - length (to_data st)) r" "\<not> stdineof st" "s \<noteq> STDIN_FILENO"
  shows "r_val r < 0 \<Longrightarrow> relay_ok s st (new @ [(SysRead STDIN_FILENO (MAXLINE - length (to_data st)), r)])"
    and "0 < r_val r \<Longrightarrow> relay_ok s (st\<lparr>to_data := to_data st @ r_data r\<rparr>)
      (new @ [(SysRead STDIN_FILENO (MAXLINE - length (to_data st)), r)])"
    and "r_val r = 0 \<Longrightarrow> length (to_data st) < MAXLINE \<Longrightarrow> tooptr st \<noteq> length (to_data st) \<Longrightarrow>
      relay_ok s (st\<lparr>stdineof := True\<rparr>)
        (new @ [(SysRead STDIN_FILENO (MAXLINE - length (to_data st)), r)])"
    and "r_val r = 0 \<Longrightarrow> length (to_data st) < MAXLINE \<Longrightarrow> tooptr st = length (to_data st) \<Longrightarrow>
      relay_ok s (st\<lparr>stdineof := True\<rparr>)
        ((new @ [(SysRead STDIN_FILENO (MAXLINE - length (to_data st)), r)]) @ [(SysShutdown s SHUT_WR, r')])"
  using assms fits_readD [OF assms(2)] fits_read_length [OF assms(2)]
  by (auto simp: relay_ok_def simp del: append_assoc)

lemma relay_cut_stdin:
  assumes "relay_ok s st new" "\<not> stdineof st" "s \<noteq> STDIN_FILENO"
    and "fits_read (MAXLINE - length (to_data st)) r"
  shows "relay_cut s (new @ [(SysRead STDIN_FILENO (MAXLINE - length (to_data st)), r)])"
  using assms(1-3) fits_read_length [OF assms(4)] by (auto simp: relay_ok_def relay_cut_def)

lemma relay_read_sock:
  assumes "relay_ok s st new" "fits_read (MAXLINE - length (fr_data st)) r" "s \<noteq> STDIN_FILENO" "s \<noteq> STDOUT_FILENO"
  shows "r_val r \<le> 0 \<Longrightarrow> relay_ok s st (new @ [(SysRead s (MAXLINE - length (fr_data st)), r)])"
    and "0 < r_val r \<Longrightarrow> relay_ok s (st\<lparr>fr_data := fr_data st @ r_data r\<rparr>)
      (new @ [(SysRead s (MAXLINE - length (fr_data st)), r)])"
proof -
  have "r_val r \<le> 0 \<Longrightarrow> r_data r = []"
    using fits_readD(1,2) [OF assms(2)] by (cases "r_val r < 0") auto
  then show "r_val r \<le> 0 \<Longrightarrow> relay_ok s st (new @ [(SysRead s (MAXLINE - length (fr_data st)), r)])"
    using assms(1,3,4) by (simp add: relay_ok_def)
  have len: "length (fr_data st) + length (r_data r) \<le> MAXLINE"
    using assms(1) fits_read_length [OF assms(2)] unfolding relay_ok_def by linarith
  show "0 < r_val r \<Longrightarrow> relay_ok s (st\<lparr>fr_data := fr_data st @ r_data r\<rparr>)
      (new @ [(SysRead s (MAXLINE - length (fr_data st)), r)])"
    using assms(1,3,4) len by (simp add: relay_ok_def)
qed

lemma take_nat_drop: "0 \<le> v \<Longrightarrow> k + nat v = length xs \<Longrightarrow> take (nat v) (drop k xs) = drop k xs"
  by simp

lemma relay_write_stdout:
  assumes "relay_ok s st new" "fits_write (drop (froptr st) (fr_data st)) r" "s \<noteq> STDOUT_FILENO"
  shows "r_val r < 0 \<Longrightarrow> relay_ok s st (new @ [(SysWrite STDOUT_FILENO (drop (froptr st) (fr_data st)), r)])"
    and "0 \<le> r_val r \<Longrightarrow> froptr st + nat (r_val r) = length (fr_data st) \<Longrightarrow>
      relay_ok s (st\<lparr>fr_data := [], froptr := 0\<rparr>)
        (new @ [(SysWrite STDOUT_FILENO (drop (froptr st) (fr_data st)), r)])"
    and "0 \<le> r_val r \<Longrightarrow> relay_ok s (st\<lparr>froptr := froptr st + nat (r_val r)\<rparr>)
        (new @ [(SysWrite STDOUT_FILENO (drop (froptr st) (fr_data st)), r)])"
proof -
  have v: "nat (r_val r) \<le> length (drop (froptr st) (fr_data st))"
    using assms(2) by (auto simp: fits_write_def)
  have d: "drop (froptr st + nat (r_val r)) (fr_data st) = drop (nat (r_val r)) (drop (froptr st) (fr_data st))"
    by (simp add: add.commute)
  have le: "froptr st + nat (r_val r) \<le> length (fr_data st)"
    using v assms(1) unfolding relay_ok_def length_drop by linarith
  show "r_val r < 0 \<Longrightarrow> relay_ok s st (new @ [(SysWrite STDOUT_FILENO (drop (froptr st) (fr_data st)), r)])"
    using assms by (simp add: relay_ok_def)
  show "0 \<le> r_val r \<Longrightarrow> froptr st + nat (r_val r) = length (fr_data st) \<Longrightarrow>
      relay_ok s (st\<lparr>fr_data := [], froptr := 0\<rparr>)
        (new @ [(SysWrite STDOUT_FILENO (drop (froptr st) (fr_data st)), r)])"
    using assms by (auto simp: relay_ok_def)
  show "0 \<le> r_val r \<Longrightarrow> relay_ok s (st\<lparr>froptr := froptr st + nat (r_val r)\<rparr>)
        (new @ [(SysWrite STDOUT_FILENO (drop (froptr st) (fr_data st)), r)])"
    using assms le by (simp add: relay_ok_def d del: drop_drop)
qed

lemma relay_write_sock:
  assumes "relay_ok s st new" "fits_write (drop (tooptr st) (to_data st)) r" "s \<noteq> STDIN_FILENO" "s \<noteq> STDOUT_FILENO"
    "tooptr st \<noteq> length (to_data st)"
  shows "r_val r < 0 \<Longrightarrow> relay_ok s st (new @ [(SysWrite s (drop (tooptr st) (to_data st)), r)])"
    and "0 \<le> r_val r \<Longrightarrow> tooptr st + nat (r_val r) = length (to_data st) \<Longrightarrow> \<not> stdineof st \<Longrightarrow>
      relay_ok s (st\<lparr>to_data := [], tooptr := 0\<rparr>)
        (new @ [(SysWrite s (drop (tooptr st) (to_data st)), r)])"
    and "0 \<le> r_val r \<Longrightarrow> tooptr st + nat (r_val r) = length (to_data st) \<Longrightarrow> stdineof st \<Longrightarrow>
      relay_ok s (st\<lparr>to_data := [], tooptr := 0\<rparr>)
        ((new @ [(SysWrite s (drop (tooptr st) (to_data st)), r)]) @ [(SysShutdown s SHUT_WR, r')])"
    and "0 \<le> r_val r \<Longrightarrow> tooptr st + nat (r_val r) \<noteq> length (to_data st) \<Longrightarrow>
      relay_ok s (st\<lparr>tooptr := tooptr st + nat (r_val r)\<rparr>)
        (new @ [(SysWrite s (drop (tooptr st) (to_data st)), r)])"
    and "relay_cut s (new @ [(SysWrite s (drop (tooptr st) (to_data st)), r)])"
proof -
  have v: "nat (r_val r) \<le> length (drop (tooptr st) (to_data st))"
    using assms(2) by (auto simp: fits_write_def)
  have d: "drop (tooptr st + nat (r_val r)) (to_data st) = drop (nat (r_val r)) (drop (tooptr st) (to_data st))"
    by (simp add: add.commute)
  have le: "tooptr st + nat (r_val r) \<le> length (to_data st)"
    using v assms(1) unfolding relay_ok_def length_drop by linarith
  show "r_val r < 0 \<Longrightarrow> relay_ok s st (new @ [(SysWrite s (drop (tooptr st) (to_data st)), r)])"
    using assms by (simp add: relay_ok_def)
  show "0 \<le> r_val r \<Longrightarrow> tooptr st + nat (r_val r) = length (to_data st) \<Longrightarrow> \<not> stdineof st \<Longrightarrow>
      relay_ok s (st\<lparr>to_data := [], tooptr := 0\<rparr>)
        (new @ [(SysWrite s (drop (tooptr st) (to_data st)), r)])"
    using assms by (simp add: relay_ok_def)
  show "0 \<le> r_val r \<Longrightarrow> tooptr st + nat (r_val r) = length (to_data st) \<Longrightarrow> stdineof st \<Longrightarrow>
      relay_ok s (st\<lparr>to_data := [], tooptr := 0\<rparr>)
        ((new @ [(SysWrite s (drop (tooptr st) (to_data st)), r)]) @ [(SysShutdown s SHUT_WR, r')])"
    using assms by (simp add: relay_ok_def del: append_assoc)
  show "0 \<le> r_val r \<Longrightarrow> tooptr st + nat (r_val r) \<noteq> length (to_data st) \<Longrightarrow>
      relay_ok s (st\<lparr>tooptr := tooptr st + nat (r_val r)\<rparr>)
        (new @ [(SysWrite s (drop (tooptr st) (to_data st)), r)])"
    using assms le by (simp add: relay_ok_def d del: drop_drop)
  show "relay_cut s (new @ [(SysWrite s (drop (tooptr st) (to_data st)), r)])"
    using assms take_is_prefix [of "nat (r_val r)" "drop (tooptr st) (to_data st)"]
    by (auto simp: relay_ok_def relay_cut_def)
qed

text \<open>The same for the world: \<open>nb_ok\<close> while the loop goes on, \<open>nb_cut\<close> where it is cut.\<close>

definition nb_ok :: "int \<Rightarrow> (syscall \<times> sysret) list \<Rightarrow> nb \<Rightarrow> world \<Rightarrow> bool" where
  "nb_ok s log st = extends (relay_ok s st) log"

definition nb_cut :: "int \<Rightarrow> (syscall \<times> sysret) list \<Rightarrow> world \<Rightarrow> bool" where
  "nb_cut s log = extends (relay_cut s) log"

lemma nb_ok_cut: "nb_ok s log st w \<Longrightarrow> nb_cut s log w"
  unfolding nb_ok_def nb_cut_def by (erule extends_weaken) (rule relay_ok_cut)

lemma nb_err: "nb_cut s log w \<Longrightarrow> nb_cut s log (err_world flag level msg w)"
  unfolding nb_cut_def by (rule extends_err_quiet [OF quiet_closed_relay(2)])

lemma nb_logged:
  "nb_ok s log st w \<Longrightarrow> (\<And>new. relay_ok s st new \<Longrightarrow> relay_ok s st' (new @ [(c, r)])) \<Longrightarrow>
   nb_ok s log st' (logged c r w)"
  unfolding nb_ok_def by (rule extends_logged) (auto elim!: extends_weaken)

lemma nb_cut_logged:
  "nb_ok s log st w \<Longrightarrow> (\<And>new. relay_ok s st new \<Longrightarrow> relay_cut s (new @ [(c, r)])) \<Longrightarrow>
   nb_cut s log (logged c r w)"
  unfolding nb_ok_def nb_cut_def by (rule extends_logged) (auto elim!: extends_weaken)

lemma nb_logged2:
  assumes "nb_ok s log st w"
    and "\<And>new. relay_ok s st new \<Longrightarrow> relay_ok s st' ((new @ [(c, r)]) @ [(c', r')])"
  shows "nb_ok s log st' (logged c' r' (logged c r w))"
  using assms(1) unfolding nb_ok_def
  by (intro extends_logged) (auto elim!: extends_weaken dest: assms(2))

definition may_read :: "int \<Rightarrow> int list \<Rightarrow> nb \<Rightarrow> bool" where
  \<comment> \<open>\<open>select\<close> reports only what \<open>nb_rset\<close> asked for\<close>
  "may_read s rset st \<longleftrightarrow>
     (STDIN_FILENO \<in> set rset \<longrightarrow> \<not> stdineof st \<and> length (to_data st) < MAXLINE) \<and>
     (s \<in> set rset \<longrightarrow> length (fr_data st) < MAXLINE)"

lemma Shutdown_triple:
  assumes "s \<noteq> STDIN_FILENO" "nb_cut s log w"
    and "\<And>r. nb_ok s log st (logged (SysShutdown s SHUT_WR) r w)"
  shows "wp (Shutdown s SHUT_WR) (ends (\<lambda>_. nb_ok s log st) (nb_cut s log)) w"
  using assms nb_ok_cut [OF assms(3)]
  by (auto simp: Shutdown_def intro!: nb_err split: list.split)

lemma nb_stdin_triple:
  assumes s: "s \<noteq> STDIN_FILENO"
  shows "triple (\<lambda>w. nb_ok s log st w \<and> may_read s rset st) (nb_stdin s rset (st, ws))
    (\<lambda>(st', ws') w. nb_ok s log st' w \<and> (s \<in> set rset \<longrightarrow> length (fr_data st') < MAXLINE)) (nb_cut s log)"
proof (rule tripleI, elim conjE)
  fix w
  assume ok: "nb_ok s log st w" and may: "may_read s rset st"
  let ?c = "SysRead STDIN_FILENO (MAXLINE - length (to_data st))"
  let ?Q = "\<lambda>(st', ws') w. nb_ok s log st' w \<and> (s \<in> set rset \<longrightarrow> length (fr_data st') < MAXLINE)"
  note cut = nb_ok_cut [OF ok]
  show "wp (nb_stdin s rset (st, ws)) (ends ?Q (nb_cut s log)) w"
  proof (cases "STDIN_FILENO \<in> set rset")
    case False
    then show ?thesis using ok may by (simp add: nb_stdin_def may_read_def)
  next
    case True
    with may have st: "\<not> stdineof st" "length (to_data st) < MAXLINE" by (auto simp: may_read_def)
    have fr: "s \<in> set rset \<Longrightarrow> length (fr_data st) < MAXLINE" using may by (simp add: may_read_def)
    have cut1: "fits_read (MAXLINE - length (to_data st)) r \<Longrightarrow> nb_cut s log (logged ?c r w)" for r
      by (rule nb_cut_logged [OF ok]) (rule relay_cut_stdin [OF _ st(1) s])
    have neg: "fits_read (MAXLINE - length (to_data st)) r \<Longrightarrow> r_val r < 0 \<Longrightarrow> nb_ok s log st (logged ?c r w)" for r
      by (rule nb_logged [OF ok]) (rule relay_read_stdin(1) [OF _ _ st(1) s])
    have pos: "fits_read (MAXLINE - length (to_data st)) r \<Longrightarrow> 0 < r_val r \<Longrightarrow>
        nb_ok s log (st\<lparr>to_data := to_data st @ r_data r\<rparr>) (logged ?c r w)" for r
      by (rule nb_logged [OF ok]) (rule relay_read_stdin(2) [OF _ _ st(1) s])
    have eof1: "fits_read (MAXLINE - length (to_data st)) r \<Longrightarrow> r_val r = 0 \<Longrightarrow> tooptr st \<noteq> length (to_data st) \<Longrightarrow>
        nb_ok s log (st\<lparr>stdineof := True\<rparr>) (logged ?c r w)" for r
      by (rule nb_logged [OF ok]) (rule relay_read_stdin(3) [OF _ _ st(1) s _ st(2)])
    have eof2: "fits_read (MAXLINE - length (to_data st)) r \<Longrightarrow> r_val r = 0 \<Longrightarrow> tooptr st = length (to_data st) \<Longrightarrow>
        nb_ok s log (st\<lparr>stdineof := True\<rparr>) (logged (SysShutdown s SHUT_WR) r' (logged ?c r w))" for r r'
      by (rule nb_logged2 [OF ok]) (rule relay_read_stdin(4) [OF _ _ st(1) s _ st(2)])
    have sh: "wp (Shutdown s SHUT_WR) (on_val (\<lambda>_ w. ?Q (st\<lparr>stdineof := True\<rparr>, ws) w) (ends ?Q (nb_cut s log)))
        (logged ?c r w)" if "fits_read (MAXLINE - length (to_data st)) r" "r_val r = 0" "tooptr st = length (to_data st)" for r
      by (rule wp_conseq [OF Shutdown_triple [OF s cut1 [OF that(1)] eof2]])
        (use that fr in \<open>auto simp: ends_def on_val_def split: res.splits\<close>)
    show ?thesis
      using True cut cut1 neg pos eof1 sh fr
      by (auto simp: nb_stdin_def intro!: nb_err split: list.split)
  qed
qed

definition relay_done :: "int \<Rightarrow> (syscall \<times> sysret) list \<Rightarrow> bool" where
  \<comment> \<open>after normal termination: what was left in the buffers is lost\<close>
  "relay_done s new \<longleftrightarrow>
     (\<exists>unsent. stream_in STDIN_FILENO new = stream_out s new @ unsent \<and> length unsent \<le> MAXLINE \<and>
        closes s new = (if unsent = [] then 1 else 0)) \<and>
     (\<exists>unwritten. stream_in s new = stream_out STDOUT_FILENO new @ unwritten \<and> length unwritten \<le> MAXLINE) \<and>
     eof_on STDIN_FILENO new \<and> eof_on s new \<and> after_close s new = []"

lemma relay_ok_done: "relay_ok s st new \<Longrightarrow> stdineof st \<Longrightarrow> eof_on s new \<Longrightarrow> relay_done s new"
  unfolding relay_done_def relay_ok_def
  by (intro conjI exI [of _ "drop (tooptr st) (to_data st)"] exI [of _ "drop (froptr st) (fr_data st)"]) auto

definition nb_done :: "int \<Rightarrow> (syscall \<times> sysret) list \<Rightarrow> world \<Rightarrow> bool" where
  "nb_done s log = extends (relay_done s) log"

lemma nb_done_logged:
  assumes "nb_ok s log st w" "stdineof st" "0 < m"
    and "\<And>new. relay_ok s st new \<Longrightarrow> relay_ok s st (new @ [(SysRead s m, r)])" "r_val r = 0"
  shows "nb_done s log (logged (SysRead s m) r w)"
  using assms(1) unfolding nb_ok_def nb_done_def
  by (intro extends_logged) (auto elim!: extends_weaken intro!: relay_ok_done [OF assms(4) assms(2)] simp: assms(3,5))

lemma nb_sock_triple:
  assumes s: "s \<noteq> STDIN_FILENO" "s \<noteq> STDOUT_FILENO"
  shows "triple (\<lambda>w. nb_ok s log st w \<and> (s \<in> set rset \<longrightarrow> length (fr_data st) < MAXLINE)) (nb_sock s rset (st, ws))
    (\<lambda>v w. case v of None \<Rightarrow> nb_done s log w | Some (st', ws') \<Rightarrow> nb_ok s log st' w) (nb_cut s log)"
proof (rule tripleI, elim conjE)
  fix w
  assume ok: "nb_ok s log st w" and may: "s \<in> set rset \<longrightarrow> length (fr_data st) < MAXLINE"
  let ?c = "SysRead s (MAXLINE - length (fr_data st))"
  note cut = nb_ok_cut [OF ok]
  have nonpos: "fits_read (MAXLINE - length (fr_data st)) r \<Longrightarrow> r_val r \<le> 0 \<Longrightarrow> nb_ok s log st (logged ?c r w)" for r
    by (rule nb_logged [OF ok]) (rule relay_read_sock(1) [OF _ _ s])
  have pos: "fits_read (MAXLINE - length (fr_data st)) r \<Longrightarrow> 0 < r_val r \<Longrightarrow>
      nb_ok s log (st\<lparr>fr_data := fr_data st @ r_data r\<rparr>) (logged ?c r w)" for r
    by (rule nb_logged [OF ok]) (rule relay_read_sock(2) [OF _ _ s])
  have fin: "fits_read (MAXLINE - length (fr_data st)) r \<Longrightarrow> r_val r = 0 \<Longrightarrow> stdineof st \<Longrightarrow> s \<in> set rset \<Longrightarrow>
      nb_done s log (logged ?c r w)" for r
    by (rule nb_done_logged [OF ok]) (use may relay_read_sock(1) [OF _ _ s] in auto)
  have cut1: "fits_read (MAXLINE - length (fr_data st)) r \<Longrightarrow> r_val r \<le> 0 \<Longrightarrow> nb_cut s log (logged ?c r w)" for r
    by (rule nb_ok_cut) (rule nonpos)
  show "wp (nb_sock s rset (st, ws))
      (ends (\<lambda>v w. case v of None \<Rightarrow> nb_done s log w | Some (st', ws') \<Rightarrow> nb_ok s log st' w) (nb_cut s log)) w"
    using ok cut nonpos pos fin cut1
    by (auto simp: nb_sock_def intro!: nb_err split: list.split)
qed

lemma nb_stdout_triple:
  assumes s: "s \<noteq> STDOUT_FILENO"
  shows "triple (nb_ok s log st) (nb_stdout ws st) (\<lambda>st' w. nb_ok s log st' w) (nb_cut s log)"
proof (rule tripleI)
  fix w
  assume ok: "nb_ok s log st w"
  let ?d = "drop (froptr st) (fr_data st)"
  let ?c = "SysWrite STDOUT_FILENO ?d"
  note cut = nb_ok_cut [OF ok]
  have neg: "fits_write ?d r \<Longrightarrow> r_val r < 0 \<Longrightarrow> nb_ok s log st (logged ?c r w)" for r
    by (rule nb_logged [OF ok]) (rule relay_write_stdout(1) [OF _ _ s])
  have all: "fits_write ?d r \<Longrightarrow> 0 \<le> r_val r \<Longrightarrow> froptr st + nat (r_val r) = length (fr_data st) \<Longrightarrow>
      nb_ok s log (st\<lparr>fr_data := [], froptr := 0\<rparr>) (logged ?c r w)" for r
    by (rule nb_logged [OF ok]) (rule relay_write_stdout(2) [OF _ _ s])
  have part: "fits_write ?d r \<Longrightarrow> 0 \<le> r_val r \<Longrightarrow>
      nb_ok s log (st\<lparr>froptr := froptr st + nat (r_val r)\<rparr>) (logged ?c r w)" for r
    by (rule nb_logged [OF ok]) (rule relay_write_stdout(3) [OF _ _ s])
  have cut1: "fits_write ?d r \<Longrightarrow> r_val r < 0 \<Longrightarrow> nb_cut s log (logged ?c r w)" for r
    by (rule nb_ok_cut) (rule neg)
  show "wp (nb_stdout ws st) (ends (\<lambda>st' w. nb_ok s log st' w) (nb_cut s log)) w"
    using ok cut neg all part cut1
    by (auto simp: nb_stdout_def Let_def intro!: nb_err split: list.split)
qed

lemma nb_to_triple:
  assumes s: "s \<noteq> STDIN_FILENO" "s \<noteq> STDOUT_FILENO"
  shows "triple (nb_ok s log st) (nb_to s ws st) (\<lambda>st' w. nb_ok s log st' w) (nb_cut s log)"
proof (rule tripleI)
  fix w
  assume ok: "nb_ok s log st w"
  let ?d = "drop (tooptr st) (to_data st)"
  let ?c = "SysWrite s ?d"
  let ?st = "st\<lparr>to_data := [], tooptr := 0\<rparr>"
  note cut = nb_ok_cut [OF ok]
  show "wp (nb_to s ws st) (ends (\<lambda>st' w. nb_ok s log st' w) (nb_cut s log)) w"
  proof (cases "s \<in> set ws \<and> 0 < length ?d")
    case False
    then have "nb_to s ws st = ret st" unfolding nb_to_def Let_def by (rule if_not_P)
    then show ?thesis using ok by simp
  next
    case True
    then have ne: "tooptr st \<noteq> length (to_data st)" by simp
    note wr = relay_write_sock [OF _ _ s ne]
    have neg: "fits_write ?d r \<Longrightarrow> r_val r < 0 \<Longrightarrow> nb_ok s log st (logged ?c r w)" for r
      by (rule nb_logged [OF ok]) (rule wr(1))
    have all: "fits_write ?d r \<Longrightarrow> 0 \<le> r_val r \<Longrightarrow> tooptr st + nat (r_val r) = length (to_data st) \<Longrightarrow>
        \<not> stdineof st \<Longrightarrow> nb_ok s log ?st (logged ?c r w)" for r
      by (rule nb_logged [OF ok]) (rule wr(2))
    have fin: "fits_write ?d r \<Longrightarrow> 0 \<le> r_val r \<Longrightarrow> tooptr st + nat (r_val r) = length (to_data st) \<Longrightarrow>
        stdineof st \<Longrightarrow> nb_ok s log ?st (logged (SysShutdown s SHUT_WR) r' (logged ?c r w))" for r r'
      by (rule nb_logged2 [OF ok]) (rule wr(3))
    have part: "fits_write ?d r \<Longrightarrow> 0 \<le> r_val r \<Longrightarrow> tooptr st + nat (r_val r) \<noteq> length (to_data st) \<Longrightarrow>
        nb_ok s log (st\<lparr>tooptr := tooptr st + nat (r_val r)\<rparr>) (logged ?c r w)" for r
      by (rule nb_logged [OF ok]) (rule wr(4))
    have cut1: "fits_write ?d r \<Longrightarrow> nb_cut s log (logged ?c r w)" for r
      by (rule nb_cut_logged [OF ok]) (rule wr(5))
    have sh: "wp (Shutdown s SHUT_WR) (on_val (\<lambda>_. nb_ok s log ?st) (ends (\<lambda>st' w. nb_ok s log st' w) (nb_cut s log)))
        (logged ?c r w)"
      if "fits_write ?d r" "0 \<le> r_val r" "tooptr st + nat (r_val r) = length (to_data st)" "stdineof st" for r
      by (rule wp_conseq [OF Shutdown_triple [OF s(1) cut1 fin]])
        (use that in \<open>auto simp: ends_def on_val_def split: res.splits\<close>)
    show ?thesis
      using True cut neg all part cut1 sh
      by (auto simp: nb_to_def Let_def intro!: nb_err split: list.split)
  qed
qed

lemma nb_quiet_logged: "nb_ok s log st w \<Longrightarrow> quiet c \<Longrightarrow> nb_ok s log st (logged c r w)"
  unfolding nb_ok_def by (rule extends_quiet [OF quiet_closed_relay(1)])

lemma nb_rset_may_read: "s \<noteq> STDIN_FILENO \<Longrightarrow> set rset \<subseteq> set (nb_rset s st) \<Longrightarrow> may_read s rset st"
  by (auto simp: nb_rset_def may_read_def split: if_splits)

lemma nb_select_triple:
  assumes "s \<noteq> STDIN_FILENO"
  shows "triple (nb_ok s log st) (Select n (nb_rset s st) ws None)
    (\<lambda>r w. nb_ok s log st w \<and> may_read s (r_rset r) st) (nb_cut s log)"
proof (rule tripleI)
  fix w
  assume ok: "nb_ok s log st w"
  have ok': "nb_ok s log st (logged (SysSelect n (nb_rset s st) ws None) r w)" for r
    by (rule nb_quiet_logged [OF ok]) simp
  show "wp (Select n (nb_rset s st) ws None)
      (ends (\<lambda>r w. nb_ok s log st w \<and> may_read s (r_rset r) st) (nb_cut s log)) w"
    using ok' nb_ok_cut [OF ok] nb_rset_may_read [OF assms]
    by (auto simp: Select_def fits_select_def intro: nb_err nb_ok_cut split: list.split)
qed

lemma nb_body_triple:
  assumes s: "s \<noteq> STDIN_FILENO" "s \<noteq> STDOUT_FILENO"
  shows "triple (nb_ok s log st) (nb_body s st)
    (\<lambda>v. case v of Inl st' \<Rightarrow> nb_ok s log st' | Inr _ \<Rightarrow> nb_done s log) (nb_cut s log)"
  unfolding nb_body_def
proof (rule triple_bind [OF nb_select_triple [OF s(1)]])
  fix r
  let ?Q = "\<lambda>v. case v of Inl st' \<Rightarrow> nb_ok s log st' | Inr (_ :: unit) \<Rightarrow> nb_done s log"
  have to: "triple (nb_ok s log st') (bind (nb_to s ws' st') again) ?Q (nb_cut s log)" for ws' st'
    by (rule triple_bind [OF nb_to_triple [OF s]]) (simp add: triple_def)
  have out: "triple (nb_ok s log st') (bind (nb_stdout ws' st') (\<lambda>st. bind (nb_to s ws' st) again)) ?Q (nb_cut s log)" for ws' st'
    by (rule triple_bind [OF nb_stdout_triple [OF s(2)]]) (rule to)
  have sock: "triple (\<lambda>w. case s' of (st', ws') \<Rightarrow> nb_ok s log st' w \<and> (s \<in> set (r_rset r) \<longrightarrow> length (fr_data st') < MAXLINE))
      (bind (nb_sock s (r_rset r) s') (\<lambda>v. case v of None \<Rightarrow> stop ()
        | Some s' \<Rightarrow> bind (nb_stdout (snd s') (fst s')) (\<lambda>st. bind (nb_to s (snd s') st) again))) ?Q (nb_cut s log)" for s'
  proof (cases s')
    case (Pair st' ws')
    have fin: "triple (nb_done s log) (stop ()) ?Q (nb_cut s log)"
      by (simp add: triple_def)
    show ?thesis
      unfolding Pair prod.case
    proof (rule triple_bind [OF nb_sock_triple [OF s]])
      fix v :: "(nb \<times> int list) option"
      show "triple ((\<lambda>v w. case v of None \<Rightarrow> nb_done s log w | Some (st', ws') \<Rightarrow> nb_ok s log st' w) v)
          (case v of None \<Rightarrow> stop () | Some s' \<Rightarrow> bind (nb_stdout (snd s') (fst s')) (\<lambda>st. bind (nb_to s (snd s') st) again))
          ?Q (nb_cut s log)"
        using fin out by (cases v) auto
    qed
  qed
  show "triple ((\<lambda>r w. nb_ok s log st w \<and> may_read s (r_rset r) st) r)
      (bind (nb_stdin s (r_rset r) (st, r_wset r)) (\<lambda>s'. bind (nb_sock s (r_rset r) s') (\<lambda>v. case v of None \<Rightarrow> stop ()
        | Some s' \<Rightarrow> bind (nb_stdout (snd s') (fst s')) (\<lambda>st. bind (nb_to s (snd s') st) again)))) ?Q (nb_cut s log)"
    by (rule triple_bind [OF nb_stdin_triple [OF s(1)]])
      (rule triple_conseq [OF sock], auto)
qed

lemma set_nonblocking_triple: "triple (nb_ok s log st) (set_nonblocking fd) (\<lambda>_. nb_ok s log st) (nb_cut s log)"
proof (rule tripleI)
  fix w
  assume ok: "nb_ok s log st w"
  have q: "nb_ok s log st (logged (SysFcntl fd' c a) r w)" if "nb_ok s log st w" for fd' c a r w
    by (rule nb_quiet_logged [OF that]) simp
  show "wp (set_nonblocking fd) (ends (\<lambda>_. nb_ok s log st) (nb_cut s log)) w"
    using q [OF ok] q [OF q [OF ok]] nb_ok_cut [OF ok] nb_ok_cut [OF q [OF ok]] nb_ok_cut [OF q [OF q [OF ok]]]
    by (auto simp: set_nonblocking_def Fcntl_def intro: nb_err split: list.split)
qed

lemma relay_ok_init: "relay_ok s nb_init []"
  by (simp add: relay_ok_def nb_init_def)

lemma str_cli_nonb_triple:
  assumes s: "s \<noteq> STDIN_FILENO" "s \<noteq> STDOUT_FILENO"
  shows "triple (\<lambda>w. trace w = log) (str_cli_nonb s) (\<lambda>_. nb_done s log) (nb_cut s log)"
proof (rule triple_conseq)
  show "triple (nb_ok s log nb_init) (str_cli_nonb s) (\<lambda>_. nb_done s log) (nb_cut s log)"
    unfolding str_cli_nonb_def
    by (intro triple_seq [OF set_nonblocking_triple] nb.triple_loop nb_body_triple s)
qed (auto simp: nb_ok_def intro: extends_refl relay_ok_init)

subsection \<open>select/strcliselect02.c\<close>

text \<open>\<open>fp\<close> is standard input, as in the program that calls it.\<close>

definition sel_sock :: "int \<Rightarrow> int list \<Rightarrow> bool \<Rightarrow> bool io" where
  \<comment> \<open>the socket is readable; \<open>True\<close>: normal termination\<close>
  "sel_sock sockfd rset eof =
     (if sockfd \<in> set rset then
        bind (Read sockfd MAXLINE) (\<lambda>(n, buf).
        if n = 0 then
          (if eof then ret True else err_quit ''str_cli: server terminated prematurely'')
        else seq (Write STDOUT_FILENO buf) (ret False))
      else ret False)"

definition sel_stdin :: "int \<Rightarrow> int list \<Rightarrow> bool \<Rightarrow> bool io" where
  \<comment> \<open>the input is readable; the result is the new \<open>stdineof\<close>\<close>
  "sel_stdin sockfd rset eof =
     (if STDIN_FILENO \<in> set rset then
        bind (Read STDIN_FILENO MAXLINE) (\<lambda>(n, buf).
        if n = 0 then seq (Shutdown sockfd SHUT_WR) (ret True) \<comment> \<open>send FIN\<close>
        else seq (Writen sockfd buf) (ret eof))
      else ret eof)"

definition select02_body :: "int \<Rightarrow> bool \<Rightarrow> (bool + unit) io" where
  "select02_body sockfd = (\<lambda>eof.
     bind (Select (max STDIN_FILENO sockfd + 1) ((if eof then [] else [STDIN_FILENO]) @ [sockfd]) [] None) (\<lambda>r.
     bind (sel_sock sockfd (r_rset r) eof) (\<lambda>over.
     if over then stop () else bind (sel_stdin sockfd (r_rset r) eof) again)))"

definition str_cli_select02 :: "int \<Rightarrow> unit io" where
  "str_cli_select02 sockfd = loop (select02_body sockfd) False"

lemma shrinks_Read [eating]: "shrinks (Read fd n)"
  unfolding Read_def by (intro eating)

lemma shrinks_sel [eating]: "shrinks (sel_sock s rset eof)" "shrinks (sel_stdin s rset eof)"
  unfolding sel_sock_def sel_stdin_def by (intro eating)+

interpretation select02: consuming "select02_body fd" for fd
  by unfold_locales (unfold select02_body_def, intro body_eating eats_Select eating)

text \<open>
  Between its calls this client holds no data, so it is the nonblocking client with empty
  buffers.
\<close>

definition idle :: "bool \<Rightarrow> nb" where
  "idle eof = nb_init\<lparr>stdineof := eof\<rparr>"

lemma idle_simps [simp]:
  "to_data (idle eof) = []" "tooptr (idle eof) = 0" "fr_data (idle eof) = []" "froptr (idle eof) = 0"
  "stdineof (idle eof) = eof"
  by (simp_all add: idle_def nb_init_def)

lemma idle_update:
  "idle eof\<lparr>stdineof := True\<rparr> = idle True"
  "idle eof\<lparr>to_data := [], tooptr := 0\<rparr> = idle eof"
  "idle eof\<lparr>fr_data := [], froptr := 0\<rparr> = idle eof"
  by (simp_all add: idle_def nb_init_def)

definition sel_done :: "int \<Rightarrow> (syscall \<times> sysret) list \<Rightarrow> bool" where
  "sel_done s new \<longleftrightarrow>
     stream_out s new = stream_in STDIN_FILENO new \<and> stream_out STDOUT_FILENO new = stream_in s new \<and>
     eof_on STDIN_FILENO new \<and> eof_on s new \<and> closes s new = 1 \<and> after_close s new = []"

lemma Write_stdout_triple:
  assumes "s \<noteq> STDOUT_FILENO"
  shows "triple (nb_ok s log (idle eof\<lparr>fr_data := d\<rparr>)) (Write STDOUT_FILENO d)
    (\<lambda>_. nb_ok s log (idle eof)) (nb_cut s log)"
proof (rule tripleI)
  fix w
  let ?st = "idle eof\<lparr>fr_data := d\<rparr>"
  assume ok: "nb_ok s log ?st w"
  let ?c = "SysWrite STDOUT_FILENO d"
  note wr = relay_write_stdout [of s ?st, OF _ _ assms]
  have all: "fits_write d r \<Longrightarrow> r_val r = int (length d) \<Longrightarrow> nb_ok s log (idle eof) (logged ?c r w)" for r
    by (rule nb_logged [OF ok]) (use wr(2) [of _ r] in \<open>simp add: idle_update\<close>)
  have cut: "fits_write d r \<Longrightarrow> nb_cut s log (logged ?c r w)" for r
    using nb_ok_cut [OF nb_logged [OF ok, of ?st ?c r]] wr(1) [of _ r]
      nb_ok_cut [OF nb_logged [OF ok, of "?st\<lparr>froptr := nat (r_val r)\<rparr>" ?c r]] wr(3) [of _ r]
    by (cases "r_val r < 0") auto
  show "wp (Write STDOUT_FILENO d) (ends (\<lambda>_. nb_ok s log (idle eof)) (nb_cut s log)) w"
    using all cut nb_ok_cut [OF ok] by (auto simp: Write_def intro: nb_err split: list.split)
qed

text \<open>\<open>Writen\<close>: the bytes already written count as taken from the buffer.\<close>

definition sending :: "int \<Rightarrow> (syscall \<times> sysret) list \<Rightarrow> string \<Rightarrow> string \<Rightarrow> world \<Rightarrow> bool" where
  "sending s log d rest w \<longleftrightarrow>
     (if rest = [] then nb_ok s log (idle False) w
      else \<exists>k. k < length d \<and> rest = drop k d \<and> nb_ok s log (idle False\<lparr>to_data := d, tooptr := k\<rparr>) w)"

lemma sending_cut: "sending s log d rest w \<Longrightarrow> nb_cut s log w"
  by (auto simp: sending_def nb_ok_cut split: if_splits)

lemma writen_body_triple:
  assumes s: "s \<noteq> STDIN_FILENO" "s \<noteq> STDOUT_FILENO"
  shows "triple (sending s log d rest) (writen_body s (length d) rest)
    (\<lambda>v. case v of Inl rest' \<Rightarrow> sending s log d rest'
      | Inr n \<Rightarrow> \<lambda>w. nb_cut s log w \<and> (n = int (length d) \<longrightarrow> nb_ok s log (idle False) w)) (nb_cut s log)"
proof (rule tripleI)
  fix w
  assume snd: "sending s log d rest w"
  let ?Q = "\<lambda>v. case v of Inl rest' \<Rightarrow> sending s log d rest'
      | Inr n \<Rightarrow> \<lambda>w. nb_cut s log w \<and> (n = int (length d) \<longrightarrow> nb_ok s log (idle False) w)"
  show "wp (writen_body s (length d) rest) (ends ?Q (nb_cut s log)) w"
  proof (cases "rest = []")
    case True
    then show ?thesis using snd nb_ok_cut by (auto simp: writen_body_def sending_def)
  next
    case False
    with snd obtain k where k: "k < length d" "rest = drop k d"
      and ok: "nb_ok s log (idle False\<lparr>to_data := d, tooptr := k\<rparr>) w"
      by (auto simp: sending_def)
    let ?st = "idle False\<lparr>to_data := d, tooptr := k\<rparr>"
    have wr: "relay_ok s ?st new \<Longrightarrow> fits_write rest r \<Longrightarrow> r_val r < 0 \<Longrightarrow>
        relay_ok s ?st (new @ [(SysWrite s rest, r)])"
      "relay_ok s ?st new \<Longrightarrow> fits_write rest r \<Longrightarrow> 0 \<le> r_val r \<Longrightarrow> k + nat (r_val r) = length d \<Longrightarrow>
        relay_ok s (idle False) (new @ [(SysWrite s rest, r)])"
      "relay_ok s ?st new \<Longrightarrow> fits_write rest r \<Longrightarrow> 0 \<le> r_val r \<Longrightarrow> k + nat (r_val r) \<noteq> length d \<Longrightarrow>
        relay_ok s (idle False\<lparr>to_data := d, tooptr := k + nat (r_val r)\<rparr>) (new @ [(SysWrite s rest, r)])" for r new
      using relay_write_sock(1,2,4) [of s ?st new r] s k by (simp_all add: idle_update)
    have neg: "sending s log d rest (logged (SysWrite s rest) r w)" "nb_cut s log (logged (SysWrite s rest) r w)"
      if "fits_write rest r" "r_val r < 0" for r
    proof -
      show *: "sending s log d rest (logged (SysWrite s rest) r w)"
        using nb_logged [OF ok wr(1)] that k by (auto simp: sending_def)
      show "nb_cut s log (logged (SysWrite s rest) r w)" by (rule sending_cut [OF *])
    qed
    have pos: "sending s log d (drop (nat (r_val r)) rest) (logged (SysWrite s rest) r w)"
      "nb_cut s log (logged (SysWrite s rest) r w)" if "fits_write rest r" "0 \<le> r_val r" for r
    proof -
      have le: "k + nat (r_val r) \<le> length d" using that k by (simp add: fits_write_def)
      show *: "sending s log d (drop (nat (r_val r)) rest) (logged (SysWrite s rest) r w)"
      proof (cases "k + nat (r_val r) = length d")
        case True
        then show ?thesis using nb_logged [OF ok wr(2)] that k by (simp add: sending_def)
      next
        case False
        have "nb_ok s log (idle False\<lparr>to_data := d, tooptr := k + nat (r_val r)\<rparr>) (logged (SysWrite s rest) r w)"
          by (rule nb_logged [OF ok wr(3)]) (use that False in auto)
        then show ?thesis
          using False le k(2) unfolding sending_def
          by (auto simp: add.commute intro!: exI [of _ "k + nat (r_val r)"])
      qed
      show "nb_cut s log (logged (SysWrite s rest) r w)" by (rule sending_cut [OF *])
    qed
    have cut: "nb_cut s log (logged (SysWrite s rest) r w)" if "fits_write rest r" for r
      using neg(2) [OF that] pos(2) [OF that] by (cases "r_val r < 0") auto
    show ?thesis
      using False snd sending_cut [OF snd] neg(1) pos(1) cut k
      by (auto simp: writen_body_def split: list.split)
  qed
qed

lemma Writen_triple:
  assumes s: "s \<noteq> STDIN_FILENO" "s \<noteq> STDOUT_FILENO" and d: "d \<noteq> []"
  shows "triple (nb_ok s log (idle False\<lparr>to_data := d\<rparr>)) (Writen s d) (\<lambda>_. nb_ok s log (idle False)) (nb_cut s log)"
  unfolding Writen_def writen_def
proof (rule triple_bind)
  show "triple (nb_ok s log (idle False\<lparr>to_data := d\<rparr>)) (loop (writen_body s (length d)) d)
      (\<lambda>n w. nb_cut s log w \<and> (n = int (length d) \<longrightarrow> nb_ok s log (idle False) w)) (nb_cut s log)"
  proof (rule triple_conseq [OF writen.triple_loop [where I = "sending s log d"]])
    have *: "idle False\<lparr>to_data := d, tooptr := 0\<rparr> = idle False\<lparr>to_data := d\<rparr>"
      by (simp add: idle_def nb_init_def)
    show "sending s log d d w" if "nb_ok s log (idle False\<lparr>to_data := d\<rparr>) w" for w
      unfolding sending_def using that d by (auto simp: * intro!: exI [of _ 0])
  qed (rule writen_body_triple [OF s], auto)
  show "triple (\<lambda>w. nb_cut s log w \<and> (n = int (length d) \<longrightarrow> nb_ok s log (idle False) w))
      (if n \<noteq> int (length d) then err_sys ''writen error'' else ret ()) (\<lambda>_. nb_ok s log (idle False)) (nb_cut s log)" for n
    by (rule tripleI) (auto intro: nb_err)
qed

lemma idle_done: "relay_ok s (idle True) new \<Longrightarrow> eof_on s new \<Longrightarrow> sel_done s new"
  by (auto simp: relay_ok_def sel_done_def)

lemma sel_sock_triple:
  assumes s: "s \<noteq> STDIN_FILENO" "s \<noteq> STDOUT_FILENO"
  shows "triple (nb_ok s log (idle eof)) (sel_sock s rset eof)
    (\<lambda>over. if over then extends (sel_done s) log else nb_ok s log (idle eof)) (nb_cut s log)"
proof (rule tripleI)
  fix w
  assume ok: "nb_ok s log (idle eof) w"
  let ?c = "SysRead s MAXLINE"
  let ?Q = "\<lambda>over. if over then extends (sel_done s) log else nb_ok s log (idle eof)"
  note rd = relay_read_sock [of s "idle eof", OF _ _ s, simplified]
  have nonpos: "fits_read MAXLINE r \<Longrightarrow> r_val r \<le> 0 \<Longrightarrow> nb_ok s log (idle eof) (logged ?c r w)" for r
    by (rule nb_logged [OF ok]) (rule rd(1))
  have pos: "fits_read MAXLINE r \<Longrightarrow> 0 < r_val r \<Longrightarrow> nb_ok s log (idle eof\<lparr>fr_data := r_data r\<rparr>) (logged ?c r w)" for r
    by (rule nb_logged [OF ok]) (rule rd(2))
  have fin: "extends (sel_done s) log (logged ?c r w)" if "fits_read MAXLINE r" "r_val r = 0" "eof" for r
  proof (rule extends_logged, rule extends_weaken [OF ok [unfolded nb_ok_def]])
    fix new assume "relay_ok s (idle eof) new"
    from rd(1) [OF this that(1)] that show "sel_done s (new @ [(?c, r)])"
      by (intro idle_done) (auto simp: MAXLINE_def)
  qed
  have wr: "wp (Write STDOUT_FILENO (r_data r)) (on_val (\<lambda>_. nb_ok s log (idle eof)) (ends ?Q (nb_cut s log)))
      (logged ?c r w)" if "fits_read MAXLINE r" "0 < r_val r" for r
    by (rule wp_conseq [OF tripleD [OF Write_stdout_triple [OF s(2)] pos [OF that]]])
      (auto simp: ends_def on_val_def split: res.splits)
  have sign: "fits_read MAXLINE r \<Longrightarrow> r_val r \<noteq> - 1 \<Longrightarrow> r_val r \<noteq> 0 \<Longrightarrow> 0 < r_val r" for r
    by (auto simp: fits_read_def)
  show "wp (sel_sock s rset eof) (ends ?Q (nb_cut s log)) w"
    using ok nb_ok_cut [OF ok] nb_ok_cut [OF nonpos] fin wr sign
    by (auto simp: sel_sock_def Read_def intro!: nb_err split: list.split)
qed

lemma sel_stdin_triple:
  assumes s: "s \<noteq> STDIN_FILENO" "s \<noteq> STDOUT_FILENO" and eof: "eof \<Longrightarrow> STDIN_FILENO \<notin> set rset"
  shows "triple (nb_ok s log (idle eof)) (sel_stdin s rset eof) (\<lambda>eof'. nb_ok s log (idle eof')) (nb_cut s log)"
proof (cases "STDIN_FILENO \<in> set rset")
  case False
  then show ?thesis by (simp add: sel_stdin_def triple_def)
next
  case True
  with eof have e: "eof = False" by blast
  show ?thesis
  proof (rule tripleI)
    fix w
    assume "nb_ok s log (idle eof) w"
    then have ok: "nb_ok s log (idle False) w" by (simp add: e)
    let ?c = "SysRead STDIN_FILENO MAXLINE"
    let ?Q = "\<lambda>eof'. nb_ok s log (idle eof')"
    note rd = relay_read_stdin [of s "idle False", OF _ _ _ s(1), simplified]
    have neg: "fits_read MAXLINE r \<Longrightarrow> r_val r < 0 \<Longrightarrow> nb_ok s log (idle False) (logged ?c r w)" for r
      by (rule nb_logged [OF ok]) (rule rd(1))
    have pos: "fits_read MAXLINE r \<Longrightarrow> 0 < r_val r \<Longrightarrow>
        nb_ok s log (idle False\<lparr>to_data := r_data r\<rparr>) (logged ?c r w)" for r
      by (rule nb_logged [OF ok]) (rule rd(2))
    have cut: "fits_read MAXLINE r \<Longrightarrow> nb_cut s log (logged ?c r w)" for r
      by (rule nb_cut_logged [OF ok]) (rule relay_cut_stdin [of s "idle False", OF _ _ s(1), simplified])
    have fin: "nb_ok s log (idle True) (logged (SysShutdown s SHUT_WR) r' (logged ?c r w))"
      if "fits_read MAXLINE r" "r_val r = 0" for r r'
      by (rule nb_logged2 [OF ok]) (use relay_read_stdin(4) [of s "idle False", OF _ _ _ s(1)] that in
          \<open>simp add: idle_update MAXLINE_def\<close>)
    have sh: "wp (Shutdown s SHUT_WR) (on_val (\<lambda>_. nb_ok s log (idle True)) (ends ?Q (nb_cut s log))) (logged ?c r w)"
      if "fits_read MAXLINE r" "r_val r = 0" for r
      by (rule wp_conseq [OF Shutdown_triple [OF s(1) cut [OF that(1)] fin [OF that]]])
        (auto simp: ends_def on_val_def split: res.splits)
    have sign: "fits_read MAXLINE r \<Longrightarrow> r_val r \<noteq> - 1 \<Longrightarrow> r_val r \<noteq> 0 \<Longrightarrow> 0 < r_val r \<and> r_data r \<noteq> []" for r
      by (auto simp: fits_read_def)
    have wr: "wp (Writen s (r_data r)) (on_val (\<lambda>_. nb_ok s log (idle False)) (ends ?Q (nb_cut s log))) (logged ?c r w)"
      if "fits_read MAXLINE r" "r_val r \<noteq> - 1" "r_val r \<noteq> 0" for r
      by (rule wp_conseq [OF tripleD [OF Writen_triple [OF s] pos]])
        (use sign [OF that] that in \<open>auto simp: ends_def on_val_def split: res.splits\<close>)
    show "wp (sel_stdin s rset eof) (ends ?Q (nb_cut s log)) w"
      using True e ok nb_ok_cut [OF ok] cut sh wr
      by (auto simp: sel_stdin_def Read_def intro!: nb_err split: list.split)
  qed
qed

lemma sel_select_triple:
  assumes "s \<noteq> STDIN_FILENO"
  shows "triple (nb_ok s log st) (Select n ((if eof then [] else [STDIN_FILENO]) @ [s]) ws None)
    (\<lambda>r w. nb_ok s log st w \<and> (eof \<longrightarrow> STDIN_FILENO \<notin> set (r_rset r))) (nb_cut s log)"
proof (rule tripleI)
  fix w
  let ?rs = "(if eof then [] else [STDIN_FILENO]) @ [s]"
  assume ok: "nb_ok s log st w"
  have ok': "nb_ok s log st (logged (SysSelect n rs ws None) r w)" for rs r
    by (rule nb_quiet_logged [OF ok]) simp
  have cut': "nb_cut s log (logged (SysSelect n rs ws None) r w)" for rs r
    by (rule nb_ok_cut) (rule ok')
  show "wp (Select n ?rs ws None)
      (ends (\<lambda>r w. nb_ok s log st w \<and> (eof \<longrightarrow> STDIN_FILENO \<notin> set (r_rset r))) (nb_cut s log)) w"
    using ok' cut' nb_ok_cut [OF ok] assms
    by (cases eof) (auto simp: Select_def fits_select_def intro!: nb_err split: list.split)
qed

lemma select02_body_triple:
  assumes s: "s \<noteq> STDIN_FILENO" "s \<noteq> STDOUT_FILENO"
  shows "triple (nb_ok s log (idle eof)) (select02_body s eof)
    (\<lambda>v. case v of Inl eof' \<Rightarrow> nb_ok s log (idle eof') | Inr _ \<Rightarrow> extends (sel_done s) log) (nb_cut s log)"
  unfolding select02_body_def
proof (rule triple_bind [OF sel_select_triple [OF s(1)]])
  fix r
  let ?Q = "\<lambda>v. case v of Inl eof' \<Rightarrow> nb_ok s log (idle eof') | Inr (_ :: unit) \<Rightarrow> extends (sel_done s) log"
  let ?rest = "\<lambda>over. if over then stop () else bind (sel_stdin s (r_rset r) eof) again"
  show "triple ((\<lambda>r w. nb_ok s log (idle eof) w \<and> (eof \<longrightarrow> STDIN_FILENO \<notin> set (r_rset r))) r)
      (bind (sel_sock s (r_rset r) eof) ?rest) ?Q (nb_cut s log)"
  proof (cases "eof \<and> STDIN_FILENO \<in> set (r_rset r)")
    case True
    then show ?thesis by (simp add: triple_def)
  next
    case False
    have more: "triple (nb_ok s log (idle eof)) (bind (sel_stdin s (r_rset r) eof) again) ?Q (nb_cut s log)"
      by (rule triple_bind [OF sel_stdin_triple [OF s]]) (use False in \<open>auto simp: triple_def\<close>)
    have fin: "triple (extends (sel_done s) log) (stop ()) ?Q (nb_cut s log)"
      by (simp add: triple_def)
    have "triple (nb_ok s log (idle eof)) (bind (sel_sock s (r_rset r) eof) ?rest) ?Q (nb_cut s log)"
    proof (rule triple_bind [OF sel_sock_triple [OF s]])
      fix over
      show "triple ((\<lambda>over. if over then extends (sel_done s) log else nb_ok s log (idle eof)) over)
          (?rest over) ?Q (nb_cut s log)"
        using more fin by (cases over) simp_all
    qed
    then show ?thesis by (rule triple_conseq) auto
  qed
qed

lemma idle_init: "idle False = nb_init"
  by (simp add: idle_def nb_init_def)

lemma select02_triple:
  assumes s: "s \<noteq> STDIN_FILENO" "s \<noteq> STDOUT_FILENO"
  shows "triple (\<lambda>w. trace w = log) (str_cli_select02 s) (\<lambda>_. extends (sel_done s) log) (nb_cut s log)"
proof (rule triple_conseq)
  show "triple (nb_ok s log (idle False)) (str_cli_select02 s) (\<lambda>_. extends (sel_done s) log) (nb_cut s log)"
    unfolding str_cli_select02_def
    by (rule select02.triple_loop [where I = "\<lambda>eof. nb_ok s log (idle eof)"]) (rule select02_body_triple [OF s])
qed (auto simp: nb_ok_def idle_init intro: extends_refl relay_ok_init)

subsection \<open>select/strcliselect01.c\<close>

text \<open>\<open>select\<close> together with the buffers of the stdio library and of \<open>readline\<close>.\<close>

definition select01_body :: "int \<Rightarrow> rline \<Rightarrow> (rline + unit) io" where
  "select01_body sockfd = (\<lambda>st.
     bind (Select (max STDIN_FILENO sockfd + 1) [STDIN_FILENO, sockfd] [] None) (\<lambda>r.
     bind (if sockfd \<in> set (r_rset r) then
             bind (Readline sockfd MAXLINE st) (\<lambda>(n, recvline, st).
             if n = 0 then err_quit ''str_cli: server terminated prematurely''
             else seq (Fputs (c_string recvline) STDOUT_FILENO) (ret st))
           else ret st) (\<lambda>st.
     if STDIN_FILENO \<in> set (r_rset r) then
       bind (Fgets MAXLINE STDIN_FILENO) (\<lambda>line.
       case line of
         None \<Rightarrow> stop () \<comment> \<open>all done\<close>
       | Some sendline \<Rightarrow> seq (Writen sockfd (c_string sendline)) (again st))
     else again st)))"

definition str_cli_select01 :: "int \<Rightarrow> rline \<Rightarrow> unit io" where
  "str_cli_select01 sockfd st = loop (select01_body sockfd) st"

interpretation select01: consuming "select01_body fd" for fd
  by unfold_locales (unfold select01_body_def,
      intro body_eating eats_Select eats_shrinks [OF eats_Fgets] eating)

subsection \<open>Properties\<close>

definition ready :: "int list \<Rightarrow> int list \<Rightarrow> sysret" where
  \<comment> \<open>an answer of \<open>select\<close>\<close>
  "ready rs ws = (ok (int (length rs + length ws)))\<lparr>r_rset := rs, r_wset := ws\<rparr>"

definition puts_of :: "int \<Rightarrow> (syscall \<times> sysret) list \<Rightarrow> string" where
  "puts_of fd log = concat (map (\<lambda>e. case fst e of SysPut fd' s \<Rightarrow> if fd' = fd then s else [] | _ \<Rightarrow> []) log)"

text \<open>C39: the nonblocking client relays in order, for every split of the data and for calls that
  would block.  In every state where it waits or is ended by an error, what it has written to the
  socket is a prefix of what it has read from standard input, the same from the socket to
  standard output, and what it holds in between is never more than \<open>MAXLINE\<close> bytes, the size of a
  buffer; the socket is half closed at most once, after the end of the input and when all of it
  is sent, and nothing is written to it afterwards.  When the client returns both inputs have
  ended, and what its two buffers hold is lost, at most \<open>MAXLINE\<close> bytes in each direction; the
  socket has been half closed just when nothing of the input is lost.\<close>

theorem strclinonb_relays:
  assumes "sockfd \<noteq> STDIN_FILENO" "sockfd \<noteq> STDOUT_FILENO"
  shows "wp (str_cli_nonb sockfd)
    (ends (\<lambda>_. extends (relay_done sockfd) (trace w)) (extends (relay_cut sockfd) (trace w))) w"
  using tripleD [OF str_cli_nonb_triple [OF assms, of "trace w"]] by (simp add: nb_done_def nb_cut_def)

definition nonb_script :: "sysret list" where
  \<comment> \<open>standard output would block when the server ends the connection\<close>
  "nonb_script = replicate 6 (ok 0) @
     [ready [0] [], okdata ''hi'', ok 2, ready [0] [], ok 0, ok 0,
      ready [3] [], okdata ''yo'', fail EWOULDBLOCK, ready [3] [], ok 0]"

theorem strclinonb_relays_witness:
  "wp (str_cli_nonb 3) (ends (\<lambda>_. extends (relay_done 3) (trace (start nonb_script)))
     (extends (relay_cut 3) (trace (start nonb_script)))) (start nonb_script)"
  by (rule strclinonb_relays) (simp_all add: STDIN_FILENO_def STDOUT_FILENO_def)

text \<open>The output that is lost: the server's last bytes are in \<open>fr\<close> when its end of file is seen,
  and the client returns as if all was well.\<close>

theorem strclinonb_loses_output:
  "case str_cli_nonb 3 (start nonb_script) of (r, w) \<Rightarrow>
     r = Val () \<and> script w = [] \<and> stream_out 3 (trace w) = ''hi'' \<and>
     stream_in 3 (trace w) = ''yo'' \<and> stream_out STDOUT_FILENO (trace w) = []"
  by code_simp

text \<open>C40: the \<open>select\<close> client of strcliselect02.c delivers everything: when it returns, all of
  standard input was written to the socket and then the socket half closed, once, and all that
  the server sent was written to standard output; wherever it waits or is ended by an error, what
  it has written is a prefix of what it has read.\<close>

theorem select02_delivers:
  assumes "sockfd \<noteq> STDIN_FILENO" "sockfd \<noteq> STDOUT_FILENO"
  shows "wp (str_cli_select02 sockfd)
    (ends (\<lambda>_. extends (sel_done sockfd) (trace w)) (extends (relay_cut sockfd) (trace w))) w"
  using tripleD [OF select02_triple [OF assms, of "trace w"]] by (simp add: nb_cut_def)

theorem select02_delivers_witness:
  "wp (str_cli_select02 3) (ends (\<lambda>_. extends (sel_done 3) (trace (start [ready [0] [], okdata ''hi'', ok 2])))
     (extends (relay_cut 3) (trace (start [ready [0] [], okdata ''hi'', ok 2]))))
     (start [ready [0] [], okdata ''hi'', ok 2])"
  by (rule select02_delivers) (simp_all add: STDIN_FILENO_def STDOUT_FILENO_def)

text \<open>In strcliselect01.c \<open>select\<close> does not see the buffer of \<open>readline\<close>: of two lines that arrive
  together the second is not printed, and the client waits.\<close>

theorem select01_hidden_line:
  "case str_cli_select01 3 rl_init (start [ready [3] [], okdata ([CHR ''a'', newline] @ [CHR ''b'', newline]), ok 2]) of
     (r, w) \<Rightarrow> r = Blocked \<and> stream_in 3 (trace w) = [CHR ''a'', newline, CHR ''b'', newline] \<and>
       puts_of STDOUT_FILENO (trace w) = [CHR ''a'', newline]"
  by code_simp

end
