(* ===== verification/Lab2.thy ===== *)
theory Lab2
  imports StreamIO ChatServer
begin

text \<open>
  The programs of the second lab: the clients Lab2/tcp_client.c and
  Lab2/tcp_easy_ipv4_client.c, which differ in what they do when a call fails, and the forking
  file server Lab2/tcp_fork_server.c.  A \<open>fork\<close> that answers 0 makes the rest of the run that of
  the child.

  Proved here: what the two clients do with errors; that \<open>dump_socket_to_stdout\<close> reads once
  only; and which descriptors an iteration of the server leaves open in the parent and in the
  child.
\<close>

subsection \<open>The clients\<close>

definition tcp_easy_connect_lab2 :: "string \<Rightarrow> string \<Rightarrow> int io" where
  \<comment> \<open>tcp_client.c: a failure is reported and the function goes on\<close>
  "tcp_easy_connect_lab2 host service =
     bind (call (SysSocket AF_INET SOCK_STREAM 0)) (\<lambda>sock_fd.
     seq (only_if (sock_fd < 0) (perror (''socket error'' @ [newline])))
    (bind (case inet_pton AF_INET host of
             Inr (Some addr) \<Rightarrow> ret addr
           | _ \<Rightarrow> seq (printf (''inet_pton error for '' @ host @ [newline])) (ret [0, 0, 0, 0])) (\<lambda>addr.
     bind (call (SysConnect sock_fd (SaIn (htons (ucast (strtoul10 service))) addr))) (\<lambda>n.
     seq (only_if (n < 0) (perror (''connect error'' @ [newline])))
    (ret sock_fd)))))"

definition tcp_easy_connect_ipv4 :: "string \<Rightarrow> string \<Rightarrow> int io" where
  \<comment> \<open>tcp_easy_ipv4_client.c: a failure ends the process\<close>
  "tcp_easy_connect_ipv4 host service =
     bind (call (SysSocket AF_INET SOCK_STREAM 0)) (\<lambda>sock_fd.
     if sock_fd < 0 then err_sys (''socket error'' @ [newline])
     else (case inet_pton AF_INET host of
         Inr (Some addr) \<Rightarrow>
           bind (call (SysConnect sock_fd (SaIn (htons (ucast (strtoul10 service))) addr))) (\<lambda>n.
           if n < 0 then err_sys (''connect error'' @ [newline]) else ret sock_fd)
       | _ \<Rightarrow> err_quit (''inet_pton error for '' @ host @ [newline])))"

definition dump_socket_to_stdout :: "int \<Rightarrow> int io" where
  \<comment> \<open>both branches after the \<open>read\<close> return\<close>
  "dump_socket_to_stdout sock_fd =
     bind (sys (SysRead sock_fd 512)) (\<lambda>r.
     seq (only_if (0 < r_val r)
           (seq (say (SysPut STDOUT_FILENO (r_data r))) (printf (''data received'' @ [newline]))))
    (ret (if r_val r < 0 then - 1 else 0)))"

definition client_main :: "(string \<Rightarrow> string \<Rightarrow> int io) \<Rightarrow> string list \<Rightarrow> int io" where
  \<comment> \<open>\<open>main\<close> of both clients; a missing argument is a null pointer\<close>
  "client_main connect argv =
     seq (guard (3 \<le> length argv))
    (bind (connect (argv ! 1) (argv ! 2)) (\<lambda>sock_fd.
     if sock_fd < 0 then seq (printf (''Failed to create TCP connected socket'' @ [newline])) (ret (- 1))
     else seq (bind (dump_socket_to_stdout sock_fd) (\<lambda>_. ret ()))
         (bind (call (SysClose sock_fd)) (\<lambda>_. ret 0))))"

subsection \<open>The forking server\<close>

definition enable_reuse_address_lab2 :: "int \<Rightarrow> int io" where
  "enable_reuse_address_lab2 sock_fd =
     bind (call (SysSetsockopt sock_fd SOL_SOCKET SO_REUSEADDR 1)) (\<lambda>n. ret (if n < 0 then - 1 else 0))"

definition tcp_easy_listen_lab2 :: "16 word \<Rightarrow> string \<Rightarrow> string \<Rightarrow> int \<Rightarrow> int io" where
  \<comment> \<open>\<open>service_ptr\<close>: the low 16 bits of the address of the string, which \<open>ntohs(service)\<close> converts\<close>
  "tcp_easy_listen_lab2 service_ptr interface service listen_queue =
     bind (call (SysSocket AF_INET SOCK_STREAM 0)) (\<lambda>listen_fd.
     seq (only_if (listen_fd < 0) (perror ''socket error''))
    (case inet_pton AF_INET interface of
       Inr (Some addr) \<Rightarrow>
         (let port = htons (ucast (strtoul10 service)) in
          bind (enable_reuse_address_lab2 listen_fd) (\<lambda>n.
          if n < 0 then err_quit ''setsockopt error''
          else bind (call (SysBind listen_fd (SaIn port addr))) (\<lambda>_.
            bind (call (SysListen listen_fd listen_queue)) (\<lambda>_.
            case inet_ntop AF_INET addr 16 of
              Inl e \<Rightarrow> seq (set_errno e) (err_quit ''inet_ntop error'')
            | Inr ip_str \<Rightarrow>
                seq (printf (''Server '' @ ip_str @ '' is ready to accept connection via port '' @
                       dec (unat (ntohs service_ptr)) @ [newline]))
                  (ret listen_fd)))))
     | _ \<Rightarrow> err_quit (''inet_pton error for '' @ interface @ [newline])))"

definition send_file_to_socket_lab2 :: "int \<Rightarrow> int \<Rightarrow> int io" where
  \<comment> \<open>after a failing \<open>fstat\<close>, \<open>st_size\<close> is read uninitialised\<close>
  "send_file_to_socket_lab2 file_fd sock_fd =
     bind (sys (SysOther ''fstat'' [file_fd] [])) (\<lambda>st.
     seq (guard (0 \<le> r_val st))
    (bind (call (SysOther ''sendfile'' [sock_fd, file_fd, 0, r_num st] [])) (\<lambda>n.
     ret (if n < 0 then - 1 else 0))))"

definition fork_child :: "int \<Rightarrow> string \<Rightarrow> int \<Rightarrow> 'a io" where
  "fork_child listen_fd filename connected_fd =
     bind (call (SysClose listen_fd)) (\<lambda>_.
     bind (call (SysOther ''open'' [0] [filename])) (\<lambda>file_fd.
     seq (only_if (file_fd < 0) (perror (''open failure'' @ [newline])))
    (bind (send_file_to_socket_lab2 file_fd connected_fd) (\<lambda>n.
     if n < 0 then err_quit (''send to socket failure'' @ [newline])
     else bind (call (SysClose connected_fd)) (\<lambda>_. exit_with 0)))))"

definition fork_parent :: "int \<Rightarrow> (unit + 'a) io" where
  "fork_parent connected_fd =
     bind (sys (SysGetpeername connected_fd)) (\<lambda>r.
     if r_val r < 0 then err_sys (''getpeername error'' @ [newline])
     else (let (port, addr) = sin_of (r_addr r) in
       case inet_ntop AF_INET addr 16 of
         Inl e \<Rightarrow> seq (set_errno e) (err_quit ''inet_ntop error'')
       | Inr ip_str \<Rightarrow>
           seq (printf (''Client '' @ ip_str @ '' connected to server via port '' @
                  dec (unat (ntohs port)) @ [newline]))
             (bind (call (SysClose connected_fd)) (\<lambda>_. again ()))))"

definition fork_body :: "int \<Rightarrow> string \<Rightarrow> unit \<Rightarrow> (unit + int) io" where
  "fork_body listen_fd filename = (\<lambda>_.
     bind (Accept listen_fd) (\<lambda>a.
     let connected_fd = r_val a in
     bind (call SysFork) (\<lambda>client_pid.
     if client_pid < 0 then seq (perror ''child error'') (again ())
     else if client_pid = 0 then fork_child listen_fd filename connected_fd
     else fork_parent connected_fd)))"

definition tcp_fork_server :: "int \<Rightarrow> string \<Rightarrow> int io" where
  "tcp_fork_server listen_fd filename = loop (fork_body listen_fd filename) ()"

definition fork_main :: "16 word \<Rightarrow> string list \<Rightarrow> int io" where
  "fork_main service_ptr argv =
     seq (guard (4 \<le> length argv))
    (bind (tcp_easy_listen_lab2 service_ptr (argv ! 1) (argv ! 2) 100) (\<lambda>sock_fd.
     if sock_fd < 0 then seq (printf ''Failed to create TCP listening socket'') (ret (- 1))
     else seq (bind (tcp_fork_server sock_fd (argv ! 3)) (\<lambda>_. ret ())) (ret 0)))"

lemma shrinks_fork [eating]: "shrinks (fork_child l f c)" "shrinks (fork_parent c)"
  unfolding fork_child_def fork_parent_def send_file_to_socket_lab2_def Let_def
  by (intro eating | simp split: sum.split prod.split)+

interpretation fork_server: consuming "fork_body l f" for l f
  by unfold_locales (unfold fork_body_def Let_def, intro body_eating eats_Accept eating)

subsection \<open>An iteration of the server\<close>

definition forks :: "(syscall \<times> sysret) list \<Rightarrow> int list" where
  \<comment> \<open>the answers of \<open>fork\<close> in a trace\<close>
  "forks log = concat (map (\<lambda>e. case fst e of SysFork \<Rightarrow> [r_val (snd e)] | _ \<Rightarrow> []) log)"

lemma forks_simps [simp]:
  "forks [] = []" "forks (a @ b) = forks a @ forks b"
  "forks ((SysFork, r) # es) = r_val r # forks es" "forks ((SysOther nm is ss, r) # es) = forks es"
  "forks ((SysPut fd s, r) # es) = forks es" "forks ((SysClose fd, r) # es) = forks es"
  "forks ((SysGetpeername fd, r) # es) = forks es"
  by (simp_all add: forks_def)

lemma forks_accept_log [simp]: "forks (accept_log fd rs) = []"
  by (induction rs) (simp_all add: accept_log_def forks_def)

lemma forks_err_world [simp]: "forks (trace (err_world flag level msg w)) = forks (trace w)"
  by (simp add: err_world_def Let_def)

definition fork_post :: "int \<Rightarrow> int multiset \<Rightarrow> int list \<Rightarrow> (unit + int) res \<Rightarrow> world \<Rightarrow> bool" where
  \<comment> \<open>\<open>fs\<close> is open and \<open>old\<close> the forks so far when the iteration begins\<close>
  "fork_post l fs old r w =
     (case r of
        Val (Inl _) \<Rightarrow> \<exists>f fd. forks (trace w) = old @ [f] \<and> f \<noteq> 0 \<and>
          fds (trace w) = (if f < 0 then add_mset fd fs else fs)
      | Val (Inr _) \<Rightarrow> False
      | Exited c \<Rightarrow> c = 1 \<or>
          c = 0 \<and> forks (trace w) = old @ [0] \<and> fds (trace w) = fs - {#l#}
      | Undef \<Rightarrow> forks (trace w) = old @ [0] \<and>
          (\<exists>fd r. last (trace w) = (SysOther ''fstat'' [fd] [], r) \<and> r_val r < 0)
      | Blocked \<Rightarrow> True)"

lemma fork_post_simps [simp]:
  "fork_post l fs old (Val (Inl u)) w \<longleftrightarrow> (\<exists>f fd. forks (trace w) = old @ [f] \<and> f \<noteq> 0 \<and>
     fds (trace w) = (if f < 0 then add_mset fd fs else fs))"
  "fork_post l fs old (Val (Inr n)) w \<longleftrightarrow> False"
  "fork_post l fs old (Exited c) w \<longleftrightarrow> c = 1 \<or>
     c = 0 \<and> forks (trace w) = old @ [0] \<and> fds (trace w) = fs - {#l#}"
  "fork_post l fs old Undef w \<longleftrightarrow> forks (trace w) = old @ [0] \<and>
     (\<exists>fd r. last (trace w) = (SysOther ''fstat'' [fd] [], r) \<and> r_val r < 0)"
  "fork_post l fs old Blocked w \<longleftrightarrow> True"
  by (simp_all add: fork_post_def)

lemma diff_two: "add_mset c fs - {#l#} - {#c#} = fs - {#l :: int#}"
  by (simp add: diff_right_commute [of _ "{#l#}"])

lemma wp_fork_child:
  assumes "fds (trace w) = add_mset c fs" "forks (trace w) = old @ [0]"
  shows "wp (fork_child l filename c) (fork_post l fs old) w"
  using assms
  by (simp add: fork_child_def send_file_to_socket_lab2_def diff_two split: list.split)

lemma wp_fork_parent:
  assumes "fds (trace w) = add_mset c fs" "forks (trace w) = old @ [f]" "0 < f"
  shows "wp (fork_parent c) (fork_post l fs old) w"
proof -
  have *: "wp (fork_parent c :: (unit + int) io) (fork_post l fs old) w"
    using assms by (auto simp: fork_parent_def Let_def split: list.split prod.split sum.split)
  then show ?thesis .
qed

lemma wp_fork_body: "wp (fork_body l filename s) (fork_post l (fds (trace w)) (forks (trace w))) w"
proof -
  let ?P = "fork_post l (fds (trace w)) (forks (trace w))"
  let ?f = "\<lambda>a. bind (call SysFork) (\<lambda>client_pid.
      if client_pid < 0 then seq (perror ''child error'') (again ())
      else if client_pid = 0 then fork_child l filename (r_val a)
      else fork_parent (r_val a))"
  have "on_val (\<lambda>a. wp (?f a) ?P) ?P r w'" if acc: "accepted l (trace w) r w'" for r w'
  proof (cases r)
    case (Val a)
    with acc obtain skipped where a: "0 \<le> r_val a"
      and w': "trace w' = trace w @ accept_log l (skipped @ [a])" and sk: "list_all aborted skipped"
      by (auto simp: accepted_def)
    have fds: "fds (trace w') = add_mset (r_val a) (fds (trace w))"
      using a fds_accept_log [OF sk, of "fds (trace w)" l] by (simp add: w' accept_log_def)
    have forks: "forks (trace w') = forks (trace w)" by (simp add: w')
    let ?w = "\<lambda>q. logged SysFork q w'"
    have child: "r_val q = 0 \<Longrightarrow> wp (fork_child l filename (r_val a)) ?P (?w q)" for q
      by (rule wp_fork_child) (simp_all add: fds [simplified] forks)
    have parent: "0 < r_val q \<Longrightarrow> wp (fork_parent (r_val a)) ?P (?w q)" for q
      by (rule wp_fork_parent [where f = "r_val q"]) (simp_all add: fds [simplified] forks)
    show ?thesis
      using child parent forks fds
      by (auto simp: Val split: list.split)
  qed (use acc in \<open>auto simp: accepted_def\<close>)
  then show ?thesis
    unfolding fork_body_def Let_def wp_bind [of "Accept l"] by (rule wp_conseq [OF wp_Accept])
qed

subsection \<open>Properties\<close>

text \<open>In each iteration of the server the parent closes the connection it has accepted, so
  that it keeps only what was open before, unless \<open>fork\<close> fails: then the connection stays
  open for ever.  A child never goes back to \<open>accept\<close>: it closes the listening socket and the
  connection and exits with status 0 after the file was sent, or fails; when the file cannot be
  read, \<open>fstat\<close> has failed and its uninitialised result is used.\<close>

theorem fork_server_iteration:
  "wp (fork_body l filename s) (fork_post l (fds (trace w)) (forks (trace w))) w"
  by (rule wp_fork_body)

text \<open>\<open>dump_socket_to_stdout\<close> returns after one \<open>read\<close>, whatever it gave.\<close>

theorem dump_reads_once:
  "wp (dump_socket_to_stdout fd) (\<lambda>r w'.
     r = Blocked \<or>
     (\<exists>a. r = Val (if r_val a < 0 then - 1 else 0) \<and>
        trace w' = trace w @ (SysRead fd 512, a) #
          (if 0 < r_val a then [(SysPut STDOUT_FILENO (r_data a), ok 0),
             (SysPut STDOUT_FILENO (''data received'' @ [newline]), ok 0)] else []))) w"
  by (auto simp: dump_socket_to_stdout_def split: list.split)

text \<open>tcp_easy_ipv4_client.c returns only a connected socket; tcp_client.c returns the socket even
  if \<open>connect\<close> has failed.\<close>

theorem lab2_connect:
  "wp (tcp_easy_connect_ipv4 host service) (\<lambda>r w'.
     case r of
       Val fd \<Rightarrow> 0 \<le> fd \<and> (\<exists>addr q. inet_pton AF_INET host = Inr (Some addr) \<and> r_val q = 0 \<and>
         last (trace w') = (SysConnect fd (SaIn (htons (ucast (strtoul10 service))) addr), q))
     | Exited c \<Rightarrow> c = 1
     | Undef \<Rightarrow> False
     | Blocked \<Rightarrow> True) w \<and>
   wp (tcp_easy_connect_lab2 host service) (\<lambda>r w'. r = Val 3) (start [ok 3, fail 61])"
proof
  show "wp (tcp_easy_connect_ipv4 host service) (\<lambda>r w'.
     case r of
       Val fd \<Rightarrow> 0 \<le> fd \<and> (\<exists>addr q. inet_pton AF_INET host = Inr (Some addr) \<and> r_val q = 0 \<and>
         last (trace w') = (SysConnect fd (SaIn (htons (ucast (strtoul10 service))) addr), q))
     | Exited c \<Rightarrow> c = 1
     | Undef \<Rightarrow> False
     | Blocked \<Rightarrow> True) w"
    by (auto simp: tcp_easy_connect_ipv4_def split: list.split sum.split option.split)
  show "wp (tcp_easy_connect_lab2 host service) (\<lambda>r w'. r = Val 3) (start [ok 3, fail 61])"
    by (simp add: tcp_easy_connect_lab2_def start_def ok_def fail_def split: sum.split option.split)
qed

end
