(* ===== verification/Lab3Client.thy ===== *)
theory Lab3Client
  imports SelectCli ChatServer
begin

text \<open>
  The clients of the third lab: the chat client Lab3/chatclient.c and the line client
  Lab3/tcp_client.c.

  Proved here: the chat client passes on every byte it reads, in order and to the right side,
  and never stops; a full buffer is written past its end; and once the server has closed the
  connection it reads standard input no more.
\<close>

subsection \<open>Lab3/chatclient.c\<close>

definition CLIENT_BUFF :: nat where \<comment> \<open>\<open>BUFF_SIZE\<close> of chatclient.c\<close>
  "CLIENT_BUFF = 10000"

definition pass_on :: "int \<Rightarrow> string \<Rightarrow> (unit + 'a) io" where
  "pass_on fd s =
     bind (call (SysWrite fd s)) (\<lambda>n.
     if n < 0 then seq (perror ''CLIENT ERROR write()'') (exit_with 255) else again ())"

definition chat_user_body :: "int \<Rightarrow> unit \<Rightarrow> (unit + unit) io" where
  "chat_user_body fd_chat = (\<lambda>_.
     bind (Select (max fd_chat STDIN_FILENO + 1) [fd_chat, STDIN_FILENO] [] None) (\<lambda>s.
     if fd_chat \<in> set (r_rset s) then
       bind (sys (SysRead fd_chat CLIENT_BUFF)) (\<lambda>r.
       if 0 < r_val r then
         seq (guard (r_val r < int CLIENT_BUFF)) \<comment> \<open>\<open>buffer[nread] = 0\<close>\<close>
           (pass_on STDOUT_FILENO (r_data r))
       else again ())
     else if STDIN_FILENO \<in> set (r_rset s) then
       bind (sys (SysRead STDIN_FILENO CLIENT_BUFF)) (\<lambda>r.
       if 0 < r_val r then pass_on fd_chat (r_data r) else again ())
     else again ()))"

definition chatUser :: "string \<Rightarrow> string \<Rightarrow> unit io" where
  "chatUser hostname aPort =
     bind (call (SysSocket AF_INET SOCK_STREAM 0)) (\<lambda>fd_chat.
     if fd_chat < 0 then seq (perror ''client: socket()'') (exit_with 255)
     else bind (Inet_pton AF_INET hostname) (\<lambda>addr.
       bind (call (SysConnect fd_chat (SaIn (htons (ucast (strtoul10 aPort))) addr))) (\<lambda>n.
       if n < 0 then seq (perror ''client: connect()'') (exit_with 255)
       else loop (chat_user_body fd_chat) ())))"

definition chat_client_main :: "string list \<Rightarrow> int io" where
  "chat_client_main argv =
     (if length argv \<noteq> 3 then
        seq (printf (''usage:'' @ argv ! 0 @ '' [IP] [PORT] '' @ [newline])) (ret (- 1))
      else seq (printf (newline # ''Starting chat session: host('' @ argv ! 1 @ '') port('' @ argv ! 2 @ '')'' @ [newline]))
        (seq (chatUser (argv ! 1) (argv ! 2)) (ret 0)))"

interpretation chat_user: consuming "chat_user_body fd" for fd
  by unfold_locales (unfold chat_user_body_def pass_on_def,
      intro body_eating eats_Select eating)

subsection \<open>Lab3/tcp_client.c\<close>

definition line_client_body :: "int \<Rightarrow> rline \<Rightarrow> (rline + unit) io" where
  \<comment> \<open>the state is the static buffer of \<open>readline\<close>\<close>
  "line_client_body sockfd = (\<lambda>st.
     bind (Fgets MAXLINE STDIN_FILENO) (\<lambda>line.
     seq (case line of Some sendline \<Rightarrow> Writen sockfd (c_string sendline) | None \<Rightarrow> ret ())
    (bind (Readline sockfd MAXLINE st) (\<lambda>(n, recvline, st).
     seq (only_if (0 < n) (Fputs (c_string recvline) STDOUT_FILENO)) (again st)))))"

definition line_client_main :: "string list \<Rightarrow> unit io" where
  "line_client_main argv =
     (if length argv \<noteq> 3 then err_quit ''usage: ./tcp_client <IPaddress> <port>''
      else bind (Socket AF_INET SOCK_STREAM 0) (\<lambda>sockfd.
        bind (Inet_pton AF_INET (argv ! 1)) (\<lambda>addr.
        seq (Connect sockfd (SaIn (htons (ucast (strtoul10 (argv ! 2)))) addr))
          (loop (line_client_body sockfd) rl_init))))"

interpretation line_client: consuming "line_client_body fd" for fd
  by unfold_locales (unfold line_client_body_def, intro body_eating eats_Fgets eating)

subsection \<open>What the chat client passes on\<close>

definition offered :: "int \<Rightarrow> (syscall \<times> sysret) list \<Rightarrow> string" where
  \<comment> \<open>the bytes given to \<open>write\<close> for a descriptor\<close>
  "offered fd log = concat (map snd (filter (\<lambda>p. fst p = fd) (writes log)))"

lemma offered_simps [simp]:
  "offered fd [] = []" "offered fd (a @ b) = offered fd a @ offered fd b"
  "offered fd [(SysWrite fd' s, r)] = (if fd' = fd then s else [])"
  "offered fd [(SysRead fd' n, r)] = []"
  by (simp_all add: offered_def)

lemma offered_quiet: "quiet c \<Longrightarrow> offered fd [(c, r)] = []"
  by (cases c) (simp_all add: offered_def writes_def)

definition passed :: "int \<Rightarrow> (syscall \<times> sysret) list \<Rightarrow> bool" where
  "passed fd new \<longleftrightarrow> offered STDOUT_FILENO new = stream_in fd new \<and> offered fd new = stream_in STDIN_FILENO new"

definition nearly_passed :: "int \<Rightarrow> (syscall \<times> sysret) list \<Rightarrow> bool" where
  "nearly_passed fd new \<longleftrightarrow>
     prefix (offered STDOUT_FILENO new) (stream_in fd new) \<and> prefix (offered fd new) (stream_in STDIN_FILENO new)"

definition full_read :: "int \<Rightarrow> (syscall \<times> sysret) list \<Rightarrow> bool" where
  "full_read fd new \<longleftrightarrow>
     (\<exists>r. new \<noteq> [] \<and> last new = (SysRead fd CLIENT_BUFF, r) \<and> r_val r = int CLIENT_BUFF)"

definition pass_post :: "int \<Rightarrow> (syscall \<times> sysret) list \<Rightarrow> unit res \<Rightarrow> world \<Rightarrow> bool" where
  "pass_post fd log r w =
     (case r of
        Val _ \<Rightarrow> False
      | Exited c \<Rightarrow> c \<in> {1, 255} \<and> extends (passed fd) log w
      | Undef \<Rightarrow> extends (\<lambda>new. nearly_passed fd new \<and> full_read fd new) log w
      | Blocked \<Rightarrow> extends (nearly_passed fd) log w)"

lemma passed_nearly: "passed fd new \<Longrightarrow> nearly_passed fd new"
  by (simp add: passed_def nearly_passed_def)

lemma quiet_closed_passed: "quiet_closed (passed fd)"
  by (auto simp: quiet_closed_def passed_def quiet_simps offered_quiet)

lemma extends_said_quiet:
  "quiet_closed P \<Longrightarrow> quiet c \<Longrightarrow> extends P log w \<Longrightarrow> extends P log (said c w)"
  by (intro extends_said) (auto simp: quiet_closed_def elim!: extends_weaken)

lemma wp_chat_user_body:
  assumes fd: "fd \<noteq> STDIN_FILENO" "fd \<noteq> STDOUT_FILENO" and inv: "extends (passed fd) log w"
  shows "wp (chat_user_body fd s) (body_post (\<lambda>_. extends (passed fd) log) (pass_post fd log)) w"
proof -
  let ?I = "\<lambda>_ :: unit. extends (passed fd) log" and ?Q = "pass_post fd log"
  let ?sel = "SysSelect (max fd STDIN_FILENO + 1) [fd, STDIN_FILENO] [] None"
  have near: "extends (passed fd) log w' \<Longrightarrow> extends (nearly_passed fd) log w'" for w'
    by (erule extends_weaken) (rule passed_nearly)
  have sel: "extends (passed fd) log (logged ?sel r w)" for r
    by (rule extends_quiet [OF quiet_closed_passed _ inv]) simp
  have read0: "extends (passed fd) log (logged (SysRead d n) r (logged ?sel q w))" if "r_data r = []" for d n r q
    by (rule extends_logged, rule extends_weaken [OF sel]) (use that in \<open>simp add: passed_def\<close>)
  have readb: "extends (\<lambda>new. nearly_passed fd new \<and> last new = (SysRead d n, r) \<and> new \<noteq> []) log
      (logged (SysRead d n) r (logged ?sel q w))" for d n r q
    by (rule extends_logged, rule extends_weaken [OF sel]) (auto simp: passed_def nearly_passed_def)
  have near1: "extends (nearly_passed fd) log (logged (SysRead d n) r (logged ?sel q w))" for d n r q
    by (rule extends_weaken [OF readb]) simp
  have out: "extends (passed fd) log (logged (SysWrite STDOUT_FILENO (r_data r)) a (logged (SysRead fd n) r (logged ?sel q w)))"
    for n r q a
    by (rule extends_logged, rule extends_logged, rule extends_weaken [OF sel]) (use fd in \<open>auto simp: passed_def simp del: append_assoc\<close>)
  have to: "extends (passed fd) log (logged (SysWrite fd (r_data r)) a (logged (SysRead STDIN_FILENO n) r (logged ?sel q w)))"
    for n r q a
    by (rule extends_logged, rule extends_logged, rule extends_weaken [OF sel]) (use fd in \<open>auto simp: passed_def simp del: append_assoc\<close>)
  have err: "extends (passed fd) log w' \<Longrightarrow> extends (passed fd) log (err_world flag level msg w')" for w' flag level msg
    by (rule extends_err_quiet [OF quiet_closed_passed])
  have put: "extends (passed fd) log w' \<Longrightarrow> extends (passed fd) log (said (SysPut d m) w')" for w' d m
    by (rule extends_said_quiet [OF quiet_closed_passed]) simp
  have pass1: "wp (pass_on STDOUT_FILENO (r_data r)) (body_post ?I ?Q) (logged (SysRead fd n) r (logged ?sel q w))" for n r q
    using near1 out put [OF out] by (auto simp: pass_on_def pass_post_def split: list.split)
  have pass2: "wp (pass_on fd (r_data r)) (body_post ?I ?Q) (logged (SysRead STDIN_FILENO n) r (logged ?sel q w))" for n r q
    using near1 to put [OF to] by (auto simp: pass_on_def pass_post_def split: list.split)
  have full: "extends (\<lambda>new. nearly_passed fd new \<and> full_read fd new) log
      (logged (SysRead fd CLIENT_BUFF) r (logged ?sel q w))" if "fits_read CLIENT_BUFF r" "int CLIENT_BUFF \<le> r_val r" for r q
  proof (rule extends_weaken [OF readb])
    have "r_val r = int CLIENT_BUFF" using that by (auto simp: fits_read_def CLIENT_BUFF_def)
    then show "nearly_passed fd new \<and> last new = (SysRead fd CLIENT_BUFF, r) \<and> new \<noteq> [] \<Longrightarrow>
        nearly_passed fd new \<and> full_read fd new" for new
      by (auto simp: full_read_def)
  qed
  have nodata: "fits_read m r \<Longrightarrow> \<not> 0 < r_val r \<Longrightarrow> r_data r = []" for m r
    by (auto simp: fits_read_def)
  show ?thesis
    using near [OF inv] near [OF sel] sel read0 [OF nodata] pass1 pass2 full err [OF sel]
    unfolding chat_user_body_def Select_def
    by (auto simp: pass_post_def split: list.split)
qed

lemma wp_chat_user:
  assumes "fd \<noteq> STDIN_FILENO" "fd \<noteq> STDOUT_FILENO"
  shows "wp (loop (chat_user_body fd) ()) (pass_post fd (trace w)) w"
proof (rule chat_user.wp_loop [where I = "\<lambda>_. extends (passed fd) (trace w)"])
  show "extends (passed fd) (trace w) w" by (rule extends_refl) (simp_all add: passed_def)
qed (rule wp_chat_user_body [OF assms])

subsection \<open>After the server has closed the connection\<close>

definition input_reads :: "(syscall \<times> sysret) list \<Rightarrow> (syscall \<times> sysret) list" where
  "input_reads log = filter (\<lambda>e. case fst e of SysRead d _ \<Rightarrow> d = STDIN_FILENO | _ \<Rightarrow> False) log"

lemma loop_starved:
  assumes "fd \<noteq> STDIN_FILENO" "script w = concat (replicate n [ready [fd, STDIN_FILENO] [], ok 0])"
  shows "wp (loop (chat_user_body fd) ()) (\<lambda>r w'.
    r = Blocked \<and> script w' = [] \<and> input_reads (trace w') = input_reads (trace w)) w"
  using assms(2)
proof (induction n arbitrary: w)
  case 0
  then show ?case
    by (subst chat_user.loop_unfold) (simp add: chat_user_body_def Select_def)
next
  case (Suc n)
  let ?w = "logged (SysRead fd CLIENT_BUFF) (ok 0)
    (logged (SysSelect (max fd STDIN_FILENO + 1) [fd, STDIN_FILENO] [] None) (ready [fd, STDIN_FILENO] []) w)"
  have "wp (loop (chat_user_body fd) ()) (\<lambda>r w'.
      r = Blocked \<and> script w' = [] \<and> input_reads (trace w') = input_reads (trace ?w)) ?w"
    using Suc.prems by (intro Suc.IH) simp
  moreover have "input_reads (trace ?w) = input_reads (trace w)"
    using assms(1) by (simp add: input_reads_def)
  ultimately show ?case
    using Suc.prems assms(1)
    by (subst chat_user.loop_unfold)
      (simp add: chat_user_body_def Select_def ready_def ok_def fits_select_def fits_read_def)
qed

subsection \<open>Properties\<close>

text \<open>The chat client offers every byte it reads from the server to standard output and every
  byte it reads from standard input to the server, once and in order, and to nobody else; it
  never returns: it ends only with status 1 or 255, waits, or, after a \<open>read\<close> that fills the
  buffer, stores a NUL past its end.\<close>

theorem chat_client_passes_on:
  assumes "fd \<noteq> STDIN_FILENO" "fd \<noteq> STDOUT_FILENO"
  shows "wp (loop (chat_user_body fd) ()) (pass_post fd (trace w)) w"
  by (rule wp_chat_user [OF assms])

definition greeting :: "sysret list" where
  "greeting = [ready [3] [], okdata ''hi'', ok 2, ready [0] [], okdata ''yo'', ok 2]"

theorem chat_client_passes_on_witness:
  "wp (loop (chat_user_body 3) ()) (pass_post 3 (trace (start greeting))) (start greeting)"
  by (rule chat_client_passes_on) (simp_all add: STDIN_FILENO_def STDOUT_FILENO_def)

text \<open>Once the server has closed the connection, the socket is readable in every \<open>select\<close> and
  the client looks at nothing else: however often it goes round, it never reads standard input
  again, although that is ready too, and it does not end.\<close>

theorem chat_client_starves:
  assumes "fd \<noteq> STDIN_FILENO" "script w = concat (replicate n [ready [fd, STDIN_FILENO] [], ok 0])"
  shows "wp (loop (chat_user_body fd) ()) (\<lambda>r w'.
    r = Blocked \<and> script w' = [] \<and> input_reads (trace w') = input_reads (trace w)) w"
  by (rule loop_starved [OF assms])

theorem chat_client_starves_witness:
  "wp (loop (chat_user_body 3) ()) (\<lambda>r w'. r = Blocked \<and> script w' = [] \<and>
     input_reads (trace w') = input_reads (trace (start (concat (replicate 2 [ready [3, STDIN_FILENO] [], ok 0])))))
   (start (concat (replicate 2 [ready [3, STDIN_FILENO] [], ok 0])))"
  by (rule chat_client_starves [where n = 2]) (simp_all add: STDIN_FILENO_def start_def)

end
