(* ===== verification/Lab4.thy ===== *)
theory Lab4
  imports StreamIO ChatServer
begin

text \<open>
  The programs of the fourth lab: the protocol-independent client and server
  (tcp_easy_ipv46_client.c, tcp_easy_ipv46_server.c), the sender and the receiver for the
  buffer size experiments (tcp_sender.c, tcp_receiver.c), print_buf_sizes.c and set_buf_size.c.

  The address structures for \<open>getaddrinfo\<close> are not cleared; of the members the programs read,
  \<open>ai_protocol\<close> of the server is an argument (\<open>junk\<close>) of the model.  Proved here: the client
  connects to the first address that works and leaves the sockets of the others open; and how
  many bytes \<open>send_data_to\<close> sends.
\<close>

definition IPV6_V6ONLY :: int where "IPV6_V6ONLY = 27"
definition option_writeamt :: nat where "option_writeamt = 32 * 1024"

subsection \<open>Numbers with a prefix\<close>

text \<open>\<open>strtoul(s, NULL, 0)\<close>: hexadecimal after \<open>0x\<close>, octal after \<open>0\<close>, decimal otherwise.\<close>

definition digit_of :: "char \<Rightarrow> nat option" where
  "digit_of c =
     (case strchr ''0123456789abcdef'' c of
        Some d \<Rightarrow> Some d
      | None \<Rightarrow> strchr ''0123456789ABCDEF'' c)"

fun number :: "nat \<Rightarrow> nat \<Rightarrow> string \<Rightarrow> nat" where
  "number base acc [] = acc"
| "number base acc (c # cs) =
     (case digit_of c of
        Some d \<Rightarrow> if d < base then number base (acc * base + d) cs else acc
      | None \<Rightarrow> acc)"

definition prefixed :: "string \<Rightarrow> nat" where
  "prefixed s =
     (case s of
        CHR ''0'' # x # d # rest \<Rightarrow>
          if (x = CHR ''x'' \<or> x = CHR ''X'') \<and> digit_of d \<noteq> None then number 16 0 (d # rest)
          else number 8 0 s
      | CHR ''0'' # rest \<Rightarrow> number 8 0 s
      | _ \<Rightarrow> number 10 0 s)"

definition strtoul0 :: "string \<Rightarrow> 64 word" where
  "strtoul0 s =
     (case dropWhile isspace s of
        [] \<Rightarrow> 0
      | c # cs \<Rightarrow>
          (let body = (if c = CHR ''-'' \<or> c = CHR ''+'' then cs else c # cs);
               v = prefixed body
           in if 2 ^ 64 \<le> v then - 1 else if c = CHR ''-'' then - of_nat v else of_nat v))"

subsection \<open>tcp_easy_ipv46_client.c\<close>

text \<open>The \<open>do ... while\<close> loop over the addresses; nothing closes a socket that does not work.\<close>

fun first_addr46 :: "(int \<Rightarrow> addrinfo \<Rightarrow> bool io) \<Rightarrow> addrinfo list \<Rightarrow> int option io" where
  "first_addr46 use [] = ret None"
| "first_addr46 use (res # rest) =
     bind (call (SysSocket (ai_family res) (ai_socktype res) (ai_protocol res))) (\<lambda>fd.
     if fd < 0 then first_addr46 use rest
     else bind (use fd res) (\<lambda>works. if works then ret (Some fd) else first_addr46 use rest))"

definition use_connect46 :: "int \<Rightarrow> addrinfo \<Rightarrow> bool io" where
  "use_connect46 fd res = bind (call (SysConnect fd (ai_addr res))) (\<lambda>n. ret (n = 0))"

definition by_addrinfo :: "(int \<Rightarrow> addrinfo \<Rightarrow> bool io) \<Rightarrow> addrinfo \<Rightarrow> string \<Rightarrow> string \<Rightarrow> int io" where
  "by_addrinfo use hints host service =
     bind (sys (SysGetaddrinfo (Some host) (Some service) hints)) (\<lambda>r.
     if r_val r \<noteq> 0 then ret (- r_val r)
     else bind (first_addr46 use (r_ais r)) (\<lambda>found.
       seq (say (SysFree ''addrinfo''))
         (ret (case found of Some fd \<Rightarrow> fd | None \<Rightarrow> - 1))))"

definition tcp_easy_connect46 :: "string \<Rightarrow> string \<Rightarrow> int io" where
  "tcp_easy_connect46 =
     by_addrinfo use_connect46
       (no_hints\<lparr>ai_family := AF_UNSPEC, ai_socktype := SOCK_STREAM, ai_protocol := IPPROTO_TCP\<rparr>)"

definition dump46_body :: "int \<Rightarrow> unit \<Rightarrow> (unit + int) io" where
  "dump46_body sock_fd = (\<lambda>_.
     bind (sys (SysRead sock_fd 512)) (\<lambda>r.
     if 0 < r_val r then seq (say (SysPut STDOUT_FILENO (r_data r))) (again ())
     else stop (- 1)))" \<comment> \<open>the loop ends only with \<open>num_bytes <= 0\<close>\<close>

definition dump_socket_to_stdout46 :: "int \<Rightarrow> int io" where
  "dump_socket_to_stdout46 sock_fd = loop (dump46_body sock_fd) ()"

definition client46_main :: "string list \<Rightarrow> int io" where
  "client46_main argv =
     seq (guard (3 \<le> length argv))
    (bind (tcp_easy_connect46 (argv ! 1) (argv ! 2)) (\<lambda>sock_fd.
     if sock_fd < 0 then seq (printf (''Failed to create TCP connected socket'' @ [newline])) (ret (- 1))
     else bind (dump_socket_to_stdout46 sock_fd) (\<lambda>_.
       bind (call (SysClose sock_fd)) (\<lambda>_. ret 0))))"

subsection \<open>tcp_easy_ipv46_server.c\<close>

definition enable_reuse_address46 :: "int \<Rightarrow> int io" where
  \<comment> \<open>the same function is in tcp_receiver.c\<close>
  "enable_reuse_address46 sock_fd =
     bind (call (SysSetsockopt sock_fd SOL_SOCKET SO_REUSEADDR 1)) (\<lambda>n. ret (if n < 0 then - 1 else 0))"

definition disable_v4_mapping :: "int \<Rightarrow> int io" where
  "disable_v4_mapping sock_fd = call (SysSetsockopt sock_fd IPPROTO_IPV6 IPV6_V6ONLY 1)"

definition use_listen46 :: "int \<Rightarrow> int \<Rightarrow> addrinfo \<Rightarrow> bool io" where
  "use_listen46 listen_queue fd res =
     bind (enable_reuse_address46 fd) (\<lambda>_.
     bind (call (SysBind fd (ai_addr res))) (\<lambda>n.
     if n \<noteq> 0 then ret False
     else bind (call (SysListen fd listen_queue)) (\<lambda>n. ret (\<not> n < 0))))"

definition tcp_easy_listen46 :: "int \<Rightarrow> string \<Rightarrow> string \<Rightarrow> int \<Rightarrow> int io" where
  "tcp_easy_listen46 junk address service listen_queue =
     by_addrinfo (use_listen46 listen_queue)
       (no_hints\<lparr>ai_flags := AI_PASSIVE, ai_family := AF_UNSPEC, ai_socktype := SOCK_STREAM, ai_protocol := junk\<rparr>)
       address service"

definition send_file_to_socket46 :: "int \<Rightarrow> int \<Rightarrow> int io" where
  "send_file_to_socket46 file_fd sock_fd =
     bind (call (SysOther ''sendfile'' [file_fd, sock_fd, 0, 0] [])) (\<lambda>n. ret (if n < 0 then - 1 else 0))"

definition server46_body :: "int \<Rightarrow> string \<Rightarrow> unit \<Rightarrow> (unit + unit) io" where
  "server46_body listen_fd filename = (\<lambda>_.
     seq (printf ''Awaiting connection...'')
    (bind (call (SysAccept listen_fd)) (\<lambda>connected_fd.
     if connected_fd < 0 then
       bind get_world (\<lambda>w. seq (printf (strerror w (errno w) @ [newline])) (stop ()))
     else seq (printf (''success'' @ [newline]))
       (bind (call (SysOther ''open'' [0] [filename])) (\<lambda>file_fd.
        if file_fd < 0 then seq (printf (''Failed to open file'' @ [newline])) (stop ())
        else bind (send_file_to_socket46 file_fd connected_fd) (\<lambda>n.
          if n < 0 then seq (printf (''Failed to send (all) file'' @ [newline])) (stop ())
          else bind (call (SysClose file_fd)) (\<lambda>_.
            bind (call (SysClose connected_fd)) (\<lambda>_. again ()))))))))"

definition server_loop :: "int \<Rightarrow> string \<Rightarrow> unit io" where
  "server_loop listen_fd filename = loop (server46_body listen_fd filename) ()"

definition server46_main :: "int \<Rightarrow> string list \<Rightarrow> int io" where
  "server46_main junk argv =
     seq (guard (4 \<le> length argv))
    (bind (tcp_easy_listen46 junk (argv ! 1) (argv ! 2) 100) (\<lambda>sock_fd.
     if sock_fd < 0 then seq (printf ''Failed to create TCP listening socket'') (ret (- 1))
     else seq (server_loop sock_fd (argv ! 3)) (ret 0)))"

interpretation dump46: consuming "dump46_body fd" for fd
  by unfold_locales (unfold dump46_body_def, intro body_eating)

interpretation server46: consuming "server46_body l f" for l f
  by unfold_locales (unfold server46_body_def send_file_to_socket46_def seq_def,
      intro cont_eats_bind2 [OF shrinks_printf] cont_eats_bind1 eats_call eating)

subsection \<open>tcp_receiver.c\<close>

definition tcp_easy_listen_receiver :: "string \<Rightarrow> string \<Rightarrow> int \<Rightarrow> int io" where
  "tcp_easy_listen_receiver interface service listen_queue =
     bind (call (SysSocket AF_INET SOCK_STREAM 0)) (\<lambda>listen_fd.
     if listen_fd < 0 then ret (- 1)
     else (case inet_pton AF_INET interface of
         Inr (Some addr) \<Rightarrow>
           (let port = htons (ucast (strtoul10 service)) in
            if port = 0 then ret (- 1)
            else bind (enable_reuse_address46 listen_fd) (\<lambda>n.
              if n < 0 then ret (- 1)
              else bind (call (SysBind listen_fd (SaIn port addr))) (\<lambda>n.
                if n < 0 then ret (- 1)
                else bind (call (SysListen listen_fd listen_queue)) (\<lambda>n.
                  ret (if n < 0 then - 1 else listen_fd)))))
       | _ \<Rightarrow> ret (- 1)))"

definition malloc_checked :: "nat \<Rightarrow> unit io" where
  \<comment> \<open>\<open>malloc\<close> and the \<open>assert\<close> on its result, which aborts (status 134)\<close>
  "malloc_checked n =
     bind (call (SysOther ''malloc'' [int n] [])) (\<lambda>p. if p = 0 then exit_with 134 else ret ())"

definition discard_body :: "int \<Rightarrow> unit \<Rightarrow> (unit + int) io" where
  "discard_body sockfd = (\<lambda>_.
     bind (call (SysRead sockfd option_writeamt)) (\<lambda>br. if 0 < br then again () else stop br))"

definition read_and_ignore_till_end :: "int \<Rightarrow> int io" where
  "read_and_ignore_till_end sockfd =
     seq (malloc_checked option_writeamt)
    (bind (loop (discard_body sockfd) ()) (\<lambda>br.
     seq (say (SysFree ''buf''))
    (bind (call (SysClose sockfd)) (\<lambda>_. ret br))))"

definition tcp_receiver :: "int \<Rightarrow> 'a io" where
  "tcp_receiver listen_fd =
     bind (call (SysAccept listen_fd)) (\<lambda>connected_fd.
     if connected_fd < 0 then seq (printf ''Failed to accept a connection: ~m'') (exit_with 1)
     else bind (read_and_ignore_till_end connected_fd) (\<lambda>n. exit_with (if n < 0 then 1 else 0)))"

definition receiver_main :: "string list \<Rightarrow> int io" where
  \<comment> \<open>\<open>size_recvbuf\<close> is computed and not used\<close>
  "receiver_main argv =
     seq (guard (4 \<le> length argv))
    (bind (tcp_easy_listen_receiver (argv ! 1) (argv ! 2) 100) (\<lambda>sock_fd.
     if sock_fd < 0 then seq (printf ''Failed to create TCP listening socket'') (ret (- 1))
     else seq (tcp_receiver sock_fd) (ret 0)))"

subsection \<open>tcp_sender.c\<close>

definition tcp_easy_connect_sender :: "string \<Rightarrow> string \<Rightarrow> int io" where
  "tcp_easy_connect_sender host service =
     bind (call (SysSocket AF_INET SOCK_STREAM 0)) (\<lambda>sock_fd.
     if sock_fd < 0 then ret (- 1)
     else (case inet_pton AF_INET host of
         Inr (Some addr) \<Rightarrow>
           (let port = htons (ucast (strtoul10 service)) in
            if port = 0 then ret (- 1)
            else bind (call (SysConnect sock_fd (SaIn port addr))) (\<lambda>n.
              ret (if n < 0 then - 1 else sock_fd)))
       | _ \<Rightarrow> ret (- 1)))"

definition letters :: string where
  \<comment> \<open>\<open>buf\<close>: \<open>buf[i] = 'A' + (i % 26)\<close>\<close>
  "letters = map (\<lambda>i. char_of (65 + i mod 26)) [0..<option_writeamt]"

definition send_body :: "int \<Rightarrow> 64 word \<Rightarrow> (64 word + int) io" where
  "send_body sockfd = (\<lambda>amount.
     bind (call (SysWrite sockfd letters)) (\<lambda>tmp.
     if tmp \<le> 0 then stop (- 1)
     else (let amount = amount - of_int tmp in
       if of_nat option_writeamt < amount then again amount else stop 0)))"

definition send_data_to :: "int \<Rightarrow> 64 word \<Rightarrow> int io" where
  "send_data_to sockfd amount =
     seq (malloc_checked option_writeamt) (loop (send_body sockfd) amount)"

definition as_int :: "64 word \<Rightarrow> int" where
  \<comment> \<open>the conversion to \<open>int\<close>\<close>
  "as_int n = sint (ucast n :: 32 word)"

definition sender_main :: "string list \<Rightarrow> int io" where
  "sender_main argv =
     seq (guard (5 \<le> length argv))
    (let size_senddata = as_int (strtoul0 (argv ! 4) * 1024 * 1024) in
     bind (tcp_easy_connect_sender (argv ! 1) (argv ! 2)) (\<lambda>connected_fd.
     if connected_fd < 0 then seq (printf (''Failed to create TCP connected socket'' @ [newline])) (ret (- 1))
     else bind (send_data_to connected_fd (of_int size_senddata)) (\<lambda>n.
       if n < 0 then exit_with 1
       else bind (call (SysClose connected_fd)) (\<lambda>_. ret 0))))"

subsection \<open>print_buf_sizes.c and set_buf_size.c\<close>

definition print_buf_sizes :: "string \<Rightarrow> int \<Rightarrow> unit io" where
  \<comment> \<open>after a failure the size printed is an uninitialised variable\<close>
  "print_buf_sizes description sockfd =
     bind (sys (SysGetsockopt sockfd SOL_SOCKET SO_RCVBUF)) (\<lambda>recv.
     seq (only_if (r_val recv < 0) (perror ''rcv error:''))
    (bind (sys (SysGetsockopt sockfd SOL_SOCKET SO_SNDBUF)) (\<lambda>send.
     seq (only_if (r_val send < 0) (perror ''send error:''))
    (seq (guard (0 \<le> r_val recv \<and> 0 \<le> r_val send))
    (printf (description @ '': SO_RCVBUF = '' @ dec_int (r_num recv) @ '', SO_SNDBUF = '' @
       dec_int (r_num send) @ [newline]))))))"

definition set_buf_size :: "int \<Rightarrow> int \<Rightarrow> int \<Rightarrow> int io" where
  "set_buf_size sockfd which val =
     bind (call (SysSetsockopt sockfd SOL_SOCKET which val)) (\<lambda>n. ret (if n < 0 then - 1 else 0))"

interpretation discard: consuming "discard_body fd" for fd
  by unfold_locales (unfold discard_body_def, intro body_eating)

interpretation send: consuming "send_body fd" for fd
  by unfold_locales (unfold send_body_def, intro body_eating)

lemma length_letters [simp]: "length letters = option_writeamt"
  unfolding letters_def by (simp only: length_map length_upt minus_nat.diff_0)

subsection \<open>How much is sent\<close>

definition chunk :: sysret where
  \<comment> \<open>a \<open>write\<close> that takes the whole buffer\<close>
  "chunk = ok (int option_writeamt)"

lemma chunk_simps [simp]: "r_val chunk = int option_writeamt"
  by (simp add: chunk_def ok_def)

lemma amount_minus:
  "32768 \<le> unat amount \<Longrightarrow> unat (amount - of_int (int option_writeamt) :: 64 word) = unat amount - 32768"
  by (simp add: option_writeamt_def unat_sub word_le_nat_alt)

lemma amount_wraps:
  assumes "unat (amount :: 64 word) < 32768"
  shows "unat (amount - of_int (int option_writeamt)) = 18446744073709518848 + unat amount"
    \<comment> \<open>the number is \<open>2 ^ 64 - 32768\<close>\<close>
proof -
  have o: "of_int (int option_writeamt) = (32768 :: 64 word)" by (simp add: option_writeamt_def)
  have m: "- (32768 :: 64 word) = 18446744073709518848" by simp
  have c: "amount - 32768 = 18446744073709518848 + amount"
    by (simp only: diff_conv_add_uminus m add.commute)
  have "unat (18446744073709518848 :: 64 word) + unat amount < 2 ^ LENGTH(64)" using assms by simp
  then have "unat (18446744073709518848 + amount) = unat (18446744073709518848 :: 64 word) + unat amount"
    by (rule unat_add_lem [THEN iffD1])
  then show ?thesis unfolding o c by simp
qed

lemma more_iff: "of_nat option_writeamt < (amount :: 64 word) \<longleftrightarrow> 32768 < unat amount"
  by (simp add: option_writeamt_def word_less_nat_alt)

definition sent :: "int \<Rightarrow> nat \<Rightarrow> (syscall \<times> sysret) list" where
  "sent fd n = replicate n (SysWrite fd letters, chunk)"

lemma fits_chunk [simp]: "fits_write letters chunk"
  by (simp add: fits_write_def)

lemma writeamt_pos [simp]: "0 < option_writeamt" "option_writeamt \<noteq> 0"
  by (simp_all add: option_writeamt_def)

lemma send_step:
  assumes "script w = chunk # rs"
  shows "loop (send_body fd) amount w =
    (let amount' = amount - of_int (int option_writeamt); w' = logged (SysWrite fd letters) chunk w
     in if 32768 < unat amount' then loop (send_body fd) amount' w' else (Val 0, w'))"
  using assms
  by (subst send.loop_unfold)
    (simp add: send_body_def bind_def call_def sys_def more_iff Let_def again_def stop_def ret_def logged_def
      del: of_int_of_nat_eq)

text \<open>An amount of \<open>k\<close> chunks: the loop stops when one chunk is left.\<close>

lemma send_chunks:
  assumes "unat amount = k * 32768" "1 \<le> k" "script w = replicate (max 1 (k - 1)) chunk @ rest"
  shows "wp (loop (send_body fd) amount) (\<lambda>r w'.
    r = Val 0 \<and> script w' = rest \<and> trace w' = trace w @ sent fd (max 1 (k - 1))) w"
  using assms
proof (induction k arbitrary: amount w)
  case (Suc k)
  let ?a = "amount - of_int (int option_writeamt)"
  let ?w = "logged (SysWrite fd letters) chunk w"
  have a: "unat ?a = k * 32768" using Suc.prems(1) by (subst amount_minus) simp_all
  have scr: "script w = chunk # tl (script w)" using Suc.prems(3) by (cases k) auto
  show ?case
  proof (cases "k \<le> 1")
    case True
    then have "k = 0 \<or> k = 1" by linarith
    then have "\<not> 32768 < unat ?a" "replicate (max 1 k) chunk = [chunk]" "sent fd (max 1 k) = sent fd 1"
      unfolding a by auto
    then show ?thesis
      using Suc.prems(3) by (simp add: wp_def send_step [OF scr] sent_def Let_def del: of_int_of_nat_eq)
  next
    case False
    then have more: "32768 < unat ?a" unfolding a by simp
    have k: "max 1 k = Suc (max 1 (k - 1))" using False by simp
    have "wp (loop (send_body fd) ?a) (\<lambda>r w'.
        r = Val 0 \<and> script w' = rest \<and> trace w' = trace ?w @ sent fd (max 1 (k - 1))) ?w"
      using Suc.prems(3) False by (intro Suc.IH a) (simp_all add: k)
    then show ?thesis
      using more unfolding diff_Suc_1 k wp_def send_step [OF scr] Let_def
      by (simp add: sent_def split: prod.splits del: of_int_of_nat_eq)
  qed
qed simp

text \<open>A large amount: the loop goes on for as long as there are answers.\<close>

lemma send_long:
  assumes "n * 32768 + 32768 < unat amount" "script w = replicate n chunk"
  shows "wp (loop (send_body fd) amount) (\<lambda>r w'.
    r = Blocked \<and> script w' = [] \<and> trace w' = trace w @ sent fd n) w"
  using assms
proof (induction n arbitrary: amount w)
  case 0
  then show ?case by (subst send.loop_unfold) (simp add: send_body_def sent_def)
next
  case (Suc n)
  let ?a = "amount - of_int (int option_writeamt)"
  let ?w = "logged (SysWrite fd letters) chunk w"
  have a: "unat ?a = unat amount - 32768" using Suc.prems(1) by (intro amount_minus) simp
  have scr: "script w = chunk # replicate n chunk" using Suc.prems(2) by simp
  have more: "32768 < unat ?a" using Suc.prems(1) unfolding a by simp
  have "wp (loop (send_body fd) ?a) (\<lambda>r w'.
      r = Blocked \<and> script w' = [] \<and> trace w' = trace ?w @ sent fd n) ?w"
    using Suc.prems by (intro Suc.IH) (simp_all only: a logged_simps, simp_all)
  then show ?case
    using more unfolding wp_def send_step [OF scr] Let_def
    by (simp add: sent_def split: prod.splits del: of_int_of_nat_eq)
qed

lemma send_small:
  assumes "unat amount < 32768" "n < 2 ^ 48" "script w = replicate (Suc n) chunk"
  shows "wp (loop (send_body fd) amount) (\<lambda>r w'.
    r = Blocked \<and> script w' = [] \<and> trace w' = trace w @ sent fd (Suc n)) w"
proof -
  let ?a = "amount - of_int (int option_writeamt)"
  let ?w = "logged (SysWrite fd letters) chunk w"
  have scr: "script w = chunk # replicate n chunk" using assms(3) by simp
  have a: "unat ?a = 18446744073709518848 + unat amount" by (rule amount_wraps [OF assms(1)])
  have more: "32768 < unat ?a" unfolding a by simp
  have "wp (loop (send_body fd) ?a) (\<lambda>r w'.
      r = Blocked \<and> script w' = [] \<and> trace w' = trace ?w @ sent fd n) ?w"
    using assms(2,3) by (intro send_long) (simp_all only: a logged_simps, simp_all)
  then show ?thesis
    using more unfolding wp_def send_step [OF scr] Let_def
    by (simp add: sent_def split: prod.splits del: of_int_of_nat_eq)
qed

subsection \<open>The sockets left open\<close>

definition failed_tries :: "int list \<Rightarrow> int \<Rightarrow> sysret list" where
  \<comment> \<open>the answers for addresses that have a socket and do not connect\<close>
  "failed_tries lost e = concat (map (\<lambda>fd. [ok fd, fail e]) lost)"

lemma ok_fail_val [simp]: "r_val (ok v) = v" "r_val (fail e) = - 1"
  by (simp_all add: ok_def fail_def)

lemma wp_use_connect46:
  "wp (use_connect46 fd ai) Q = wp (call (SysConnect fd (ai_addr ai))) (on_val (\<lambda>n. Q (Val (n = 0))) Q)"
  unfolding use_connect46_def wp_bind wp_ret ..

lemma first_addr46_leaks:
  assumes "length pre = length lost" "list_all (\<lambda>d. 0 \<le> d) lost" "0 \<le> fd"
    "script w = failed_tries lost e @ [ok fd, ok 0] @ rest"
  shows "wp (first_addr46 use_connect46 (pre @ ai # post)) (\<lambda>r w'.
    r = Val (Some fd) \<and> script w' = rest \<and> fds (trace w') = add_mset fd (mset lost + fds (trace w)) \<and>
    last (trace w') = (SysConnect fd (ai_addr ai), ok 0)) w"
  using assms
proof (induction pre lost arbitrary: w rule: list_induct2)
  case Nil
  then show ?case by (simp add: failed_tries_def wp_use_connect46)
next
  case (Cons a pre d lost)
  let ?w = "logged (SysConnect d (ai_addr a)) (fail e)
    (logged (SysSocket (ai_family a) (ai_socktype a) (ai_protocol a)) (ok d) w)"
  have "wp (first_addr46 use_connect46 (pre @ ai # post)) (\<lambda>r w'.
      r = Val (Some fd) \<and> script w' = rest \<and> fds (trace w') = add_mset fd (mset lost + fds (trace ?w)) \<and>
      last (trace w') = (SysConnect fd (ai_addr ai), ok 0)) ?w"
    using Cons.prems by (intro Cons.IH) (simp_all add: failed_tries_def)
  then show ?case
    using Cons.prems by (simp add: failed_tries_def wp_use_connect46)
qed

subsection \<open>Properties\<close>

text \<open>\<open>tcp_easy_connect\<close> of the fourth lab returns a socket connected to the first address
  that can be connected to, but leaves open every socket whose \<open>connect\<close> failed before it:
  afterwards one descriptor more is open for each of them.\<close>

theorem lab4_connect_leaks:
  assumes "length pre = length lost" "list_all (\<lambda>d. 0 \<le> d) lost" "0 \<le> fd"
    "script w = (ok 0)\<lparr>r_ais := pre @ ai # post\<rparr> # failed_tries lost e @ [ok fd, ok 0] @ rest"
  shows "wp (tcp_easy_connect46 host service) (\<lambda>r w'.
    r = Val fd \<and> script w' = rest \<and> fds (trace w') = add_mset fd (mset lost + fds (trace w))) w"
proof -
  let ?h = "no_hints\<lparr>ai_family := AF_UNSPEC, ai_socktype := SOCK_STREAM, ai_protocol := IPPROTO_TCP\<rparr>"
  let ?w = "logged (SysGetaddrinfo (Some host) (Some service) ?h) ((ok 0)\<lparr>r_ais := pre @ ai # post\<rparr>) w"
  have "wp (first_addr46 use_connect46 (pre @ ai # post)) (\<lambda>r w'.
      r = Val (Some fd) \<and> script w' = rest \<and> fds (trace w') = add_mset fd (mset lost + fds (trace ?w)) \<and>
      last (trace w') = (SysConnect fd (ai_addr ai), ok 0)) ?w"
    using assms by (intro first_addr46_leaks) simp_all
  then have "wp (first_addr46 use_connect46 (pre @ ai # post)) (on_val
      (\<lambda>found. wp (seq (say (SysFree ''addrinfo'')) (ret (case found of Some fd \<Rightarrow> fd | None \<Rightarrow> - 1)))
        (\<lambda>r w'. r = Val fd \<and> script w' = rest \<and> fds (trace w') = add_mset fd (mset lost + fds (trace w))))
      (\<lambda>r w'. r = Val fd \<and> script w' = rest \<and> fds (trace w') = add_mset fd (mset lost + fds (trace w)))) ?w"
    by (rule wp_conseq) auto
  then show ?thesis
    using assms(4) by (simp add: tcp_easy_connect46_def by_addrinfo_def)
qed

definition ai46 :: "nat \<Rightarrow> addrinfo" where
  "ai46 k = no_hints\<lparr>ai_family := AF_INET, ai_addr := SaIn 7 [127, 0, 0, of_nat k]\<rparr>"

theorem lab4_connect_leaks_witness:
  "wp (tcp_easy_connect46 ''h'' ''80'') (\<lambda>r w'. r = Val 5 \<and> script w' = [] \<and>
     fds (trace w') = add_mset 5 (mset [3, 4] + fds (trace (start
       ((ok 0)\<lparr>r_ais := [ai46 1, ai46 2] @ ai46 3 # []\<rparr> # failed_tries [3, 4] 61 @ [ok 5, ok 0] @ [])))))
   (start ((ok 0)\<lparr>r_ais := [ai46 1, ai46 2] @ ai46 3 # []\<rparr> # failed_tries [3, 4] 61 @ [ok 5, ok 0] @ []))"
  by (rule lab4_connect_leaks [where pre = "[ai46 1, ai46 2]" and ai = "ai46 3" and post = "[]" and e = 61])
    (simp_all add: start_def)

text \<open>Asked for \<open>k\<close> times 32768 bytes, \<open>send_data_to\<close> sends the buffer \<open>k - 1\<close> times (once if
  \<open>k\<close> is 1), and returns 0 as if all was sent: the last 32768 bytes are not.\<close>

theorem send_data_short:
  assumes "1 \<le> k" "k < 2 ^ 49" "script w = ok 1 # replicate (max 1 (k - 1)) chunk @ rest"
  shows "wp (send_data_to fd (of_nat (k * 32768))) (\<lambda>r w'.
    r = Val 0 \<and> script w' = rest \<and>
    trace w' = trace w @ (SysOther ''malloc'' [32768] [], ok 1) # sent fd (max 1 (k - 1))) w"
proof -
  let ?w = "logged (SysOther ''malloc'' [32768] []) (ok 1) w"
  have "unat (of_nat (k * 32768) :: 64 word) = k * 32768"
    using assms(2) by (subst unat_of_nat) simp
  then have "wp (loop (send_body fd) (of_nat (k * 32768))) (\<lambda>r w'.
      r = Val 0 \<and> script w' = rest \<and> trace w' = trace ?w @ sent fd (max 1 (k - 1))) ?w"
    using assms(1,3) by (intro send_chunks) simp_all
  then show ?thesis
    using assms(3) by (simp add: send_data_to_def malloc_checked_def option_writeamt_def)
qed

theorem send_data_short_witness:
  "wp (send_data_to 3 (of_nat (3 * 32768))) (\<lambda>r w'.
    r = Val 0 \<and> script w' = [] \<and>
    trace w' = trace (start (ok 1 # replicate (max 1 (3 - 1)) chunk @ [])) @
      (SysOther ''malloc'' [32768] [], ok 1) # sent 3 (max 1 (3 - 1)))
    (start (ok 1 # replicate (max 1 (3 - 1)) chunk @ []))"
  by (rule send_data_short) (simp_all add: start_def)

text \<open>Asked for less than 32768 bytes, \<open>send_data_to\<close> subtracts more than is left and the
  amount wraps: it goes on sending full buffers, more than \<open>2 ^ 48\<close> of them.\<close>

theorem send_data_wraps:
  assumes "unat amount < 32768" "n < 2 ^ 48" "script w = ok 1 # replicate (Suc n) chunk"
  shows "wp (send_data_to fd amount) (\<lambda>r w'.
    r = Blocked \<and> script w' = [] \<and>
    trace w' = trace w @ (SysOther ''malloc'' [32768] [], ok 1) # sent fd (Suc n)) w"
proof -
  let ?w = "logged (SysOther ''malloc'' [32768] []) (ok 1) w"
  have "wp (loop (send_body fd) amount) (\<lambda>r w'.
      r = Blocked \<and> script w' = [] \<and> trace w' = trace ?w @ sent fd (Suc n)) ?w"
    using assms by (intro send_small) simp_all
  then show ?thesis
    using assms(3) by (simp add: send_data_to_def malloc_checked_def option_writeamt_def)
qed

theorem send_data_wraps_witness:
  "wp (send_data_to 3 0) (\<lambda>r w'. r = Blocked \<and> script w' = [] \<and>
     trace w' = trace (start (ok 1 # replicate (Suc 9) chunk)) @ (SysOther ''malloc'' [32768] [], ok 1) # sent 3 (Suc 9))
   (start (ok 1 # replicate (Suc 9) chunk))"
  by (rule send_data_wraps) (simp_all add: start_def)

end
