(* ===== verification/Gai.thy ===== *)
theory Gai
  imports Connect
begin

text \<open>
  The library's own getaddrinfo and getnameinfo: src/Lab2017/libgai, for a system that has
  neither.

  The linked list of addrinfo structures is a list of \<open>ai_node\<close>s, each with the addresses of
  the blocks it owns.  Every allocation is a call that may fail and every \<open>free\<close> is recorded,
  so that the blocks a process holds are computed from its trace (\<open>blocks\<close>).  The resolver and
  the table of services are calls of the system.  Proved here: memory is released on every
  error but three leaks the code has; the process is never ended except for one family;
  a successful result is a nonempty list, which is the contract the callers of
  \<open>getaddrinfo\<close> in lib rely on; numeric names round-trip through both functions.
\<close>

unbundle bit_operations_syntax

subsection \<open>gai_hdr.h, addrinfo.h\<close>

definition AF_LOCAL :: int where "AF_LOCAL = AF_UNIX"
definition AI_CLONE :: int where "AI_CLONE = 4"

definition EAI_ADDRFAMILY :: int where "EAI_ADDRFAMILY = 1"
definition EAI_AGAIN :: int where "EAI_AGAIN = 2"
definition EAI_BADFLAGS :: int where "EAI_BADFLAGS = 3"
definition EAI_FAIL :: int where "EAI_FAIL = 4"
definition EAI_FAMILY :: int where "EAI_FAMILY = 5"
definition EAI_MEMORY :: int where "EAI_MEMORY = 6"
definition EAI_NODATA :: int where "EAI_NODATA = 7"
definition EAI_NONAME :: int where "EAI_NONAME = 8"
definition EAI_SERVICE :: int where "EAI_SERVICE = 9"
definition EAI_SOCKTYPE :: int where "EAI_SOCKTYPE = 10"
definition EAI_SYSTEM :: int where "EAI_SYSTEM = 11"

lemmas eai_defs = EAI_ADDRFAMILY_def EAI_AGAIN_def EAI_BADFLAGS_def EAI_FAIL_def EAI_FAMILY_def
  EAI_MEMORY_def EAI_NODATA_def EAI_NONAME_def EAI_SERVICE_def EAI_SOCKTYPE_def EAI_SYSTEM_def

definition NI_NOFQDN :: int where "NI_NOFQDN = 1"
definition NI_NUMERICHOST :: int where "NI_NUMERICHOST = 2"
definition NI_NAMEREQD :: int where "NI_NAMEREQD = 4"
definition NI_NUMERICSERV :: int where "NI_NUMERICSERV = 8"
definition NI_DGRAM :: int where "NI_DGRAM = 16"

text \<open>
  A node of the list.  \<open>ai_next\<close> is the position in the list; a pointer to a block that the
  node owns is the address of the block with its contents, \<open>None\<close> for \<open>NULL\<close>.
\<close>

record ai_node =
  an_ptr :: int \<comment> \<open>the address of the structure itself\<close>
  an_flags :: int
  an_family :: int
  an_socktype :: int
  an_protocol :: int
  an_addrlen :: nat
  an_addr :: "(int \<times> sockaddr) option"
  an_canon :: "(int \<times> string) option"

definition sizeof_addrinfo :: int where "sizeof_addrinfo = 32"
definition sizeof_sun_path :: nat where "sizeof_sun_path = 104"

definition calloc :: "int \<Rightarrow> int \<Rightarrow> int io" where
  "calloc n sz = call (SysOther ''calloc'' [n, sz] [])"

definition malloc :: "int \<Rightarrow> int io" where
  "malloc sz = call (SysOther ''malloc'' [sz] [])"

definition strdup :: "string \<Rightarrow> int io" where
  "strdup s = call (SysOther ''strdup'' [] [s])"

definition free :: "int \<Rightarrow> unit io" where
  "free p = say (SysOther ''free'' [p] [])"

subsection \<open>ga_echeck.c, ga_nsearch.c\<close>

definition starts_with :: "(char \<Rightarrow> bool) \<Rightarrow> string \<Rightarrow> bool" where
  "starts_with P s = (case s of c # _ \<Rightarrow> P c | [] \<Rightarrow> False)"

definition empty_name :: "string option \<Rightarrow> bool" where
  \<comment> \<open>\<open>name == NULL || name[0] == 0\<close>\<close>
  "empty_name name \<longleftrightarrow> name = None \<or> name = Some []"

definition ga_echeck :: "string option \<Rightarrow> string option \<Rightarrow> int \<Rightarrow> int \<Rightarrow> int \<Rightarrow> int \<Rightarrow> int" where
  "ga_echeck hostname servname flags family socktype protocol =
     (if flags AND NOT (AI_PASSIVE OR AI_CANONNAME) \<noteq> 0 then EAI_BADFLAGS
      else if empty_name hostname \<and> empty_name servname then EAI_NONAME
      else if family = AF_UNSPEC then 0
      else if family = AF_INET \<or> family = AF_INET6 then
        (if socktype \<noteq> 0 \<and> socktype \<noteq> SOCK_STREAM \<and> socktype \<noteq> SOCK_DGRAM \<and> socktype \<noteq> SOCK_RAW
         then EAI_SOCKTYPE else 0)
      else if family = AF_LOCAL then
        (if socktype \<noteq> 0 \<and> socktype \<noteq> SOCK_STREAM \<and> socktype \<noteq> SOCK_DGRAM
         then EAI_SOCKTYPE else 0)
      else EAI_FAMILY)"

text \<open>The entries of \<open>search[]\<close> for a family, given the names to use for IPv6 and IPv4.\<close>

definition search_for :: "int \<Rightarrow> string \<Rightarrow> string \<Rightarrow> (string \<times> int) list" where
  "search_for family name6 name4 =
     (if family = AF_INET then [(name4, AF_INET)]
      else if family = AF_INET6 then [(name6, AF_INET6)]
      else if family = AF_UNSPEC then [(name6, AF_INET6), (name4, AF_INET)]
      else [])"

definition ga_nsearch :: "string option \<Rightarrow> addrinfo \<Rightarrow> (string \<times> int) list io" where
  \<comment> \<open>the array \<open>search\<close>; its length is the value returned\<close>
  "ga_nsearch hostname hints =
     (let search =
        (case hostname of
           Some (c # cs) \<Rightarrow> search_for (ai_family hints) (c # cs) (c # cs)
         | _ \<Rightarrow>
             if ai_flags hints AND AI_PASSIVE \<noteq> 0 then search_for (ai_family hints) ''0::0'' ''0.0.0.0''
             else search_for (ai_family hints) ''0::1'' ''localhost'')
      in if length search < 1 \<or> 2 < length search
         then err_quit (''nsearch = '' @ dec (length search))
         else ret search)"

subsection \<open>ga_aistruct.c, ga_clone.c, freeaddrinfo.c\<close>

text \<open>
  \<open>ga_aistruct\<close> appends a structure to the list, through \<open>*paipnext\<close>.  \<open>addr\<close> is an Internet
  address; the \<open>AF_LOCAL\<close> case, whose \<open>addr\<close> is a path, is \<open>ga_aistruct_un\<close>.  The new structure
  stays on the list when the allocation of its socket address fails.
\<close>

definition new_node :: "int \<Rightarrow> addrinfo \<Rightarrow> int \<Rightarrow> ai_node" where
  "new_node p hints family =
     \<lparr>an_ptr = p, an_flags = (if ai_socktype hints = 0 then AI_CLONE else 0), an_family = family,
      an_socktype = ai_socktype hints, an_protocol = ai_protocol hints, an_addrlen = 0,
      an_addr = None, an_canon = None\<rparr>"

definition ga_aistruct :: "addrinfo \<Rightarrow> 8 word list \<Rightarrow> int \<Rightarrow> ai_node list \<Rightarrow> (ai_node list \<times> int) io" where
  "ga_aistruct hints addr family ais =
     bind (calloc 1 sizeof_addrinfo) (\<lambda>p.
     if p = 0 then ret (ais, EAI_MEMORY)
     else let ai = new_node p hints family in
       if family = AF_INET then
         bind (calloc 1 16) (\<lambda>q.
         if q = 0 then ret (ais @ [ai], EAI_MEMORY)
         else seq (guard (4 \<le> length addr))
           (ret (ais @ [ai\<lparr>an_addr := Some (q, SaIn 0 (take 4 addr)), an_addrlen := 16\<rparr>], 0)))
       else if family = AF_INET6 then
         bind (calloc 1 28) (\<lambda>q.
         if q = 0 then ret (ais @ [ai], EAI_MEMORY)
         else seq (guard (16 \<le> length addr))
           (ret (ais @ [ai\<lparr>an_addr := Some (q, SaIn6 0 (take 16 addr) 0), an_addrlen := 28\<rparr>], 0)))
       else ret (ais @ [ai], 0))"

definition ga_aistruct_un :: "addrinfo \<Rightarrow> string \<Rightarrow> ai_node list \<Rightarrow> (ai_node list \<times> int) io" where
  "ga_aistruct_un hints path ais =
     bind (calloc 1 sizeof_addrinfo) (\<lambda>p.
     if p = 0 then ret (ais, EAI_MEMORY)
     else let ai = new_node p hints AF_LOCAL in
       if sizeof_sun_path \<le> length path then ret (ais @ [ai], EAI_SERVICE)
       else bind (calloc 1 106) (\<lambda>q.
         if q = 0 then ret (ais @ [ai], EAI_MEMORY)
         else seq (only_if (ai_flags hints AND AI_PASSIVE \<noteq> 0)
               (say (SysOther ''unlink'' [] [path]))) \<comment> \<open>OK if this fails\<close>
           (ret (ais @ [ai\<lparr>an_addr := Some (q, SaUn path), an_addrlen := 106\<rparr>], 0))))"

text \<open>
  \<open>ga_clone\<close>: the node inserted after \<open>ai\<close>, if any, and whether the function returns it and
  not \<open>NULL\<close>.
\<close>

definition ga_clone :: "ai_node \<Rightarrow> (ai_node option \<times> bool) io" where
  "ga_clone ai =
     bind (calloc 1 sizeof_addrinfo) (\<lambda>p.
     if p = 0 then ret (None, False)
     else let new = \<lparr>an_ptr = p, an_flags = 0, an_family = an_family ai, an_socktype = an_socktype ai,
                     an_protocol = an_protocol ai, an_addrlen = an_addrlen ai, an_addr = None,
                     an_canon = None\<rparr> in
       bind (malloc (int (an_addrlen ai))) (\<lambda>q.
       if q = 0 then ret (Some new, False)
       else (case an_addr ai of
           None \<Rightarrow> undef
         | Some (_, sa) \<Rightarrow> ret (Some (new\<lparr>an_addr := Some (q, sa)\<rparr>), True))))"

definition free_opt :: "(int \<times> 'a) option \<Rightarrow> unit io" where
  "free_opt b = (case b of None \<Rightarrow> ret () | Some (p, _) \<Rightarrow> free p)"

fun freeaddrinfo :: "ai_node list \<Rightarrow> unit io" where
  "freeaddrinfo [] = ret ()"
| "freeaddrinfo (ai # ais) =
     seq (free_opt (an_addr ai))
    (seq (free_opt (an_canon ai))
    (seq (free (an_ptr ai)) (freeaddrinfo ais)))"

subsection \<open>ga_port.c, ga_serv.c\<close>

definition set_ai_port :: "ai_node \<Rightarrow> int \<Rightarrow> int \<Rightarrow> (ai_node \<times> int) io" where
  \<comment> \<open>lines 47 to 62: the entry, and what is added to \<open>nfound\<close>\<close>
  "set_ai_port ai port socktype =
     (let ai = ai\<lparr>an_socktype := socktype\<rparr> in
      if an_family ai = AF_INET then
        (case an_addr ai of
           Some (q, SaIn _ a) \<Rightarrow> ret (ai\<lparr>an_addr := Some (q, SaIn (of_int port) a)\<rparr>, 1)
         | _ \<Rightarrow> undef)
      else if an_family ai = AF_INET6 then
        (case an_addr ai of
           Some (q, SaIn6 _ a s) \<Rightarrow> ret (ai\<lparr>an_addr := Some (q, SaIn6 (of_int port) a s)\<rparr>, 1)
         | _ \<Rightarrow> undef)
      else ret (ai, 0))"

fun ga_port :: "ai_node list \<Rightarrow> int \<Rightarrow> int \<Rightarrow> (ai_node list \<times> int) io" where
  \<comment> \<open>the list and \<open>nfound\<close>, -1 when there is no memory\<close>
  "ga_port [] port socktype = ret ([], 0)"
| "ga_port (ai # ais) port socktype =
     (if an_flags ai AND AI_CLONE \<noteq> 0 then
        (if an_socktype ai \<noteq> 0 then
           bind (ga_clone ai) (\<lambda>(new, returned).
             case new of
               None \<Rightarrow> ret (ai # ais, - 1)
             | Some n \<Rightarrow>
                 if \<not> returned then ret (ai # n # ais, - 1)
                 else bind (set_ai_port n port socktype) (\<lambda>(n, k).
                   bind (ga_port ais port socktype) (\<lambda>(ais, nfound).
                   ret (ai # n # ais, if nfound < 0 then - 1 else k + nfound))))
         else bind (set_ai_port ai port socktype) (\<lambda>(ai, k).
           bind (ga_port ais port socktype) (\<lambda>(ais, nfound).
           ret (ai # ais, if nfound < 0 then - 1 else k + nfound))))
      else if an_socktype ai \<noteq> socktype then
        bind (ga_port ais port socktype) (\<lambda>(ais, nfound). ret (ai # ais, nfound))
      else bind (set_ai_port ai port socktype) (\<lambda>(ai, k).
        bind (ga_port ais port socktype) (\<lambda>(ais, nfound).
        ret (ai # ais, if nfound < 0 then - 1 else k + nfound))))"

text \<open>
  A step of \<open>ga_serv\<close>: \<open>ga_port\<close> and \<open>nfound += rc\<close>; \<open>Inr\<close> is the return of \<open>EAI_MEMORY\<close>.
  \<open>by_name\<close> is the step for a protocol of the table of services.
\<close>

definition add_ports :: "int \<Rightarrow> int \<Rightarrow> ai_node list \<times> int \<Rightarrow> ((ai_node list \<times> int) + ai_node list) io" where
  "add_ports port socktype = (\<lambda>(ais, nfound).
     bind (ga_port ais port socktype) (\<lambda>(ais, rc).
     if rc < 0 then stop ais else again (ais, nfound + rc)))"

definition by_name :: "string \<Rightarrow> addrinfo \<Rightarrow> int \<times> string \<Rightarrow> ai_node list \<times> int
    \<Rightarrow> ((ai_node list \<times> int) + ai_node list) io" where
  "by_name serv hints = (\<lambda>(socktype, proto) st.
     if ai_socktype hints = 0 \<or> ai_socktype hints = socktype then
       bind (sys (SysOther ''getservbyname'' [] [serv, proto])) (\<lambda>sptr.
       if r_val sptr \<noteq> 0 then add_ports (r_num sptr) socktype st else again st)
     else again st)"

definition ga_serv :: "ai_node list \<Rightarrow> addrinfo \<Rightarrow> string \<Rightarrow> (ai_node list \<times> int) io" where
  "ga_serv ais hints serv =
     bind
       (if starts_with isdigit serv then
          for_each (if ai_socktype hints \<noteq> 0 then [ai_socktype hints] else [SOCK_STREAM, SOCK_DGRAM])
            (add_ports (uint (htons (of_int (atoi serv))))) (ais, 0)
        else
          for_each [(SOCK_STREAM, ''tcp''), (SOCK_DGRAM, ''udp'')] (by_name serv hints) (ais, 0))
     (\<lambda>v. case v of
        Inr ais \<Rightarrow> ret (ais, EAI_MEMORY)
      | Inl (ais, nfound) \<Rightarrow>
          ret (ais, if nfound = 0 then (if ai_socktype hints = 0 then EAI_NONAME else EAI_SERVICE)
                    else 0))"

subsection \<open>ga_unix.c\<close>

text \<open>The value returned, and \<open>*result\<close> when it is set.\<close>

definition ga_unix_canon :: "addrinfo \<Rightarrow> ai_node list \<Rightarrow> (int \<times> ai_node list option) io" where
  \<comment> \<open>lines 29 to 39\<close>
  "ga_unix_canon hints ais =
     (if ai_flags hints AND AI_CANONNAME \<noteq> 0 then
        bind (sys (SysOther ''uname'' [] [])) (\<lambda>myname.
        if r_val myname < 0 then ret (EAI_SYSTEM, None)
        else bind (strdup (r_data myname)) (\<lambda>q.
          if q = 0 then ret (EAI_MEMORY, None)
          else (case ais of
              [] \<Rightarrow> undef
            | ai # rest \<Rightarrow> ret (0, Some (ai\<lparr>an_canon := Some (q, r_data myname)\<rparr> # rest)))))
      else ret (0, Some ais))"

definition ga_unix :: "string \<Rightarrow> addrinfo \<Rightarrow> (int \<times> ai_node list option) io" where
  "ga_unix path hints =
     (if ai_family hints \<noteq> AF_UNSPEC \<and> ai_family hints \<noteq> AF_LOCAL then ret (EAI_ADDRFAMILY, None)
      else if ai_socktype hints = 0 then
        \<comment> \<open>no socket type specified: return stream then dgram\<close>
        bind (ga_aistruct_un (hints\<lparr>ai_socktype := SOCK_STREAM\<rparr>) path []) (\<lambda>(ais, rc).
        if rc \<noteq> 0 then ret (rc, None)
        else bind (ga_aistruct_un (hints\<lparr>ai_socktype := SOCK_DGRAM\<rparr>) path ais) (\<lambda>(ais, rc).
          if rc \<noteq> 0 then ret (rc, None) else ga_unix_canon hints ais))
      else
        bind (ga_aistruct_un hints path []) (\<lambda>(ais, rc).
        if rc \<noteq> 0 then ret (rc, None) else ga_unix_canon hints ais))"

subsection \<open>getaddrinfo.c\<close>

text \<open>The two tests for a numeric address; what follows them is the same for both families.\<close>

definition numeric_host :: "string \<Rightarrow> (int \<times> 8 word list) option" where
  "numeric_host host =
     (case (if starts_with isdigit host then inet_pton AF_INET host else Inr None) of
        Inr (Some a) \<Rightarrow> Some (AF_INET, a)
      | _ \<Rightarrow>
        (case (if starts_with (\<lambda>c. isxdigit c \<or> c = CHR '':'') host \<and> CHR '':'' \<in> set host
               then inet_pton AF_INET6 host else Inr None) of
           Inr (Some a) \<Rightarrow> Some (AF_INET6, a)
         | _ \<Rightarrow> None))"

definition RES_INIT :: int where "RES_INIT = 1"

definition use_inet6 :: "bool \<Rightarrow> unit io" where
  \<comment> \<open>the bit \<open>RES_USE_INET6\<close> of \<open>_res.options\<close>\<close>
  "use_inet6 b = say (SysOther ''RES_USE_INET6'' [if b then 1 else 0] [])"

definition look_up :: "nat \<Rightarrow> string \<Rightarrow> int \<Rightarrow> sysret io" where
  "look_up nsearch host family =
     bind (call (SysOther ''_res.options'' [] [])) (\<lambda>options.
     seq (only_if (options AND RES_INIT = 0) (seq (call (SysOther ''res_init'' [] [])) (ret ())))
     (if nsearch = 2 then seq (use_inet6 False) (sys (SysGethostbyname host (Some family)))
      else seq (use_inet6 (family = AF_INET6)) (sys (SysGethostbyname host None))))"

definition h_error :: "int \<Rightarrow> int" where
  "h_error h_errno =
     (if h_errno = 1 then EAI_NONAME \<comment> \<open>\<open>HOST_NOT_FOUND\<close>\<close>
      else if h_errno = 2 then EAI_AGAIN \<comment> \<open>\<open>TRY_AGAIN\<close>\<close>
      else if h_errno = 3 then EAI_FAIL \<comment> \<open>\<open>NO_RECOVERY\<close>\<close>
      else if h_errno = 4 then EAI_NODATA \<comment> \<open>\<open>NO_DATA\<close>\<close>
      else EAI_NONAME)"

fun add_addrs :: "addrinfo \<Rightarrow> int \<Rightarrow> 8 word list list \<Rightarrow> ai_node list \<Rightarrow> (ai_node list \<times> int) io" where
  "add_addrs hints family [] ais = ret (ais, 0)"
| "add_addrs hints family (a # as) ais =
     bind (ga_aistruct hints a family ais) (\<lambda>(ais, rc).
     if rc \<noteq> 0 then ret (ais, rc) else add_addrs hints family as ais)"

definition wants_canon :: "string option \<Rightarrow> addrinfo \<Rightarrow> bool" where
  "wants_canon hostname hints \<longleftrightarrow> \<not> empty_name hostname \<and> ai_flags hints AND AI_CANONNAME \<noteq> 0"

text \<open>
  An iteration over \<open>search[]\<close>.  The state is the list and \<open>canon\<close>; \<open>error(e)\<close> stops with the
  list to free and \<open>e\<close>.
\<close>

definition search_body :: "nat \<Rightarrow> string option \<Rightarrow> addrinfo \<Rightarrow> string \<times> int
    \<Rightarrow> ai_node list \<times> (int \<times> string) option
    \<Rightarrow> ((ai_node list \<times> (int \<times> string) option) + (ai_node list \<times> int)) io" where
  "search_body nsearch hostname hints = (\<lambda>(host, family) (ais, canon).
     case numeric_host host of
       Some (fam, addr) \<Rightarrow>
         if ai_family hints \<noteq> AF_UNSPEC \<and> ai_family hints \<noteq> fam then stop (ais, EAI_ADDRFAMILY)
         else if family \<noteq> fam then again (ais, canon) \<comment> \<open>ignore\<close>
         else bind (ga_aistruct hints addr fam ais) (\<lambda>(ais, rc).
           if rc \<noteq> 0 then stop (ais, rc) else again (ais, canon))
     | None \<Rightarrow>
         bind (look_up nsearch host family) (\<lambda>hptr.
         if r_val hptr = 0 then
           (if nsearch = 2 then again (ais, canon) \<comment> \<open>failure OK if multiple searches\<close>
            else stop (ais, h_error (r_err hptr)))
         else if ai_family hints \<noteq> AF_UNSPEC \<and> ai_family hints \<noteq> r_num hptr then
           stop (ais, EAI_ADDRFAMILY)
         else if wants_canon hostname hints \<and> canon = None then
           bind (strdup (r_data hptr)) (\<lambda>q.
           if q = 0 then stop (ais, EAI_MEMORY)
           else bind (add_addrs hints (r_num hptr) (r_addrs hptr) ais) (\<lambda>(ais, rc).
             if rc \<noteq> 0 then stop (ais, rc) else again (ais, Some (q, r_data hptr))))
         else bind (add_addrs hints (r_num hptr) (r_addrs hptr) ais) (\<lambda>(ais, rc).
           if rc \<noteq> 0 then stop (ais, rc) else again (ais, canon))))"

definition bad :: "ai_node list \<Rightarrow> int \<Rightarrow> (int \<times> ai_node list option) io" where
  "bad ais e = seq (freeaddrinfo ais) (ret (e, None))"

definition finish_serv :: "string option \<Rightarrow> addrinfo \<Rightarrow> ai_node list \<Rightarrow> (int \<times> ai_node list option) io" where
  \<comment> \<open>the end of the function, from the service name on\<close>
  "finish_serv servname hints ais =
     (case servname of
        Some (c # cs) \<Rightarrow>
          bind (ga_serv ais hints (c # cs)) (\<lambda>(ais, rc). if rc \<noteq> 0 then bad ais rc else ret (0, Some ais))
      | _ \<Rightarrow> ret (0, Some ais))"

definition finish :: "string option \<Rightarrow> string option \<Rightarrow> addrinfo \<Rightarrow> (string \<times> int) list
    \<Rightarrow> ai_node list \<Rightarrow> (int \<times> string) option \<Rightarrow> (int \<times> ai_node list option) io" where
  \<comment> \<open>after the loop\<close>
  "finish hostname servname hints search ais canon =
     (case ais of
        [] \<Rightarrow> bad [] EAI_NONAME \<comment> \<open>nothing found\<close>
      | aihead # rest \<Rightarrow>
          if wants_canon hostname hints then
            (case canon of
               Some c \<Rightarrow> finish_serv servname hints (aihead\<lparr>an_canon := Some c\<rparr> # rest)
             | None \<Rightarrow> bind (strdup (fst (search ! 0))) (\<lambda>q.
                 if q = 0 then bad ais EAI_MEMORY
                 else finish_serv servname hints
                   (aihead\<lparr>an_canon := Some (q, fst (search ! 0))\<rparr> # rest)))
          else finish_serv servname hints ais)"

definition is_unix :: "string option \<Rightarrow> string option \<Rightarrow> bool" where
  "is_unix hostname servname \<longleftrightarrow> (hostname = Some ''/local'' \<or> hostname = Some ''/unix'') \<and>
     (case servname of Some s \<Rightarrow> starts_with (\<lambda>c. c = CHR ''/'') s | None \<Rightarrow> False)"

definition getaddrinfo :: "string option \<Rightarrow> string option \<Rightarrow> addrinfo option
    \<Rightarrow> (int \<times> ai_node list option) io" where
  "getaddrinfo hostname servname hintsp =
     (let hints = (case hintsp of None \<Rightarrow> no_hints | Some h \<Rightarrow> h);
          rc = ga_echeck hostname servname (ai_flags hints) (ai_family hints) (ai_socktype hints)
                 (ai_protocol hints)
      in if rc \<noteq> 0 then bad [] rc
         else if is_unix hostname servname then ga_unix (the servname) hints
         else bind (ga_nsearch hostname hints) (\<lambda>search.
           bind (for_each search (search_body (length search) hostname hints) ([], None)) (\<lambda>v.
             case v of
               Inr (ais, e) \<Rightarrow> bad ais e
             | Inl (ais, canon) \<Rightarrow> finish hostname servname hints search ais canon)))"

subsection \<open>gn_ipv46.c, getnameinfo.c\<close>

text \<open>
  \<open>snprintf(buf, len, "%s", s)\<close>, with \<open>0 < len\<close>, stores \<open>take (len - 1) s\<close>.  A buffer that is
  not written is \<open>None\<close>.  \<open>h_name\<close> is \<open>NULL\<close> when \<open>r_num\<close> of the answer is 0.
\<close>

definition gn_numeric :: "int \<Rightarrow> 8 word list \<Rightarrow> nat \<Rightarrow> string option option" where
  \<comment> \<open>\<open>None\<close>: \<open>return(1)\<close>\<close>
  "gn_numeric family aptr hostlen =
     (case inet_ntop family aptr hostlen of Inl e \<Rightarrow> None | Inr s \<Rightarrow> Some (Some s))"

definition gn_host :: "nat \<Rightarrow> 8 word list \<Rightarrow> int \<Rightarrow> int \<Rightarrow> string option option io" where
  "gn_host hostlen aptr family flags =
     (if hostlen = 0 then ret (Some None)
      else if flags AND NI_NUMERICHOST \<noteq> 0 then ret (gn_numeric family aptr hostlen)
      else bind (sys (SysOther ''gethostbyaddr'' (family # map uint aptr) [])) (\<lambda>hptr.
        if r_val hptr \<noteq> 0 \<and> r_num hptr \<noteq> 0 then
          ret (Some (Some (take (hostlen - 1)
            (if flags AND NI_NOFQDN \<noteq> 0 then takeWhile (\<lambda>c. c \<noteq> CHR ''.'') (r_data hptr)
             else r_data hptr))))
        else if flags AND NI_NAMEREQD \<noteq> 0 then ret None
        else ret (gn_numeric family aptr hostlen)))"

definition gn_serv :: "nat \<Rightarrow> 16 word \<Rightarrow> int \<Rightarrow> string option io" where
  "gn_serv servlen port flags =
     (if servlen = 0 then ret None
      else if flags AND NI_NUMERICSERV \<noteq> 0 then ret (Some (take (servlen - 1) (dec (unat (ntohs port)))))
      else bind (sys (SysOther ''getservbyport'' [uint port]
          (if flags AND NI_DGRAM \<noteq> 0 then [''udp''] else []))) (\<lambda>sptr.
        ret (Some (take (servlen - 1)
          (if r_val sptr \<noteq> 0 \<and> r_num sptr \<noteq> 0 then r_data sptr else dec (unat (ntohs port)))))))"

definition gn_ipv46 :: "nat \<Rightarrow> nat \<Rightarrow> 8 word list \<Rightarrow> int \<Rightarrow> 16 word \<Rightarrow> int
    \<Rightarrow> (int \<times> string option \<times> string option) io" where
  \<comment> \<open>the value returned, and what is stored in \<open>host\<close> and \<open>serv\<close>\<close>
  "gn_ipv46 hostlen servlen aptr family port flags =
     bind (gn_host hostlen aptr family flags) (\<lambda>host.
     case host of
       None \<Rightarrow> ret (1, None, None)
     | Some host \<Rightarrow> bind (gn_serv servlen port flags) (\<lambda>serv. ret (0, host, serv)))"

fun getnameinfo :: "sockaddr \<Rightarrow> nat \<Rightarrow> nat \<Rightarrow> int \<Rightarrow> (int \<times> string option \<times> string option) io" where
  "getnameinfo (SaIn port addr) hostlen servlen flags = gn_ipv46 hostlen servlen addr AF_INET port flags"
| "getnameinfo (SaIn6 port addr _) hostlen servlen flags = gn_ipv46 hostlen servlen addr AF_INET6 port flags"
| "getnameinfo (SaUn path) hostlen servlen flags =
     ret (0, if 0 < hostlen then Some (take (hostlen - 1) ''/local'') else None,
          if 0 < servlen then Some (take (servlen - 1) path) else None)"
| "getnameinfo _ hostlen servlen flags = ret (1, None, None)"

subsection \<open>The blocks a process holds\<close>

definition mem_step :: "int multiset \<Rightarrow> syscall \<times> sysret \<Rightarrow> int multiset" where
  "mem_step m e =
     (case e of
        (SysOther nm is _, r) \<Rightarrow>
          if nm = ''calloc'' \<or> nm = ''malloc'' \<or> nm = ''strdup'' then
            (if r_val r \<noteq> 0 then add_mset (r_val r) m else m)
          else if nm = ''free'' then m - {#hd is#}
          else m
      | _ \<Rightarrow> m)"

definition blocks :: "world \<Rightarrow> int multiset" where
  "blocks w = foldl mem_step {#} (trace w)"

lemma mem_step_simps [simp]:
  "mem_step m (SysOther ''calloc'' is ss, r) = (if r_val r \<noteq> 0 then add_mset (r_val r) m else m)"
  "mem_step m (SysOther ''malloc'' is ss, r) = (if r_val r \<noteq> 0 then add_mset (r_val r) m else m)"
  "mem_step m (SysOther ''strdup'' is ss, r) = (if r_val r \<noteq> 0 then add_mset (r_val r) m else m)"
  "mem_step m (SysOther ''free'' [p] ss, r) = m - {#p#}"
  "mem_step m (SysOther ''unlink'' is ss, r) = m"
  "mem_step m (SysOther ''uname'' is ss, r) = m"
  "mem_step m (SysOther ''getservbyname'' is ss, r) = m"
  "mem_step m (SysOther ''_res.options'' is ss, r) = m"
  "mem_step m (SysOther ''res_init'' is ss, r) = m"
  "mem_step m (SysOther ''RES_USE_INET6'' is ss, r) = m"
  "mem_step m (SysGethostbyname h f, r) = m"
  by (simp_all add: mem_step_def)

lemma blocks_logged [simp]: "blocks (logged c r w) = mem_step (blocks w) (c, r)"
  and blocks_said [simp]: "blocks (said c w) = mem_step (blocks w) (c, ok 0)"
  by (simp_all add: blocks_def)

definition opt_block :: "(int \<times> 'a) option \<Rightarrow> int multiset" where
  "opt_block b = (case b of None \<Rightarrow> {#} | Some (p, _) \<Rightarrow> {#p#})"

lemma opt_block_simps [simp]: "opt_block None = {#}" "opt_block (Some (p, x)) = {#p#}"
  by (simp_all add: opt_block_def)

definition node_blocks :: "ai_node \<Rightarrow> int multiset" where
  "node_blocks ai = add_mset (an_ptr ai) (opt_block (an_addr ai) + opt_block (an_canon ai))"

definition ai_blocks :: "ai_node list \<Rightarrow> int multiset" where
  "ai_blocks ais = sum_list (map node_blocks ais)"

lemma ai_blocks_simps [simp]:
  "ai_blocks [] = {#}" "ai_blocks (ai # ais) = node_blocks ai + ai_blocks ais"
  "ai_blocks (xs @ ys) = ai_blocks xs + ai_blocks ys"
  by (simp_all add: ai_blocks_def)

text \<open>An Internet entry as \<open>ga_aistruct\<close> leaves it when it succeeds.\<close>

definition node_ok :: "ai_node \<Rightarrow> bool" where
  "node_ok ai \<longleftrightarrow>
     (case an_addr ai of
        Some (_, SaIn _ a) \<Rightarrow> an_family ai = AF_INET \<and> length a = 4 \<and> an_addrlen ai = 16
      | Some (_, SaIn6 _ a _) \<Rightarrow> an_family ai = AF_INET6 \<and> length a = 16 \<and> an_addrlen ai = 28
      | _ \<Rightarrow> False)"

definition new_ok :: "ai_node \<Rightarrow> bool" where
  "new_ok ai \<longleftrightarrow> node_ok ai \<and> an_canon ai = None"

definition inet_len :: "int \<Rightarrow> nat \<Rightarrow> bool" where
  "inet_len family n \<longleftrightarrow> family = AF_INET \<and> n = 4 \<or> family = AF_INET6 \<and> n = 16"

subsection \<open>Freeing\<close>

lemma wp_free [simp]: "wp (free p) Q w = Q (Val ()) (said (SysOther ''free'' [p] []) w)"
  by (simp add: free_def)

lemma wp_free_opt: "wp (free_opt b) (safe (\<lambda>_ w'. blocks w' = blocks w - opt_block b)) w"
  by (simp add: free_opt_def split: option.split)

lemma wp_freeaddrinfo: "wp (freeaddrinfo ais) (safe (\<lambda>_ w'. blocks w' = blocks w - ai_blocks ais)) w"
proof (induction ais arbitrary: w)
  case Nil
  then show ?case by simp
next
  case (Cons ai ais)
  show ?case
    unfolding freeaddrinfo.simps
    apply (rule safe_seq [OF wp_free_opt])
    apply (rule safe_seq [OF wp_free_opt])
    apply (simp only: wp_seq wp_free on_val_simps)
    apply (rule safe_conseq [OF Cons.IH])
    apply (simp add: node_blocks_def)
    done
qed

subsection \<open>Building the list\<close>

definition owned :: "int multiset \<Rightarrow> ai_node list \<Rightarrow> world \<Rightarrow> bool" where
  \<comment> \<open>the process holds the blocks \<open>M\<close> and those of the list\<close>
  "owned M ais w \<longleftrightarrow> blocks w = M + ai_blocks ais"

definition eai :: "int \<Rightarrow> bool" where
  \<comment> \<open>the error values of addrinfo.h\<close>
  "eai e \<longleftrightarrow> 1 \<le> e \<and> e \<le> 11"

lemma EAI_nonzero [simp]: "EAI_MEMORY \<noteq> 0" "EAI_SERVICE \<noteq> 0"
  by (simp_all add: EAI_MEMORY_def EAI_SERVICE_def)

lemma eai_simps [simp]:
  "eai EAI_ADDRFAMILY" "eai EAI_AGAIN" "eai EAI_BADFLAGS" "eai EAI_FAIL" "eai EAI_FAMILY"
  "eai EAI_MEMORY" "eai EAI_NODATA" "eai EAI_NONAME" "eai EAI_SERVICE" "eai EAI_SOCKTYPE"
  "eai EAI_SYSTEM" "\<not> eai 0"
  by (simp_all add: eai_def eai_defs)

definition built :: "(ai_node \<Rightarrow> bool) \<Rightarrow> int multiset \<Rightarrow> ai_node list \<times> int \<Rightarrow> world \<Rightarrow> bool" where
  \<comment> \<open>after a step that may fail: on success every entry is as it should be\<close>
  "built P M = (\<lambda>(ais, rc) w. owned M ais w \<and> (rc = 0 \<or> eai rc) \<and> (rc = 0 \<longrightarrow> list_all P ais))"

lemma new_node_simps [simp]:
  "an_ptr (new_node p hints f) = p" "an_family (new_node p hints f) = f"
  "an_addr (new_node p hints f) = None" "an_canon (new_node p hints f) = None"
  by (simp_all add: new_node_def)

lemma new_node_blocks [simp]: "node_blocks (new_node p hints f) = {#p#}"
  by (simp add: node_blocks_def)

lemma wp_calloc [simp]: "wp (calloc n sz) Q = wp (call (SysOther ''calloc'' [n, sz] [])) Q"
  and wp_malloc [simp]: "wp (malloc sz) Q = wp (call (SysOther ''malloc'' [sz] [])) Q"
  and wp_strdup [simp]: "wp (strdup s) Q = wp (call (SysOther ''strdup'' [] [s])) Q"
  by (simp_all add: calloc_def malloc_def strdup_def)

lemma wp_ga_aistruct:
  assumes "owned M ais w" "list_all new_ok ais" "inet_len family (length addr)"
  shows "wp (ga_aistruct hints addr family ais)
    (safe (\<lambda>(ais', rc) w'. built new_ok M (ais', rc) w' \<and> (rc = 0 \<longrightarrow> ais' \<noteq> []))) w"
  using assms
  by (auto simp: ga_aistruct_def Let_def built_def owned_def inet_len_def AF_INET_def AF_INET6_def
      node_blocks_def node_ok_def new_ok_def split: list.split)

lemma wp_add_addrs:
  assumes "owned M ais w" "list_all new_ok ais" "list_all (\<lambda>a. inet_len family (length a)) as"
  shows "wp (add_addrs hints family as ais) (safe (built new_ok M)) w"
  using assms
proof (induction as arbitrary: ais w)
  case Nil
  then show ?case by (simp add: built_def)
next
  case (Cons a as)
  show ?case
    unfolding add_addrs.simps
    by (rule safe_bind [OF wp_ga_aistruct]) (use Cons in \<open>auto simp: built_def\<close>)
qed

lemma fits_host_inet:
  "fits_host family r \<Longrightarrow> r_val r \<noteq> 0 \<Longrightarrow> list_all (\<lambda>a. inet_len (r_num r) (length a)) (r_addrs r)"
  by (auto simp: fits_host_def inet_len_def list_all_iff)

definition host_answer :: "int multiset \<Rightarrow> ai_node list \<Rightarrow> world \<Rightarrow> sysret \<Rightarrow> world \<Rightarrow> bool" where
  \<comment> \<open>an answer of the resolver, in the trace since \<open>w0\<close>\<close>
  "host_answer M ais w0 r w \<longleftrightarrow> owned M ais w \<and> grown w0 w \<and>
     (\<exists>host f. (SysGethostbyname host f, r) \<in> set (since w0 w)) \<and>
     (r_val r \<noteq> 0 \<longrightarrow> list_all (\<lambda>a. inet_len (r_num r) (length a)) (r_addrs r))"

lemma wp_gethostbyname:
  "owned M ais w \<and> grown w0 w \<Longrightarrow> wp (sys (SysGethostbyname host f)) (safe (host_answer M ais w0)) w"
  by (auto simp: host_answer_def owned_def fits_host_inet split: list.split)

lemma wp_look_up:
  assumes "owned M ais w" "grown w0 w"
  shows "wp (look_up nsearch host family) (safe (host_answer M ais w0)) w"
proof -
  let ?I = "\<lambda>w. owned M ais w \<and> grown w0 w"
  have opt: "wp (call (SysOther ''_res.options'' [] [])) (safe (\<lambda>_. ?I)) w"
    using assms by (simp add: owned_def split: list.split)
  have init: "wp (only_if b (seq (call (SysOther ''res_init'' [] [])) (ret ()))) (safe (\<lambda>_. ?I)) w"
    if "?I w" for b w
    using that by (simp add: owned_def split: list.split)
  have use: "wp (use_inet6 b) (safe (\<lambda>_. ?I)) w" if "?I w" for b w
    using that by (simp add: use_inet6_def owned_def)
  show ?thesis
    unfolding look_up_def wp_if
    by (rule safe_bind [OF opt], rule safe_seq [OF init], assumption)
      (auto simp del: wp_seq wp_sys intro: safe_seq [OF use] wp_gethostbyname)
qed

subsection \<open>Ports\<close>

lemma node_okE:
  assumes "node_ok ai"
  obtains (v4) q p a where "an_addr ai = Some (q, SaIn p a)" "length a = 4" "an_family ai = AF_INET"
      "an_addrlen ai = 16"
    | (v6) q p a s where "an_addr ai = Some (q, SaIn6 p a s)" "length a = 16" "an_family ai = AF_INET6"
      "an_addrlen ai = 28"
proof (cases "an_addr ai")
  case None
  with assms show ?thesis by (simp add: node_ok_def)
next
  case (Some b)
  obtain q sa where b: "b = (q, sa)" by (cases b)
  show ?thesis
    using assms Some b v4 v6 by (cases sa) (simp_all add: node_ok_def)
qed

text \<open>The entry that \<open>set_ai_port\<close> leaves.\<close>

definition with_port :: "int \<Rightarrow> int \<Rightarrow> ai_node \<Rightarrow> ai_node" where
  "with_port port socktype ai = ai\<lparr>an_socktype := socktype,
     an_addr := map_option (\<lambda>(q, sa). (q, sock_set_port sa port)) (an_addr ai)\<rparr>"

lemma set_ai_port_ok: "node_ok ai \<Longrightarrow> set_ai_port ai port socktype = ret (with_port port socktype ai, 1)"
  by (cases ai rule: ai_node.cases, elim node_okE)
    (simp_all add: set_ai_port_def with_port_def AF_INET_def AF_INET6_def)

lemma with_port_ok [simp]: "node_ok ai \<Longrightarrow> node_ok (with_port port socktype ai)"
  by (elim node_okE) (simp_all add: node_ok_def with_port_def)

lemma with_port_blocks [simp]: "node_blocks (with_port port socktype ai) = node_blocks ai"
  by (cases ai) (auto simp: node_blocks_def with_port_def opt_block_def split: option.splits)

lemma wp_ga_clone:
  assumes "node_ok ai"
  shows "wp (ga_clone ai) (safe (\<lambda>(new, returned) w'. case new of
      None \<Rightarrow> \<not> returned \<and> blocks w' = blocks w
    | Some n \<Rightarrow> blocks w' = blocks w + node_blocks n \<and>
        (if returned then node_ok n \<and> (\<exists>p q. n = ai\<lparr>an_ptr := p, an_flags := 0,
             an_addr := map_option (\<lambda>(_, sa). (q, sa)) (an_addr ai), an_canon := None\<rparr>)
         else True))) w"
  using assms
proof (cases rule: node_okE)
  case v4
  then show ?thesis
    by (cases ai) (auto simp: ga_clone_def Let_def node_blocks_def node_ok_def split: list.split)
next
  case v6
  then show ?thesis
    by (cases ai) (auto simp: ga_clone_def Let_def node_blocks_def node_ok_def split: list.split)
qed

text \<open>
  \<open>ga_port\<close> on lists, without the addresses of the blocks: an entry to clone that has a type
  already is followed by a copy with the new type, another entry to clone and an entry of this
  type get the port, the rest is left alone.
\<close>

definition strip :: "ai_node \<Rightarrow> ai_node" where
  "strip ai = ai\<lparr>an_ptr := 0, an_addr := map_option (\<lambda>(_, sa). (0, sa)) (an_addr ai),
     an_canon := map_option (\<lambda>(_, s). (0, s)) (an_canon ai)\<rparr>"

definition port_entry :: "int \<Rightarrow> int \<Rightarrow> ai_node \<Rightarrow> ai_node list" where
  "port_entry port socktype ai =
     (if an_flags ai AND AI_CLONE \<noteq> 0 then
        (if an_socktype ai \<noteq> 0 then [ai, with_port port socktype (ai\<lparr>an_flags := 0, an_canon := None\<rparr>)]
         else [with_port port socktype ai])
      else if an_socktype ai \<noteq> socktype then [ai]
      else [with_port port socktype ai])"

definition port_matches :: "int \<Rightarrow> ai_node \<Rightarrow> bool" where
  "port_matches socktype ai \<longleftrightarrow> an_flags ai AND AI_CLONE \<noteq> 0 \<or> an_socktype ai = socktype"

lemma strip_with_port: "strip (with_port port t ai) = with_port port t (strip ai)"
  by (cases ai) (simp add: strip_def with_port_def option.map_comp comp_def split_def)

definition ported :: "int multiset \<Rightarrow> int \<Rightarrow> int \<Rightarrow> ai_node list \<Rightarrow> ai_node list \<times> int \<Rightarrow> world \<Rightarrow> bool" where
  "ported M port socktype ais = (\<lambda>(ais', n) w. owned M ais' w \<and>
     (n < 0 \<or> list_all node_ok ais' \<and> n = int (length (filter (port_matches socktype) ais)) \<and>
        map strip ais' = map strip (concat (map (port_entry port socktype) ais))))"

lemma owned_Cons: "owned M (ai # ais) w \<longleftrightarrow> owned (M + node_blocks ai) ais w"
  by (simp add: owned_def ac_simps)

lemma wp_ga_port:
  "owned M ais w \<Longrightarrow> list_all node_ok ais \<Longrightarrow> wp (ga_port ais port t) (safe (ported M port t ais)) w"
proof (induction ais arbitrary: M w)
  case Nil
  then show ?case by (simp add: ported_def)
next
  case (Cons ai ais)
  have ok: "node_ok ai" "list_all node_ok ais" using Cons.prems(2) by simp_all
  have rest: "wp (ga_port ais port t) (safe (ported (M + B) port t ais)) w"
    if "blocks w = M + B + ai_blocks ais" for B w
    by (rule Cons.IH) (simp_all add: that owned_def ok)
  have own: "blocks w = M + node_blocks ai + ai_blocks ais"
    using Cons.prems(1) by (simp add: owned_def ac_simps)
  consider (clone) "an_flags ai AND AI_CLONE \<noteq> 0" "an_socktype ai \<noteq> 0"
    | (first) "an_flags ai AND AI_CLONE \<noteq> 0" "an_socktype ai = 0"
    | (skip) "an_flags ai AND AI_CLONE = 0" "an_socktype ai \<noteq> t"
    | (same) "an_flags ai AND AI_CLONE = 0" "an_socktype ai = t" by blast
  then show ?case
  proof cases
    case clone
    show ?thesis
    proof (simp only: ga_port.simps clone if_True not_False_eq_True, rule safe_bind [OF wp_ga_clone [OF ok(1)]], clarify)
      fix new returned w'
      assume c: "case new of None \<Rightarrow> \<not> returned \<and> blocks w' = blocks w
        | Some n \<Rightarrow> blocks w' = blocks w + node_blocks n \<and>
            (if returned then node_ok n \<and> (\<exists>p q. n = ai\<lparr>an_ptr := p, an_flags := 0,
               an_addr := map_option (\<lambda>(_, sa). (q, sa)) (an_addr ai), an_canon := None\<rparr>) else True)"
      show "wp (case new of None \<Rightarrow> ret (ai # ais, - 1)
          | Some n \<Rightarrow> if \<not> returned then ret (ai # n # ais, - 1)
              else bind (set_ai_port n port t) (\<lambda>(n, k).
                bind (ga_port ais port t) (\<lambda>(ais, nfound).
                ret (ai # n # ais, if nfound < 0 then - 1 else k + nfound))))
          (safe (ported M port t (ai # ais))) w'"
      proof (cases new)
        case None
        then show ?thesis using c own by (simp add: ported_def owned_def)
      next
        case (Some n)
        show ?thesis
        proof (cases returned)
          case False
          then show ?thesis using c own Some by (simp add: ported_def owned_def)
        next
          case True
          have n: "node_ok n" "blocks w' = M + (node_blocks ai + node_blocks n) + ai_blocks ais"
            and strip: "strip n = strip (ai\<lparr>an_flags := 0, an_canon := None\<rparr>)"
            using c own Some True by (auto simp: strip_def option.map_comp comp_def split_def ac_simps)
          show ?thesis
            unfolding Some option.case set_ai_port_ok [OF n(1)]
            using True strip clone ok n(1)
            by (simp del: wp_bind add: bind_ret)
              (rule safe_bind [OF rest [OF n(2)]],
                auto simp: ported_def owned_def port_entry_def port_matches_def strip_with_port ac_simps)
        qed
      qed
    qed
  next
    case skip
    then show ?thesis
      using ok
      by (simp del: wp_bind)
        (rule safe_bind [OF rest [OF own]],
          auto simp: ported_def owned_def port_entry_def port_matches_def ac_simps)
  next
    case first
    then show ?thesis
      using ok
      by (simp del: wp_bind add: set_ai_port_ok bind_ret)
        (rule safe_bind [OF rest [OF own]],
          auto simp: ported_def owned_def port_entry_def port_matches_def ac_simps)
  next
    case same
    then show ?thesis
      using ok
      by (simp del: wp_bind add: set_ai_port_ok bind_ret)
        (rule safe_bind [OF rest [OF own]],
          auto simp: ported_def owned_def port_entry_def port_matches_def ac_simps)
  qed
qed

subsection \<open>Services\<close>

definition serv_inv :: "int multiset \<Rightarrow> ai_node list \<times> int \<Rightarrow> world \<Rightarrow> bool" where
  "serv_inv M = (\<lambda>(ais, n) w. owned M ais w \<and> list_all node_ok ais \<and> ais \<noteq> [])"

lemma port_entry_nonempty [simp]: "port_entry port t ai \<noteq> []"
  by (simp add: port_entry_def)

lemma ported_nonempty: "ported M port t ais (ais', n) w \<Longrightarrow> \<not> n < 0 \<Longrightarrow> ais \<noteq> [] \<Longrightarrow> ais' \<noteq> []"
  by (cases ais) (auto simp: ported_def)

lemma wp_add_ports:
  assumes "serv_inv M st w"
  shows "wp (add_ports port t st)
    (safe (\<lambda>v. case v of Inl st \<Rightarrow> serv_inv M st | Inr ais \<Rightarrow> owned M ais)) w"
proof (cases st)
  case (Pair ais n)
  with assms have inv: "owned M ais w" "list_all node_ok ais" "ais \<noteq> []"
    by (simp_all add: serv_inv_def)
  show ?thesis
    unfolding add_ports_def Pair prod.case
    by (rule safe_bind [OF wp_ga_port [OF inv(1,2)]])
      (use inv(3) in \<open>auto simp: serv_inv_def ported_def dest: ported_nonempty\<close>)
qed

lemma wp_by_name:
  assumes "serv_inv M st w"
  shows "wp (by_name serv hints (t, proto) st)
    (safe (\<lambda>v. case v of Inl st \<Rightarrow> serv_inv M st | Inr ais \<Rightarrow> owned M ais)) w"
proof -
  have "wp (sys (SysOther ''getservbyname'' [] [serv, proto])) (safe (\<lambda>_. serv_inv M st)) w"
    using assms by (auto simp: serv_inv_def owned_def split: list.split)
  from safe_bind [OF this, where R = "\<lambda>v. case v of Inl st \<Rightarrow> serv_inv M st | Inr ais \<Rightarrow> owned M ais"
      and f = "\<lambda>sptr. if r_val sptr \<noteq> 0 then add_ports (r_num sptr) t st else again st"]
  show ?thesis
    using assms by (simp del: wp_bind add: by_name_def wp_add_ports)
qed

lemma wp_ga_serv:
  assumes "owned M ais w" "list_all node_ok ais" "ais \<noteq> []"
  shows "wp (ga_serv ais hints serv)
    (safe (\<lambda>(ais', rc) w'. built node_ok M (ais', rc) w' \<and> (rc = 0 \<longrightarrow> ais' \<noteq> []))) w"
  unfolding ga_serv_def
proof (rule safe_bind)
  let ?Q = "\<lambda>v. case v of Inl st \<Rightarrow> serv_inv M st | Inr ais \<Rightarrow> owned M ais"
  have inv: "serv_inv M (ais, 0) w" using assms by (simp add: serv_inv_def)
  show "wp (if starts_with isdigit serv
      then for_each (if ai_socktype hints \<noteq> 0 then [ai_socktype hints] else [SOCK_STREAM, SOCK_DGRAM])
        (add_ports (uint (htons (of_int (atoi serv))))) (ais, 0)
      else for_each [(SOCK_STREAM, ''tcp''), (SOCK_DGRAM, ''udp'')] (by_name serv hints) (ais, 0))
    (safe ?Q) w"
    by (auto simp del: for_each.simps
      intro!: safe_for_each [where I = "serv_inv M" and E = "owned M", OF inv] wp_add_ports wp_by_name)
  show "wp (case v of Inr ais \<Rightarrow> ret (ais, EAI_MEMORY)
      | Inl (ais, nfound) \<Rightarrow> ret (ais, if nfound = 0 then if ai_socktype hints = 0 then EAI_NONAME
          else EAI_SERVICE else 0))
    (safe (\<lambda>(ais', rc) w'. built node_ok M (ais', rc) w' \<and> (rc = 0 \<longrightarrow> ais' \<noteq> []))) w'"
    if "?Q v w'" for v w'
    using that by (auto simp: built_def serv_inv_def eai_defs eai_def split: sum.splits)
qed

subsection \<open>The search\<close>

text \<open>
  \<open>canon_copy w0 p w\<close>: since \<open>w0\<close>, \<open>strdup\<close> has answered \<open>p\<close> for the name in an answer of the
  resolver.  \<open>w0\<close> is the world in which \<open>getaddrinfo\<close> was called.
\<close>

definition canon_copy :: "world \<Rightarrow> int \<Rightarrow> world \<Rightarrow> bool" where
  "canon_copy w0 p w \<longleftrightarrow> (\<exists>host f hp r. (SysGethostbyname host f, hp) \<in> set (since w0 w) \<and>
     (SysOther ''strdup'' [] [r_data hp], r) \<in> set (since w0 w) \<and> r_val r = p)"

lemma canon_copy_mono: "canon_copy w0 p w \<Longrightarrow> grown w0 w \<Longrightarrow> grown w w' \<Longrightarrow> canon_copy w0 p w'"
  unfolding canon_copy_def since_trans set_append by blast

definition canon_ok :: "bool \<Rightarrow> world \<Rightarrow> (int \<times> string) option \<Rightarrow> world \<Rightarrow> bool" where
  \<comment> \<open>a canonical name that was saved\<close>
  "canon_ok wants w0 canon w \<longleftrightarrow> grown w0 w \<and>
     (case canon of None \<Rightarrow> True | Some (p, _) \<Rightarrow> wants \<and> canon_copy w0 p w)"

lemma canon_ok_mono: "canon_ok wants w0 canon w \<Longrightarrow> grown w w' \<Longrightarrow> canon_ok wants w0 canon w'"
  by (auto simp: canon_ok_def intro: canon_copy_mono grown_trans split: option.splits)

definition search_inv :: "int multiset \<Rightarrow> bool \<Rightarrow> world \<Rightarrow> ai_node list \<times> (int \<times> string) option \<Rightarrow> world \<Rightarrow> bool" where
  "search_inv M wants w0 = (\<lambda>(ais, canon) w. owned (M + opt_block canon) ais w \<and> list_all new_ok ais \<and>
     canon_ok wants w0 canon w)"

definition search_err :: "int multiset \<Rightarrow> bool \<Rightarrow> world \<Rightarrow> ai_node list \<times> int \<Rightarrow> world \<Rightarrow> bool" where
  \<comment> \<open>the list that \<open>bad\<close> frees; a saved canonical name is lost\<close>
  "search_err M wants w0 = (\<lambda>(ais, e) w. eai e \<and>
     (\<exists>canon. owned (M + opt_block canon) ais w \<and> canon_ok wants w0 canon w))"

lemma search_errI:
  "owned (M + opt_block canon) ais' w' \<Longrightarrow> canon_ok wants w0 canon w' \<Longrightarrow> eai e \<Longrightarrow>
   search_err M wants w0 (ais', e) w'"
  unfolding search_err_def by auto

lemma eai_h_error [simp]: "eai (h_error n)"
  by (simp add: h_error_def)

abbreviation search_post :: "int multiset \<Rightarrow> bool \<Rightarrow> world
    \<Rightarrow> ((ai_node list \<times> (int \<times> string) option) + (ai_node list \<times> int)) \<Rightarrow> world \<Rightarrow> bool" where
  "search_post M wants w0 v \<equiv>
     (case v of Inl st \<Rightarrow> search_inv M wants w0 st | Inr e \<Rightarrow> search_err M wants w0 e)"

lemma appends_ga_aistruct [appending]: "appends (\<lambda>_. True) (ga_aistruct hints a family ais)"
  unfolding ga_aistruct_def calloc_def Let_def by (intro appending TrueI)

lemma appends_look_up [appending]: "appends (\<lambda>_. True) (look_up nsearch host family)"
  unfolding look_up_def use_inet6_def by (intro appending TrueI)

lemma appends_add_addrs [appending]: "appends (\<lambda>_. True) (add_addrs hints family as ais)"
  by (induction as arbitrary: ais) (auto intro!: appending)

lemma wp_search_add:
  assumes "owned (M + opt_block canon) ais w" "list_all new_ok ais"
    "canon_ok wants w0 canon w" "list_all (\<lambda>a. inet_len family (length a)) as"
  shows "wp (bind (add_addrs hints family as ais) (\<lambda>(ais, rc).
      if rc \<noteq> 0 then stop (ais, rc) else again (ais, canon))) (safe (search_post M wants w0)) w"
  by (rule safe_bind [OF safe_appends [OF appends_add_addrs wp_add_addrs [OF assms(1,2,4)]]])
    (use canon_ok_mono [OF assms(3)] in \<open>auto simp: built_def search_inv_def intro!: search_errI\<close>)

lemma numeric_host_len: "numeric_host host = Some (fam, a) \<Longrightarrow> inet_len fam (length a)"
  unfolding numeric_host_def inet_len_def
  by (auto simp: inet_pton_def AF_INET_def AF_INET6_def dest: inet_pton4_length inet_pton6_length
      split: sum.splits option.splits if_splits)

lemma wp_search_body:
  assumes inv: "search_inv M (wants_canon hostname hints) w0 (ais, canon) w"
  shows "wp (search_body nsearch hostname hints (host, family) (ais, canon))
    (safe (search_post M (wants_canon hostname hints) w0)) w"
proof -
  let ?Q = "safe (search_post M (wants_canon hostname hints) w0)"
  have own: "owned (M + opt_block canon) ais w" and ok: "list_all new_ok ais"
    and c: "canon_ok (wants_canon hostname hints) w0 canon w"
    using inv by (simp_all add: search_inv_def)
  show ?thesis
  proof (cases "numeric_host host")
    case (Some fa)
    obtain fam addr where fa: "fa = (fam, addr)" by (cases fa)
    have len: "inet_len fam (length addr)"
      using Some fa numeric_host_len by simp
    have "wp (bind (ga_aistruct hints addr fam ais) (\<lambda>(ais, rc).
        if rc \<noteq> 0 then stop (ais, rc) else again (ais, canon))) ?Q w"
      by (rule safe_bind [OF safe_appends [OF appends_ga_aistruct wp_ga_aistruct [OF own ok len]]])
        (use canon_ok_mono [OF c] in \<open>auto simp: built_def search_inv_def intro!: search_errI\<close>)
    then show ?thesis
      using inv own c Some fa
      by (auto simp del: wp_bind simp: search_body_def intro!: search_errI)
  next
    case None
    have "grown w0 w" using c by (simp add: canon_ok_def)
    show ?thesis
      unfolding search_body_def None prod.case option.case
    proof (rule safe_bind [OF safe_appends [OF appends_look_up wp_look_up [OF own \<open>grown w0 w\<close>]]], elim conjE)
      fix hptr w'
      assume ans: "host_answer (M + opt_block canon) ais w0 hptr w'" and "grown w w'"
      then have own': "owned (M + opt_block canon) ais w'" by (simp add: host_answer_def)
      have c': "canon_ok (wants_canon hostname hints) w0 canon w'"
        using c \<open>grown w w'\<close> by (rule canon_ok_mono)
      have again: "search_inv M (wants_canon hostname hints) w0 (ais, canon) w'"
        using own' ok c' by (simp add: search_inv_def)
      have addrs: "r_val hptr \<noteq> 0 \<Longrightarrow> list_all (\<lambda>a. inet_len (r_num hptr) (length a)) (r_addrs hptr)"
        using ans by (simp add: host_answer_def)
      have err: "search_err M (wants_canon hostname hints) w0 (ais, e) w'" if "eai e" for e
        using own' c' that by (rule search_errI)
      have add: "wp (bind (add_addrs hints (r_num hptr) (r_addrs hptr) ais) (\<lambda>(ais, rc).
             if rc \<noteq> 0 then stop (ais, rc) else again (ais, canon))) ?Q w'" if "r_val hptr \<noteq> 0"
        by (rule wp_search_add [OF own' ok c' addrs [OF that]])
      have canon: "wp (bind (strdup (r_data hptr)) (\<lambda>q.
             if q = 0 then stop (ais, EAI_MEMORY)
             else bind (add_addrs hints (r_num hptr) (r_addrs hptr) ais) (\<lambda>(ais, rc).
               if rc \<noteq> 0 then stop (ais, rc) else again (ais, Some (q, r_data hptr))))) ?Q w'"
        if "r_val hptr \<noteq> 0" "wants_canon hostname hints" "canon = None"
      proof -
        have dup: "wp (strdup (r_data hptr)) (safe (\<lambda>q w''. if q = 0
            then owned M ais w'' \<and> canon_ok True w0 None w''
            else owned (M + {#q#}) ais w'' \<and> canon_ok True w0 (Some (q, r_data hptr)) w'')) w'"
          using own' that(3) ans
          by (auto simp: owned_def host_answer_def canon_ok_def canon_copy_def split: list.split)
        show ?thesis
          by (rule safe_bind [OF dup], rule wp_ifI)
            (use that ok addrs in \<open>auto simp del: wp_bind simp: search_err_def
               intro!: wp_search_add exI [of _ "None :: (int \<times> string) option"]\<close>)
      qed
      show "wp (if r_val hptr = 0 then
             (if nsearch = 2 then again (ais, canon)
              else stop (ais, h_error (r_err hptr)))
           else if ai_family hints \<noteq> AF_UNSPEC \<and> ai_family hints \<noteq> r_num hptr then
             stop (ais, EAI_ADDRFAMILY)
           else if wants_canon hostname hints \<and> canon = None then
             bind (strdup (r_data hptr)) (\<lambda>q.
             if q = 0 then stop (ais, EAI_MEMORY)
             else bind (add_addrs hints (r_num hptr) (r_addrs hptr) ais) (\<lambda>(ais, rc).
               if rc \<noteq> 0 then stop (ais, rc) else again (ais, Some (q, r_data hptr))))
           else bind (add_addrs hints (r_num hptr) (r_addrs hptr) ais) (\<lambda>(ais, rc).
             if rc \<noteq> 0 then stop (ais, rc) else again (ais, canon))) ?Q w'"
        by (intro wp_ifI; (rule canon add)?; simp del: wp_bind add: err again)
    qed
  qed
qed

subsection \<open>The whole function\<close>

text \<open>
  What \<open>getaddrinfo\<close> leaves: on success a list, nonempty, that owns every block allocated; on an
  error an error value of addrinfo.h, no result, and all blocks freed but those of \<open>lost\<close>.
\<close>

definition gai_post :: "int multiset \<Rightarrow> (ai_node \<Rightarrow> bool) \<Rightarrow> (int multiset \<Rightarrow> bool)
    \<Rightarrow> int \<times> ai_node list option \<Rightarrow> world \<Rightarrow> bool" where
  "gai_post M P lost = (\<lambda>(rc, res) w. case res of
       Some ais \<Rightarrow> rc = 0 \<and> ais \<noteq> [] \<and> owned M ais w \<and> list_all P ais
     | None \<Rightarrow> eai rc \<and> (\<exists>L. blocks w = M + L \<and> lost L))"

lemma gai_post_mono:
  "gai_post M P lost r w \<Longrightarrow> (\<And>ai. P ai \<Longrightarrow> P' ai) \<Longrightarrow> (\<And>L. lost L \<Longrightarrow> lost' L) \<Longrightarrow> gai_post M P' lost' r w"
  by (auto simp: gai_post_def list_all_iff split: option.splits)

lemma wp_bad:
  assumes "owned (M + L) ais w" "eai e" "lost L"
  shows "wp (bad ais e) (safe (gai_post M P lost)) w"
  unfolding bad_def
  by (rule safe_seq [OF wp_freeaddrinfo])
    (use assms in \<open>auto simp: gai_post_def owned_def intro!: exI [of _ L]\<close>)

lemma wp_finish_serv:
  assumes "owned M ais w" "list_all node_ok ais" "ais \<noteq> []" "lost {#}"
  shows "wp (finish_serv servname hints ais) (safe (gai_post M node_ok lost)) w"
proof -
  have serv: "wp (bind (ga_serv ais hints s)
      (\<lambda>(ais, rc). if rc \<noteq> 0 then bad ais rc else ret (0, Some ais))) (safe (gai_post M node_ok lost)) w" for s
  proof (rule safe_bind [OF wp_ga_serv [OF assms(1-3)]], clarify)
    fix ais' rc w'
    assume "built node_ok M (ais', rc) w'" "rc = 0 \<longrightarrow> ais' \<noteq> []"
    then show "wp (if rc \<noteq> 0 then bad ais' rc else ret (0, Some ais')) (safe (gai_post M node_ok lost)) w'"
      using wp_bad [of M "{#}" ais' w' rc lost node_ok] assms(4)
      by (auto simp: built_def gai_post_def)
  qed
  have keep: "gai_post M node_ok lost (0, Some ais) w"
    using assms by (simp add: gai_post_def)
  show ?thesis
    using serv keep
    by (simp del: wp_bind add: finish_serv_def split: option.split list.split)
qed

lemma new_ok_node: "new_ok ai \<Longrightarrow> node_ok ai"
  by (simp add: new_ok_def)

lemma new_ok_canon: "new_ok ai \<Longrightarrow> node_ok (ai\<lparr>an_canon := c\<rparr>)"
  by (drule new_ok_node, elim node_okE) (simp_all add: node_ok_def)

lemma new_ok_canon_blocks:
  "new_ok ai \<Longrightarrow> node_blocks (ai\<lparr>an_canon := c\<rparr>) = node_blocks ai + opt_block c"
  by (cases ai) (simp add: new_ok_def node_blocks_def)

lemma new_ok_list: "list_all new_ok ais \<Longrightarrow> list_all node_ok ais"
  by (auto simp: list_all_iff new_ok_node)

lemma wp_finish:
  assumes "search_inv M (wants_canon hostname hints) w0 (ais, canon) w"
    and lost: "lost {#}" "lost (opt_block canon)"
  shows "wp (finish hostname servname hints search ais canon) (safe (gai_post M node_ok lost)) w"
proof -
  have own: "owned (M + opt_block canon) ais w" and ok: "list_all new_ok ais"
    and canon: "canon \<noteq> None \<Longrightarrow> wants_canon hostname hints"
    using assms(1) by (auto simp: search_inv_def canon_ok_def split: option.splits)
  show ?thesis
  proof (cases ais)
    case Nil
    then show ?thesis
      using own lost(2) wp_bad [where L = "opt_block canon" and lost = lost and e = EAI_NONAME]
      by (simp add: finish_def)
  next
    case (Cons ai rest)
    have head: "wp (finish_serv servname hints (ai\<lparr>an_canon := c\<rparr> # rest)) (safe (gai_post M node_ok lost)) w'"
      if "owned (M + opt_block c) ais w'" for c w'
      by (rule wp_finish_serv)
        (use that ok Cons lost(1) in \<open>auto simp: owned_def new_ok_canon new_ok_canon_blocks new_ok_list ac_simps\<close>)
    show ?thesis
    proof (cases "wants_canon hostname hints")
      case False
      with canon have "canon = None" by blast
      then show ?thesis
        using own ok Cons lost(1) False new_ok_list [OF ok]
        by (auto simp: finish_def intro!: wp_finish_serv)
    next
      case True
      show ?thesis
      proof (cases canon)
        case None
        have dup: "wp (strdup s) (safe (\<lambda>q. if q = 0 then owned M ais else owned (M + {#q#}) ais)) w" for s
          using own None by (auto simp: owned_def split: list.split)
        have "wp (bind (strdup s) (\<lambda>q. if q = 0 then bad (ai # rest) EAI_MEMORY
            else finish_serv servname hints (ai\<lparr>an_canon := Some (q, s)\<rparr> # rest)))
          (safe (gai_post M node_ok lost)) w" for s
          unfolding Cons [symmetric]
          by (rule safe_bind [OF dup], rule wp_ifI)
            (auto intro!: head intro: wp_bad [of M "{#}"] simp: lost(1))
        from this [of "fst (search ! 0)"] show ?thesis
          using True None Cons by (simp del: wp_bind add: finish_def)
      next
        case (Some c)
        then show ?thesis
          using True Cons own head by (simp add: finish_def)
      qed
    qed
  qed
qed

lemma search_for_family:
  "search_for f a b = [] \<longleftrightarrow> f \<noteq> AF_INET \<and> f \<noteq> AF_INET6 \<and> f \<noteq> AF_UNSPEC"
  "length (search_for f a b) \<le> 2"
  by (auto simp: search_for_def)

lemma wp_ga_nsearch:
  assumes "ai_family hints \<in> {AF_INET, AF_INET6, AF_UNSPEC}" "owned M [] w"
  shows "wp (ga_nsearch hostname hints) (safe (\<lambda>_. owned M [])) w"
proof -
  have len: "length (search_for (ai_family hints) a b) \<noteq> 0" "\<not> 2 < length (search_for (ai_family hints) a b)" for a b
    using assms(1) search_for_family [of "ai_family hints" a b] by auto
  show ?thesis
    using assms(2) len by (auto simp: ga_nsearch_def Let_def split: option.split list.split)
qed

lemma echeck_family:
  "ga_echeck h s flags family socktype protocol = 0 \<Longrightarrow> family \<in> {AF_INET, AF_INET6, AF_UNSPEC, AF_LOCAL}"
  by (auto simp: ga_echeck_def eai_defs split: if_splits)

lemma eai_echeck: "ga_echeck h s flags family socktype protocol \<noteq> 0 \<Longrightarrow>
    eai (ga_echeck h s flags family socktype protocol)"
proof -
  have "ga_echeck h s flags family socktype protocol \<in>
      {0, EAI_BADFLAGS, EAI_NONAME, EAI_SOCKTYPE, EAI_FAMILY}"
    by (simp add: ga_echeck_def)
  then show "ga_echeck h s flags family socktype protocol \<noteq> 0 \<Longrightarrow> ?thesis" by auto
qed

definition hints_of :: "addrinfo option \<Rightarrow> addrinfo" where
  "hints_of hintsp = (case hintsp of None \<Rightarrow> no_hints | Some h \<Rightarrow> h)"

definition rejected :: "string option \<Rightarrow> string option \<Rightarrow> addrinfo \<Rightarrow> int" where
  "rejected hostname servname hints = ga_echeck hostname servname (ai_flags hints) (ai_family hints)
     (ai_socktype hints) (ai_protocol hints)"

text \<open>The block that an error may lose: the copy of the canonical name, when one is wanted.\<close>

definition lost_canon :: "bool \<Rightarrow> world \<Rightarrow> world \<Rightarrow> int multiset \<Rightarrow> bool" where
  "lost_canon wants w0 w L \<longleftrightarrow> L = {#} \<or> wants \<and> (\<exists>p. L = {#p#} \<and> canon_copy w0 p w)"

lemma lost_canonI: "canon_ok wants w0 canon w \<Longrightarrow> lost_canon wants w0 w (opt_block canon)"
  by (auto simp: lost_canon_def canon_ok_def opt_block_def split: option.splits)

lemma appends_bad [appending]: "appends (\<lambda>_. True) (bad ais e)"
proof -
  have "appends (\<lambda>_. True) (freeaddrinfo ais)"
    by (induction ais) (auto intro!: appending simp: free_def free_opt_def split: option.split)
  then show ?thesis by (simp add: bad_def appending)
qed

lemma appends_set_ai_port [appending]: "appends P (set_ai_port ai port t)"
  by (auto simp: set_ai_port_def Let_def intro!: appending split: option.split sockaddr.split)

lemma appends_ga_port: "appends (\<lambda>_. True) (ga_port ais port t)"
proof (induction ais)
  case (Cons ai ais)
  have "appends (\<lambda>_. True) (ga_clone ai)"
    unfolding ga_clone_def calloc_def malloc_def Let_def by (intro appending TrueI)
  with Cons show ?case
    unfolding ga_port.simps by (intro appending)
qed (simp add: appending)

lemma appends_ga_serv [appending]: "appends (\<lambda>_. True) (ga_serv ais hints serv)"
  unfolding ga_serv_def add_ports_def by_name_def
  by (intro appending appends_ga_port TrueI)

lemma appends_finish [appending]: "appends (\<lambda>_. True) (finish hostname servname hints search ais canon)"
  unfolding finish_def finish_serv_def strdup_def by (intro appending TrueI)

lemma wp_search_end:
  \<comment> \<open>what follows the loop over \<open>search[]\<close>\<close>
  assumes "search_post M (wants_canon hostname hints) w0 v w"
  shows "wp (case v of Inr (ais, e) \<Rightarrow> bad ais e
      | Inl (ais, canon) \<Rightarrow> finish hostname servname hints search ais canon)
    (safe (\<lambda>r w'. gai_post M node_ok (lost_canon (wants_canon hostname hints) w0 w') r w')) w"
proof -
  define wants where "wants = wants_canon hostname hints"
  have late: "gai_post M node_ok (lost_canon wants w0 w') r w'"
    if "gai_post M node_ok (\<lambda>L. L = {#} \<or> L = opt_block canon) r w' \<and> grown w w' \<and>
      list_all (\<lambda>_. True) (since w w')" "canon_ok wants w0 canon w"
    for canon r w'
    using that lost_canonI [OF canon_ok_mono [OF that(2)], of w']
    by (auto simp: lost_canon_def elim!: gai_post_mono)
  show ?thesis
  proof (cases v)
    case (Inl st)
    obtain ais canon where st: "st = (ais, canon)" by (cases st)
    have inv: "search_inv M (wants_canon hostname hints) w0 (ais, canon) w"
      using assms Inl st by simp
    then have c: "canon_ok wants w0 canon w" by (simp add: search_inv_def wants_def)
    show ?thesis
      unfolding Inl st sum.case prod.case wants_def [symmetric]
      by (rule safe_conseq [OF safe_appends [OF appends_finish wp_finish [OF inv,
            where lost = "\<lambda>L. L = {#} \<or> L = opt_block canon"]] late [OF _ c]]) simp_all
  next
    case (Inr err)
    obtain ais e where err: "err = (ais, e)" by (cases err)
    obtain canon where own: "owned (M + opt_block canon) ais w" and c: "canon_ok wants w0 canon w"
      and e: "eai e"
      using assms Inr err by (auto simp: search_err_def wants_def)
    show ?thesis
      unfolding Inr err sum.case prod.case wants_def [symmetric]
      by (rule safe_conseq [OF safe_appends [OF appends_bad wp_bad [OF own e,
            where lost = "\<lambda>L. L = {#} \<or> L = opt_block canon"]] late [OF _ c]]) simp_all
  qed
qed

lemma wp_getaddrinfo_inet:
  assumes "ai_family (hints_of hintsp) \<noteq> AF_LOCAL" "\<not> is_unix hostname servname"
  shows "wp (getaddrinfo hostname servname hintsp) (safe (\<lambda>r w'. gai_post (blocks w) node_ok
    (lost_canon (wants_canon hostname (hints_of hintsp)) w w') r w')) w"
proof (cases "rejected hostname servname (hints_of hintsp) = 0")
  case False
  have "wp (bad [] (rejected hostname servname (hints_of hintsp)))
      (safe (gai_post (blocks w) node_ok (\<lambda>L. L = {#}))) w"
    by (rule wp_bad [where L = "{#}"])
      (use False in \<open>simp_all add: owned_def rejected_def eai_echeck\<close>)
  then have "wp (bad [] (rejected hostname servname (hints_of hintsp))) (safe (\<lambda>r w'. gai_post (blocks w) node_ok
      (lost_canon (wants_canon hostname (hints_of hintsp)) w w') r w')) w"
    by (rule safe_conseq) (erule gai_post_mono, simp_all add: lost_canon_def)
  then show ?thesis
    using False by (simp add: getaddrinfo_def Let_def rejected_def hints_of_def)
next
  case True
  define hints where "hints = hints_of hintsp"
  have family: "ai_family hints \<in> {AF_INET, AF_INET6, AF_UNSPEC}"
    using True echeck_family assms(1) unfolding rejected_def hints_def by blast
  have own: "owned (blocks w) [] w" by (simp add: owned_def)
  have nsearch: "appends (\<lambda>_. True) (ga_nsearch hostname hints)"
    unfolding ga_nsearch_def err_quit_def err_doit_def
    by (intro appending TrueI) (auto intro: appending)
  have "wp (bind (ga_nsearch hostname hints) (\<lambda>search.
      bind (for_each search (search_body (length search) hostname hints) ([], None)) (\<lambda>v.
        case v of
          Inr (ais, e) \<Rightarrow> bad ais e
        | Inl (ais, canon) \<Rightarrow> finish hostname servname hints search ais canon)))
    (safe (\<lambda>r w'. gai_post (blocks w) node_ok (lost_canon (wants_canon hostname hints) w w') r w')) w"
  proof (rule safe_bind [OF safe_appends [OF nsearch wp_ga_nsearch [OF family own]]], elim conjE)
    fix search w'
    assume own': "owned (blocks w) [] w'" and "grown w w'"
    then have start_inv: "search_inv (blocks w) (wants_canon hostname hints) w ([], None) w'"
      by (simp add: search_inv_def canon_ok_def)
    have "wp (for_each search (search_body (length search) hostname hints) ([], None))
      (safe (search_post (blocks w) (wants_canon hostname hints) w)) w'"
      by (rule safe_for_each) (auto simp: start_inv intro: wp_search_body)
    then show "wp (bind (for_each search (search_body (length search) hostname hints) ([], None)) (\<lambda>v.
        case v of
          Inr (ais, e) \<Rightarrow> bad ais e
        | Inl (ais, canon) \<Rightarrow> finish hostname servname hints search ais canon))
      (safe (\<lambda>r w'. gai_post (blocks w) node_ok (lost_canon (wants_canon hostname hints) w w') r w')) w'"
      by (rule safe_bind) (rule wp_search_end)
  qed
  then show ?thesis
    using True assms(2) unfolding hints_def rejected_def hints_of_def
    by (simp del: wp_bind add: getaddrinfo_def Let_def)
qed

subsection \<open>Unix domain\<close>

definition unix_ok :: "string \<Rightarrow> ai_node \<Rightarrow> bool" where
  "unix_ok path ai \<longleftrightarrow> (\<exists>q. an_addr ai = Some (q, SaUn path)) \<and> an_family ai = AF_LOCAL \<and>
     an_addrlen ai = 106 \<and> length path < sizeof_sun_path"

definition unix_new :: "string \<Rightarrow> ai_node \<Rightarrow> bool" where
  "unix_new path ai \<longleftrightarrow> unix_ok path ai \<and> an_canon ai = None"

lemma wp_ga_aistruct_un:
  assumes "owned M ais w" "list_all (unix_new path) ais"
  shows "wp (ga_aistruct_un hints path ais)
    (safe (\<lambda>(ais', rc) w'. built (unix_new path) M (ais', rc) w' \<and> (rc = 0 \<longrightarrow> ais' \<noteq> []))) w"
  using assms
  by (auto simp: unix_new_def ga_aistruct_un_def Let_def built_def owned_def node_blocks_def unix_ok_def
      split: list.split)

lemma wp_ga_unix_canon:
  assumes own: "owned M ais w" and new: "list_all (unix_new path) ais" and ne: "ais \<noteq> []"
  shows "wp (ga_unix_canon hints ais) (safe (gai_post M (unix_ok path) (\<lambda>_. True))) w"
proof -
  have ok: "list_all (unix_ok path) ais" and no_canon: "list_all (\<lambda>ai. an_canon ai = None) ais"
    using new by (auto simp: list_all_iff unix_new_def)
  have lost: "owned M ais w \<Longrightarrow> \<exists>L. blocks w = M + L" for w
    by (auto simp: owned_def)
  have uname: "wp (sys (SysOther ''uname'' [] [])) (safe (\<lambda>_. owned M ais)) w"
    using own by (simp add: owned_def split: list.split)
  show ?thesis
    unfolding ga_unix_canon_def
  proof (rule wp_ifI)
    show "wp (bind (sys (SysOther ''uname'' [] [])) (\<lambda>myname.
        if r_val myname < 0 then ret (EAI_SYSTEM, None)
        else bind (strdup (r_data myname)) (\<lambda>q.
          if q = 0 then ret (EAI_MEMORY, None)
          else (case ais of
              [] \<Rightarrow> undef
            | ai # rest \<Rightarrow> ret (0, Some (ai\<lparr>an_canon := Some (q, r_data myname)\<rparr> # rest))))))
      (safe (gai_post M (unix_ok path) (\<lambda>_. True))) w"
      by (rule safe_bind [OF uname])
        (use ok ne no_canon lost in \<open>auto simp: gai_post_def owned_def unix_ok_def node_blocks_def
           split: list.split\<close>)
    show "wp (ret (0, Some ais)) (safe (gai_post M (unix_ok path) (\<lambda>_. True))) w"
      using own ok ne by (simp add: gai_post_def)
  qed
qed


lemma wp_ga_unix: "wp (ga_unix path hints) (safe (gai_post (blocks w) (unix_ok path) (\<lambda>_. True))) w"
proof -
  let ?Q = "safe (gai_post (blocks w) (unix_ok path) (\<lambda>_. True))"
  have own: "owned (blocks w) [] w" by (simp add: owned_def)
  have fail: "?Q (Val (rc, None)) w'" if "owned (blocks w) ais w'" "eai rc" for rc ais w'
    using that by (auto simp: gai_post_def owned_def)
  have last: "wp (bind (ga_aistruct_un h path ais) (\<lambda>(ais, rc).
      if rc \<noteq> 0 then ret (rc, None) else ga_unix_canon k ais)) ?Q w'"
    if "owned (blocks w) ais w'" "list_all (unix_new path) ais" for h k ais w'
    by (rule safe_bind [OF wp_ga_aistruct_un [OF that]])
      (auto simp: built_def simp del: safe_simps intro: fail wp_ga_unix_canon)
  have both: "wp (bind (ga_aistruct_un h path []) (\<lambda>(ais, rc).
      if rc \<noteq> 0 then ret (rc, None)
      else bind (ga_aistruct_un h' path ais) (\<lambda>(ais, rc).
        if rc \<noteq> 0 then ret (rc, None) else ga_unix_canon k ais))) ?Q w" for h h' k
    by (rule safe_bind [OF wp_ga_aistruct_un [OF own]])
      (auto simp: built_def simp del: safe_simps wp_bind intro: fail last)
  show ?thesis
    unfolding ga_unix_def
    by (intro wp_ifI both last own)
      (simp_all add: gai_post_def)
qed

subsection \<open>Properties\<close>

text \<open>An entry of the list as the caller of \<open>getaddrinfo\<close> sees it.\<close>

definition ai_of :: "ai_node \<Rightarrow> addrinfo" where
  "ai_of ai = \<lparr>ai_flags = an_flags ai, ai_family = an_family ai, ai_socktype = an_socktype ai,
     ai_protocol = an_protocol ai, ai_addr = (case an_addr ai of Some (_, sa) \<Rightarrow> sa | None \<Rightarrow> SaOther 0),
     ai_canonname = map_option snd (an_canon ai)\<rparr>"

definition entry_ok :: "ai_node \<Rightarrow> bool" where
  \<comment> \<open>the address is there, of the entry's family and length\<close>
  "entry_ok ai \<longleftrightarrow> (\<exists>q sa. an_addr ai = Some (q, sa) \<and> sa_ok sa \<and> an_family ai = sa_family sa \<and>
     an_addrlen ai = sa_len sa)"

lemma node_ok_entry: "node_ok ai \<Longrightarrow> entry_ok ai"
  by (elim node_okE) (simp_all add: entry_ok_def sa_ok_def)

lemma unix_ok_entry: "unix_ok path ai \<Longrightarrow> entry_ok ai"
  by (auto simp: unix_ok_def entry_ok_def sa_ok_def AF_LOCAL_def)

lemma getaddrinfo_unix:
  "is_unix h s \<Longrightarrow> getaddrinfo h s hintsp =
     (if rejected h s (hints_of hintsp) \<noteq> 0 then bad [] (rejected h s (hints_of hintsp))
      else ga_unix (the s) (hints_of hintsp))"
  by (simp add: getaddrinfo_def rejected_def hints_of_def Let_def)

lemma wp_bad_nil: "eai e \<Longrightarrow> wp (bad [] e) (safe (gai_post (blocks w) P (\<lambda>_. True))) w"
  by (rule wp_bad [where L = "{#}"]) (simp_all add: owned_def)

lemma rejected_eai: "rejected h s hints \<noteq> 0 \<Longrightarrow> eai (rejected h s hints)"
  by (simp add: rejected_def eai_echeck)

lemma wp_getaddrinfo_unix:
  assumes "is_unix h s"
  shows "wp (getaddrinfo h s hintsp) (safe (gai_post (blocks w) (unix_ok (the s)) (\<lambda>_. True))) w"
  using wp_bad_nil wp_ga_unix [of "the s" "hints_of hintsp" w]
  by (auto simp: getaddrinfo_unix [OF assms] rejected_eai)

lemma getaddrinfo_local:
  assumes "ai_family (hints_of hintsp) = AF_LOCAL" "\<not> is_unix h s" "rejected h s (hints_of hintsp) = 0"
  shows "getaddrinfo h s hintsp = err_quit ''nsearch = 0''"
proof -
  have none: "search_for AF_LOCAL a b = []" for a b
    by (simp add: search_for_def AF_LOCAL_def AF_UNIX_def AF_INET_def AF_INET6_def AF_UNSPEC_def)
  have zero: "dec 0 = ''0''"
    by (simp add: dec.simps [of 0] digits10_def)
  have "ga_nsearch h (hints_of hintsp) = err_quit ''nsearch = 0''"
    using assms(1) none zero by (simp add: ga_nsearch_def split: option.split list.split)
  moreover have "bind (err_quit m) f = err_quit m" for m :: string and f :: "'x \<Rightarrow> 'y io"
    by (rule ext) (simp add: err_quit_def seq_def bind_def exit_with_def split: prod.splits res.splits)
  ultimately show ?thesis
    using assms(2,3) by (simp add: getaddrinfo_def rejected_def hints_of_def Let_def)
qed

text \<open>C1: Refinement.  The library's \<open>getaddrinfo\<close> meets the contract on which
  tcp_connect, tcp_listen and the other callers in lib rely (\<open>fits (SysGetaddrinfo h s hints)\<close>): a successful
  call returns a nonempty list, and every entry of it has an address, of the family and the length that
  the entry names; a failing call returns an error value of addrinfo.h and no list.  No index,
  null pointer or uninitialised member is used wrongly, whatever the resolver, the table of
  services and the allocator answer.  The process is ended in one case only, a request for
  the family \<open>AF_LOCAL\<close> that does not name a Unix path.\<close>

theorem getaddrinfo_contract:
  "wp (getaddrinfo h s hintsp) (\<lambda>r w'. case r of
       Val (rc, res) \<Rightarrow>
         fits (SysGetaddrinfo h s (hints_of hintsp))
           ((ok rc)\<lparr>r_ais := map ai_of (case res of None \<Rightarrow> [] | Some ais \<Rightarrow> ais)\<rparr>) \<and>
         (case res of Some ais \<Rightarrow> rc = 0 \<and> ais \<noteq> [] \<and> list_all entry_ok ais | None \<Rightarrow> eai rc)
     | Exited c \<Rightarrow> c = 1 \<and> ai_family (hints_of hintsp) = AF_LOCAL \<and> \<not> is_unix h s
     | Undef \<Rightarrow> False
     | Blocked \<Rightarrow> True) w" (is "wp _ ?Q w")
proof -
  have post: "?Q r w'" if "safe (gai_post M P lost) r w'" "\<And>ai. P ai \<Longrightarrow> entry_ok ai" for r w' M P lost
    using that by (auto simp: safe_def gai_post_def list_all_iff ok_def eai_def split: res.splits option.splits)
  consider (unix) "is_unix h s" | (inet) "\<not> is_unix h s" "ai_family (hints_of hintsp) \<noteq> AF_LOCAL"
    | (loc) "\<not> is_unix h s" "ai_family (hints_of hintsp) = AF_LOCAL" by blast
  then show ?thesis
  proof cases
    case unix
    show ?thesis
      by (rule wp_conseq [OF wp_getaddrinfo_unix [OF unix]]) (erule post, erule unix_ok_entry)
  next
    case inet
    show ?thesis
      by (rule wp_conseq [OF safe_conseq [OF wp_getaddrinfo_inet [OF inet(2,1)],
            where Q' = "gai_post (blocks w) node_ok (\<lambda>_. True)"]])
        (erule gai_post_mono, simp_all, erule post, erule node_ok_entry)
  next
    case loc
    show ?thesis
    proof (cases "rejected h s (hints_of hintsp) = 0")
      case True
      then show ?thesis using loc by (simp add: getaddrinfo_local)
    next
      case False
      then have "getaddrinfo h s hintsp = bad [] (rejected h s (hints_of hintsp))"
        by (simp add: getaddrinfo_def rejected_def hints_of_def Let_def)
      moreover have "wp (bad [] (rejected h s (hints_of hintsp))) ?Q w"
        by (rule wp_conseq [OF wp_bad_nil [OF rejected_eai [OF False], where P = "\<lambda>_. False"]])
          (erule post, simp)
      ultimately show ?thesis by simp
    qed
  qed
qed

text \<open>The blocks allocated in a part of a trace.\<close>

definition alloc_of :: "syscall \<times> sysret \<Rightarrow> int multiset" where
  "alloc_of e =
     (case e of
        (SysOther nm is _, r) \<Rightarrow>
          if (nm = ''calloc'' \<or> nm = ''malloc'' \<or> nm = ''strdup'') \<and> r_val r \<noteq> 0 then {#r_val r#} else {#}
      | _ \<Rightarrow> {#})"

definition allocated :: "(syscall \<times> sysret) list \<Rightarrow> int multiset" where
  "allocated es = sum_list (map alloc_of es)"

definition no_free :: "syscall \<times> sysret \<Rightarrow> bool" where
  "no_free e = (case e of (SysOther nm is _, r) \<Rightarrow> nm \<noteq> ''free'' | _ \<Rightarrow> True)"

lemma mem_step_no_free: "no_free e \<Longrightarrow> mem_step m e = m + alloc_of e"
  by (auto simp: no_free_def mem_step_def alloc_of_def split: prod.splits syscall.splits)

lemma mem_steps_no_free: "list_all no_free es \<Longrightarrow> foldl mem_step m es = m + allocated es"
  by (induction es arbitrary: m) (simp_all add: mem_step_no_free allocated_def)

lemma blocks_no_free: "grown w w' \<Longrightarrow> list_all no_free (since w w') \<Longrightarrow>
    blocks w' = blocks w + allocated (since w w')"
  by (auto simp: grown_def since_def blocks_def mem_steps_no_free elim!: prefixE)

lemma appends_no_free [appending]:
  "nm \<noteq> ''free'' \<Longrightarrow> appends no_free (call (SysOther nm is ss))"
  "nm \<noteq> ''free'' \<Longrightarrow> appends no_free (sys (SysOther nm is ss))"
  "nm \<noteq> ''free'' \<Longrightarrow> appends no_free (say (SysOther nm is ss))"
  by (simp_all add: appends_call appends_sys appends_say no_free_def)

lemma appends_ga_aistruct_un [appending]: "appends no_free (ga_aistruct_un hints path ais)"
  unfolding ga_aistruct_un_def calloc_def by (intro appending; simp)

lemma appends_ga_unix_canon [appending]: "appends no_free (ga_unix_canon hints ais)"
  unfolding ga_unix_canon_def strdup_def by (intro appending; simp)

lemma appends_ga_unix: "appends no_free (ga_unix path hints)"
  unfolding ga_unix_def by (intro appending)

lemma appends_getaddrinfo_unix:
  assumes "is_unix h s"
  shows "appends no_free (getaddrinfo h s hintsp)"
  using appends_ga_unix by (simp add: getaddrinfo_unix [OF assms] bad_def appending)

lemma blocks_err_world: "blocks (err_world flag level msg w) = blocks w"
  by (simp add: err_world_def Let_def mem_step_def)

text \<open>C2: Memory.  When \<open>getaddrinfo\<close> succeeds, every block that it has allocated and not freed is
  owned by the list that it returns.  When it fails for an Internet name, every block is freed,
  once, but one: if the canonical name was asked for, the copy of the name in an answer of the
  resolver may be lost.  When it fails for a Unix path nothing is freed: every block that the
  call allocated is lost.  When the process is ended, nothing has been allocated.\<close>

theorem getaddrinfo_memory:
  "wp (getaddrinfo h s hintsp) (\<lambda>r w'. case r of
       Val (rc, Some ais) \<Rightarrow> rc = 0 \<and> blocks w' = blocks w + ai_blocks ais
     | Val (rc, None) \<Rightarrow> rc \<noteq> 0 \<and>
         (if is_unix h s then blocks w' = blocks w + allocated (since w w')
          else blocks w' = blocks w \<or>
            wants_canon h (hints_of hintsp) \<and>
            (\<exists>p. canon_copy w p w' \<and> blocks w' = add_mset p (blocks w)))
     | Exited c \<Rightarrow> ai_family (hints_of hintsp) = AF_LOCAL \<and> \<not> is_unix h s \<and> blocks w' = blocks w
     | Undef \<Rightarrow> False
     | Blocked \<Rightarrow> True) w" (is "wp _ ?Q w")
proof -
  consider (unix) "is_unix h s" | (inet) "\<not> is_unix h s" "ai_family (hints_of hintsp) \<noteq> AF_LOCAL"
    | (loc) "\<not> is_unix h s" "ai_family (hints_of hintsp) = AF_LOCAL" by blast
  then show ?thesis
  proof cases
    case unix
    show ?thesis
    proof (rule wp_conseq [OF safe_appends [OF appends_getaddrinfo_unix [OF unix] wp_getaddrinfo_unix [OF unix]]])
      fix r :: "(int \<times> ai_node list option) res" and w'
      assume "safe (\<lambda>a w'. gai_post (blocks w) (unix_ok (the s)) (\<lambda>_. True) a w' \<and> grown w w' \<and>
          list_all no_free (since w w')) r w'"
      then show "?Q r w'"
        using unix blocks_no_free [of w w']
        by (cases r) (auto simp: gai_post_def owned_def eai_def split: option.splits)
    qed
  next
    case inet
    show ?thesis
      by (rule wp_conseq [OF wp_getaddrinfo_inet [OF inet(2,1)]])
        (use inet in \<open>auto simp: safe_def gai_post_def owned_def eai_def lost_canon_def
           split: res.splits option.splits\<close>)
  next
    case loc
    show ?thesis
    proof (cases "rejected h s (hints_of hintsp) = 0")
      case True
      then show ?thesis using loc by (simp add: getaddrinfo_local blocks_err_world)
    next
      case False
      then have "getaddrinfo h s hintsp = bad [] (rejected h s (hints_of hintsp))"
        by (simp add: getaddrinfo_def rejected_def hints_of_def Let_def)
      then show ?thesis using False loc by (simp add: bad_def)
    qed
  qed
qed

text \<open>The leaks: the canonical name on an error, and every block in \<open>ga_unix\<close>.\<close>

definition host_found :: "string \<Rightarrow> 8 word list list \<Rightarrow> sysret" where
  "host_found name addrs = (ok 1)\<lparr>r_data := name, r_num := AF_INET, r_addrs := addrs\<rparr>"

definition canon_hints :: addrinfo where
  "canon_hints = no_hints\<lparr>ai_flags := AI_CANONNAME, ai_family := AF_INET, ai_socktype := SOCK_STREAM\<rparr>"

definition canon_run :: "int \<Rightarrow> sysret list" where
  "canon_run p = [ok 1, host_found ''h.x'' [[10, 0, 0, 1]], ok 99, ok 100, ok p]"

lemma getaddrinfo_canon_ok:
  "fst (getaddrinfo (Some ''h'') None (Some canon_hints) (start (canon_run 101))) =
     Val (0, Some [\<lparr>an_ptr = 100, an_flags = 0, an_family = AF_INET, an_socktype = SOCK_STREAM,
       an_protocol = 0, an_addrlen = 16, an_addr = Some (101, SaIn 0 [10, 0, 0, 1]),
       an_canon = Some (99, ''h.x'')\<rparr>])"
  by code_simp

lemma wp_safe_fst: "wp m (safe Q) w \<Longrightarrow> fst (m w) = Val a \<Longrightarrow> Q a (snd (m w))"
  by (auto simp: wp_def split: prod.splits)

theorem getaddrinfo_memory_witness:
  "blocks (snd (getaddrinfo (Some ''h'') None (Some canon_hints) (start (canon_run 101)))) = {#99, 100, 101#}"
proof -
  have "blocks (start rs) = {#}" for rs by (simp add: blocks_def start_def)
  then show ?thesis
    using getaddrinfo_memory [of "Some ''h''" None "Some canon_hints" "start (canon_run 101)"]
      getaddrinfo_canon_ok
    by (auto simp: wp_def node_blocks_def split: prod.splits)
qed

text \<open>When the second \<open>calloc\<close> fails the copy of the canonical name, block 99, is not freed; a path
  that is too long costs \<open>ga_unix\<close> a structure at each call.\<close>

theorem getaddrinfo_leaks:
  "fst (getaddrinfo (Some ''h'') None (Some canon_hints) (start (canon_run 0))) = Val (EAI_MEMORY, None)"
  "blocks (snd (getaddrinfo (Some ''h'') None (Some canon_hints) (start (canon_run 0)))) = {#99#}"
  "104 \<le> length path \<Longrightarrow> p \<noteq> 0 \<Longrightarrow> script w = ok p # rs \<Longrightarrow> path = CHR ''/'' # cs \<Longrightarrow>
   wp (getaddrinfo (Some ''/local'') (Some path) None)
     (\<lambda>r w'. r = Val (EAI_SERVICE, None) \<and> blocks w' = add_mset p (blocks w)) w"
proof -
  show "fst (getaddrinfo (Some ''h'') None (Some canon_hints) (start (canon_run 0))) = Val (EAI_MEMORY, None)"
    by code_simp
  show "blocks (snd (getaddrinfo (Some ''h'') None (Some canon_hints) (start (canon_run 0)))) = {#99#}"
    by code_simp
  assume a: "104 \<le> length path" "p \<noteq> 0" "script w = ok p # rs" "path = CHR ''/'' # cs"
  have "is_unix (Some ''/local'') (Some path)"
    by (simp add: is_unix_def starts_with_def a(4))
  moreover have "rejected (Some ''/local'') (Some path) (hints_of None) = 0"
    by (simp add: rejected_def hints_of_def no_hints_def ga_echeck_def empty_name_def AF_UNSPEC_def a(4))
  ultimately show "wp (getaddrinfo (Some ''/local'') (Some path) None)
     (\<lambda>r w'. r = Val (EAI_SERVICE, None) \<and> blocks w' = add_mset p (blocks w)) w"
    using a by (simp add: getaddrinfo_unix ga_unix_def hints_of_def no_hints_def AF_UNSPEC_def
      ga_aistruct_un_def Let_def sizeof_sun_path_def ok_def)
qed

subsection \<open>Cloning\<close>

definition view :: "ai_node \<Rightarrow> int \<times> int \<times> int \<times> sockaddr option" where
  "view ai = (an_family ai, an_socktype ai, an_protocol ai, map_option snd (an_addr ai))"

definition entry :: "int \<Rightarrow> int \<Rightarrow> ai_node \<Rightarrow> int \<times> int \<times> int \<times> sockaddr option" where
  \<comment> \<open>the address of an entry with a socket type and a port\<close>
  "entry socktype port ai = (an_family ai, socktype, an_protocol ai,
     map_option (\<lambda>(_, sa). sock_set_port sa port) (an_addr ai))"

lemma view_strip: "map view xs = map view (map strip xs)"
  by (simp add: view_def strip_def option.map_comp comp_def split_def)

lemma strip_ports: "map strip (concat (map (port_entry p t) xs)) = concat (map (port_entry p t) (map strip xs))"
proof -
  have "map strip (port_entry p t ai) = port_entry p t (strip ai)" for ai
    by (cases ai) (simp add: port_entry_def strip_def with_port_def option.map_comp comp_def split_def)
  then show ?thesis by (simp add: map_concat comp_def)
qed

lemma view_with_port: "view (with_port p t ai) = entry t p ai"
  by (cases ai) (simp add: view_def entry_def with_port_def option.map_comp comp_def split_def)

lemma clone_flag: "AI_CLONE AND AI_CLONE \<noteq> 0"
  by (simp add: AI_CLONE_def)

lemma types_differ: "SOCK_STREAM \<noteq> 0" "SOCK_DGRAM \<noteq> 0" "SOCK_STREAM \<noteq> SOCK_DGRAM"
  by (simp_all add: SOCK_STREAM_def SOCK_DGRAM_def)

definition untyped :: "ai_node \<Rightarrow> bool" where
  \<comment> \<open>as \<open>ga_aistruct\<close> makes it when no socket type is wanted\<close>
  "untyped ai \<longleftrightarrow> an_flags ai = AI_CLONE \<and> an_socktype ai = 0"

lemma first_pass:
  "list_all untyped ais \<Longrightarrow> concat (map (port_entry p t) ais) = map (with_port p t) ais"
  "list_all untyped ais \<Longrightarrow> filter (port_matches t) ais = ais"
  using clone_flag
  by (induction ais) (auto simp: untyped_def port_entry_def port_matches_def filter_id_conv)

lemma sock_set_port_twice [simp]: "sock_set_port (sock_set_port sa p1) p2 = sock_set_port sa p2"
  by (cases sa) simp_all

lemma second_entry:
  "an_flags ai = AI_CLONE \<Longrightarrow>
   map view (port_entry p2 SOCK_DGRAM (strip (with_port p1 SOCK_STREAM ai))) =
     [entry SOCK_STREAM p1 ai, entry SOCK_DGRAM p2 ai]"
  using clone_flag types_differ
  by (cases ai) (simp add: port_entry_def view_def entry_def strip_def with_port_def
      option.map_comp comp_def split_def)

lemma strip_flags: "an_flags (strip ai) = an_flags ai" "an_flags (with_port p t ai) = an_flags ai"
  by (simp_all add: strip_def with_port_def)

lemma second_pass:
  assumes untyped: "list_all untyped ais"
    and strip: "map strip ais1 = map strip (map (with_port p1 SOCK_STREAM) ais)"
    and p2: "ported M p2 SOCK_DGRAM ais1 (ais2, n2) w" and pos: "\<not> n2 < 0"
  shows "n2 = int (length ais)"
    "map view ais2 = concat (map (\<lambda>ai. [entry SOCK_STREAM p1 ai, entry SOCK_DGRAM p2 ai]) ais)"
proof -
  have "map an_flags ais1 = map an_flags ais"
    using arg_cong [OF strip, of "map an_flags"] by (simp add: comp_def strip_flags)
  moreover have "an_flags ` set ais \<subseteq> {AI_CLONE}"
    using untyped by (auto simp: untyped_def list_all_iff)
  ultimately have "an_flags ` set ais1 \<subseteq> {AI_CLONE}"
    by (metis list.set_map)
  then have all: "filter (port_matches SOCK_DGRAM) ais1 = ais1"
    using clone_flag by (auto simp: filter_id_conv port_matches_def)
  have "length ais1 = length ais" using arg_cong [OF strip, of length] by simp
  then show "n2 = int (length ais)"
    using p2 pos all by (auto simp: ported_def)
  have "map strip ais2 = concat (map (port_entry p2 SOCK_DGRAM) (map strip (map (with_port p1 SOCK_STREAM) ais)))"
    using p2 pos strip by (simp only: ported_def prod.case strip_ports simp_thms)
  then have "map view ais2 = concat (map (\<lambda>ai. map view (port_entry p2 SOCK_DGRAM
      (strip (with_port p1 SOCK_STREAM ai)))) ais)"
    by (subst view_strip) (simp add: map_concat comp_def)
  also have "\<dots> = concat (map (\<lambda>ai. [entry SOCK_STREAM p1 ai, entry SOCK_DGRAM p2 ai]) ais)"
    using untyped second_entry
    by (intro arg_cong [where f = concat] map_cong) (auto simp: list_all_iff untyped_def)
  finally show "map view ais2 = concat (map (\<lambda>ai. [entry SOCK_STREAM p1 ai, entry SOCK_DGRAM p2 ai]) ais)" .
qed

lemma wp_first_pass:
  assumes "owned M ais w" "list_all node_ok ais" "list_all untyped ais"
  shows "wp (ga_port ais p t) (safe (\<lambda>(ais1, n1) w1. owned M ais1 w1 \<and>
    (n1 < 0 \<or> list_all node_ok ais1 \<and> n1 = int (length ais) \<and>
       map strip ais1 = map strip (map (with_port p t) ais)))) w"
  by (rule safe_conseq [OF wp_ga_port [OF assms(1,2)]])
    (auto simp: ported_def first_pass [OF assms(3)])

text \<open>Cloning.  From entries that have no socket type yet, a pass for streams followed by a pass
  for datagrams gives, unless memory runs out, the list that the comment of ga_port.c asks for:
  for each address in turn an entry for streams with the first port and an entry for
  datagrams with the second; both passes report one entry found for each address.\<close>

theorem ga_port_pairs:
  assumes "list_all node_ok ais" "list_all untyped ais" "ai_blocks ais \<subseteq># blocks w"
  shows "wp (bind (ga_port ais p1 SOCK_STREAM) (\<lambda>(ais1, n1).
      if n1 < 0 then ret (ais1, n1, 0)
      else bind (ga_port ais1 p2 SOCK_DGRAM) (\<lambda>(ais2, n2). ret (ais2, n1, n2))))
    (safe (\<lambda>(ais', n1, n2) w'. n1 < 0 \<or> n2 < 0 \<or>
       n1 = int (length ais) \<and> n2 = int (length ais) \<and>
       map view ais' = concat (map (\<lambda>ai. [entry SOCK_STREAM p1 ai, entry SOCK_DGRAM p2 ai]) ais))) w"
    (is "wp _ (safe ?Q) w")
proof -
  have own: "owned (blocks w - ai_blocks ais) ais w"
    using assms(3) by (simp add: owned_def)
  have second: "wp (bind (ga_port ais1 p2 SOCK_DGRAM) (\<lambda>(ais2, n2). ret (ais2, n1, n2))) (safe ?Q) w1"
    if "owned M ais1 w1" "list_all node_ok ais1" "n1 = int (length ais)"
      "map strip ais1 = map strip (map (with_port p1 SOCK_STREAM) ais)" for M ais1 n1 w1
    by (rule safe_bind [OF wp_ga_port [OF that(1,2)]])
      (use second_pass [OF assms(2) that(4)] that(3) in auto)
  show ?thesis
    by (rule safe_bind [OF wp_first_pass [OF own assms(1,2)]])
      (auto simp del: wp_bind map_map intro: second)
qed

definition one_entry :: ai_node where
  "one_entry = \<lparr>an_ptr = 100, an_flags = AI_CLONE, an_family = AF_INET, an_socktype = 0,
     an_protocol = 0, an_addrlen = 16, an_addr = Some (101, SaIn 0 [10, 0, 0, 1]), an_canon = None\<rparr>"

definition holding :: "int list \<Rightarrow> sysret list \<Rightarrow> world" where
  \<comment> \<open>a process that has allocated some blocks\<close>
  "holding ps rs = (start rs)\<lparr>trace := map (\<lambda>p. (SysOther ''calloc'' [1] [], ok p)) ps\<rparr>"

definition two_passes :: "(ai_node list \<times> int \<times> int) io" where
  "two_passes = bind (ga_port [one_entry] 80 SOCK_STREAM) (\<lambda>(ais1, n1).
      if n1 < 0 then ret (ais1, n1, 0)
      else bind (ga_port ais1 90 SOCK_DGRAM) (\<lambda>(ais2, n2). ret (ais2, n1, n2)))"

theorem ga_port_pairs_witness:
  "\<exists>ais. fst (two_passes (holding [100, 101] [ok 200, ok 201])) = Val (ais, 1, 1) \<and>
     map view ais = [(AF_INET, SOCK_STREAM, 0, Some (SaIn 80 [10, 0, 0, 1])),
       (AF_INET, SOCK_DGRAM, 0, Some (SaIn 90 [10, 0, 0, 1]))]"
proof -
  let ?w = "holding [100, 101] [ok 200, ok 201]"
  obtain ais where run: "fst (two_passes ?w) = Val (ais, 1, 1)"
  proof -
    have "case fst (two_passes ?w) of Val (ais, n1, n2) \<Rightarrow> n1 = 1 \<and> n2 = 1 | _ \<Rightarrow> False"
      by code_simp
    then show ?thesis using that by (auto split: res.splits)
  qed
  have "list_all node_ok [one_entry]" "list_all untyped [one_entry]" "ai_blocks [one_entry] \<subseteq># blocks ?w"
    by (simp_all add: one_entry_def node_ok_def untyped_def node_blocks_def holding_def start_def
        blocks_def ok_def)
  from wp_safe_fst [OF ga_port_pairs [OF this, of 80 90, folded two_passes_def] run]
  have "map view ais = [entry SOCK_STREAM 80 one_entry, entry SOCK_DGRAM 90 one_entry]" by simp
  then show ?thesis
    using run by (simp add: entry_def one_entry_def)
qed

subsection \<open>Numeric names\<close>

lemma inet_ntop_text:
  "length a = 4 \<Longrightarrow> 46 \<le> n \<Longrightarrow> inet_ntop AF_INET a n = Inr (dotted a)"
  "length a = 16 \<Longrightarrow> 46 \<le> n \<Longrightarrow> inet_ntop AF_INET6 a n = Inr (text6 a)"
  by (simp_all add: inet_ntop_def inet_ntop4_enough inet_ntop6_46 AF_INET_def AF_INET6_def)

lemma starts_with_dec: "starts_with isdigit (dec n @ s)"
  using dec_isdigit [of "hd (dec n)" n] by (cases "dec n") (auto simp: starts_with_def)

lemma numeric_host_dotted: "length a = 4 \<Longrightarrow> numeric_host (dotted a) = Some (AF_INET, a)"
  using starts_with_dec by (simp add: numeric_host_def inet_pton_def) (simp add: dotted_def)

lemma numeric_host_text6:
  assumes "length a = 16"
  shows "numeric_host (text6 a) = Some (AF_INET6, a)"
proof -
  have p: "inet_pton6 (text6 a) = Some a" by (rule inet_pton6_text6 [OF assms])
  note shape = inet_pton6_shape [OF p]
  have "starts_with (\<lambda>c. isxdigit c \<or> c = CHR '':'') (text6 a)"
    using shape(2,3) by (cases "text6 a") (auto simp: starts_with_def)
  then show ?thesis
    using shape(1) p
    by (simp add: numeric_host_def inet_pton_def inet_pton4_colon AF_INET_def AF_INET6_def)
qed

lemma port_text: "of_int (uint (htons (of_int (atoi (dec (unat (ntohs p))))))) = p"
  by (simp add: atoi_dec)

definition zero_port :: "int \<Rightarrow> 8 word list \<Rightarrow> sockaddr" where
  "zero_port fam a = (if fam = AF_INET then SaIn 0 a else SaIn6 0 a 0)"

definition numeric_list :: "addrinfo \<Rightarrow> int \<Rightarrow> 8 word list \<Rightarrow> ai_node list \<Rightarrow> bool" where
  \<comment> \<open>the list that \<open>ga_aistruct\<close> starts for a numeric host\<close>
  "numeric_list hints fam a ais \<longleftrightarrow> list_all node_ok ais \<and>
     map (\<lambda>ai. (view ai, an_flags ai)) ais =
       [((fam, ai_socktype hints, ai_protocol hints, Some (zero_port fam a)),
         if ai_socktype hints = 0 then AI_CLONE else 0)]"

lemma wp_numeric_aistruct:
  assumes "inet_len fam (length a)" "owned M [] w"
  shows "wp (ga_aistruct hints a fam []) (safe (\<lambda>(ais, rc) w'. rc = EAI_MEMORY \<or>
    rc = 0 \<and> owned M ais w' \<and> numeric_list hints fam a ais)) w"
proof -
  consider "fam = AF_INET" "fam \<noteq> AF_INET6" "length a = 4" | "fam = AF_INET6" "fam \<noteq> AF_INET" "length a = 16"
    using assms(1) by (auto simp: inet_len_def AF_INET_def AF_INET6_def)
  then show ?thesis
    using assms(2)
    by cases (simp_all add: ga_aistruct_def Let_def owned_def node_blocks_def numeric_list_def
        view_def zero_port_def node_ok_def new_node_def split: list.split)
qed

lemma wp_numeric_search:
  assumes num: "numeric_host h = Some (fam, a)" "inet_len fam (length a)"
    and family: "ai_family hints = AF_UNSPEC \<or> ai_family hints = fam" and own: "owned M [] w"
  shows "wp (for_each (search_for (ai_family hints) h h) (search_body n hostname hints) ([], None))
    (safe (\<lambda>v w'. case v of
        Inl (ais, canon) \<Rightarrow> canon = None \<and> owned M ais w' \<and> numeric_list hints fam a ais
      | Inr (ais, e) \<Rightarrow> e = EAI_MEMORY)) w"
    (is "wp _ (safe ?Q) w")
proof -
  have fam: "fam = AF_INET \<or> fam = AF_INET6" using num(2) by (auto simp: inet_len_def)
  have make: "wp (bind (ga_aistruct hints a fam []) (\<lambda>(ais, rc).
      if rc \<noteq> 0 then stop (ais, rc) else again (ais, None))) (safe ?Q) w"
    by (rule safe_bind [OF wp_numeric_aistruct [OF num(2) own]]) auto
  have body: "search_body n hostname hints (h, family) (ais, canon) =
      (if family \<noteq> fam then again (ais, canon)
       else bind (ga_aistruct hints a fam ais) (\<lambda>(ais, rc).
         if rc \<noteq> 0 then stop (ais, rc) else again (ais, canon)))" for family ais canon
    using num(1) family by (auto simp: search_body_def)
  have last: "wp (bind (bind (ga_aistruct hints a fam []) (\<lambda>(ais, rc).
      if rc \<noteq> 0 then stop (ais, rc) else again (ais, None)))
      (\<lambda>v. case v of Inl s \<Rightarrow> for_each xs (search_body n hostname hints) s | Inr e \<Rightarrow> ret (Inr e)))
      (safe ?Q) w" if "xs = [] \<or> xs = [(h, f)] \<and> f \<noteq> fam" for xs f
    by (rule safe_bind [OF make]) (use that in \<open>auto simp: body again_def split: sum.splits\<close>)
  show ?thesis
    using fam family last [of "[]"] last [of "[(h, AF_INET)]" AF_INET]
    by (auto simp del: wp_bind simp: search_for_def body again_def bind_ret AF_INET_def AF_INET6_def AF_UNSPEC_def)
qed

definition answer_views :: "addrinfo \<Rightarrow> int \<Rightarrow> sockaddr \<Rightarrow> (int \<times> int \<times> int \<times> sockaddr option) list" where
  \<comment> \<open>the entries for one address: one of the type asked for, or a stream and a datagram entry\<close>
  "answer_views hints fam sa =
     map (\<lambda>t. (fam, t, ai_protocol hints, Some sa))
       (if ai_socktype hints = 0 then [SOCK_STREAM, SOCK_DGRAM] else [ai_socktype hints])"

lemma numeric_list_entry:
  assumes "numeric_list hints fam a ais"
  obtains ai where "ais = [ai]" "node_ok ai" "an_protocol ai = ai_protocol hints"
    "an_flags ai = (if ai_socktype hints = 0 then AI_CLONE else 0)" "an_socktype ai = ai_socktype hints"
    "\<And>t p. entry t p ai = (fam, t, ai_protocol hints, Some (sock_set_port (zero_port fam a) p))"
proof -
  from assms obtain ai where ai: "ais = [ai]" "node_ok ai"
    and v: "view ai = (fam, ai_socktype hints, ai_protocol hints, Some (zero_port fam a))"
    "an_flags ai = (if ai_socktype hints = 0 then AI_CLONE else 0)"
    by (auto simp: numeric_list_def map_eq_Cons_conv)
  show ?thesis
    by (rule that [OF ai]) (use v in \<open>auto simp: view_def entry_def\<close>)
qed

lemma view_of_strip: "view (strip ai) = view ai"
  using view_strip [of "[ai]"] by simp

lemma typed_pass:
  assumes "ported M p t [ai] (ais', n) w" "an_flags ai = 0" "an_socktype ai = t" "\<not> n < 0"
  shows "n = 1" "map view ais' = [entry t p ai]"
proof -
  from assms have "map strip ais' = [strip (with_port p t ai)]" and n: "n = 1"
    by (auto simp: ported_def port_entry_def port_matches_def)
  then have "map view ais' = map view [strip (with_port p t ai)]"
    by (subst view_strip) simp
  with n show "n = 1" "map view ais' = [entry t p ai]"
    by (simp_all add: view_of_strip view_with_port)
qed

lemma for_each_Nil: "for_each [] body = (\<lambda>s. ret (Inl s))"
  by (rule ext) simp

lemma wp_numeric_serv:
  assumes own: "owned M ais w" and list: "numeric_list hints fam a ais" and digits: "starts_with isdigit s"
  defines "p \<equiv> uint (htons (of_int (atoi s)))"
  shows "wp (ga_serv ais hints s) (safe (\<lambda>(ais', rc) w'. rc = EAI_MEMORY \<or>
    rc = 0 \<and> map view ais' = answer_views hints fam (sock_set_port (zero_port fam a) p))) w"
    (is "wp _ (safe ?Q) w")
proof -
  obtain ai where ai: "ais = [ai]" "node_ok ai" "an_protocol ai = ai_protocol hints"
    "an_flags ai = (if ai_socktype hints = 0 then AI_CLONE else 0)" "an_socktype ai = ai_socktype hints"
    and entry: "\<And>t p. entry t p ai = (fam, t, ai_protocol hints, Some (sock_set_port (zero_port fam a) p))"
    using numeric_list_entry [OF list] by metis
  have ok: "list_all node_ok ais" using ai by simp
  let ?post = "\<lambda>v w'. case v of Inr ais' \<Rightarrow> True
    | Inl (ais', n) \<Rightarrow> 0 < n \<and> map view ais' = answer_views hints fam (sock_set_port (zero_port fam a) p)"
  have passes: "wp (for_each (if ai_socktype hints \<noteq> 0 then [ai_socktype hints] else [SOCK_STREAM, SOCK_DGRAM])
      (add_ports p) (ais, 0)) (safe ?post) w"
  proof (cases "ai_socktype hints = 0")
    case False
    have "wp (add_ports p (ai_socktype hints) (ais, 0)) (safe ?post) w"
      unfolding add_ports_def prod.case
    proof (rule safe_bind [OF wp_ga_port [OF own ok]], clarify)
      fix ais' n w'
      assume "ported M p (ai_socktype hints) ais (ais', n) w'"
      then show "wp (if n < 0 then stop ais' else again (ais', 0 + n)) (safe ?post) w'"
        using typed_pass [of M p "ai_socktype hints" ai ais' n w'] ai False entry
        by (cases "n < 0") (simp_all add: answer_views_def)
    qed
    then have "wp (bind (add_ports p (ai_socktype hints) (ais, 0)) (\<lambda>v. case v of Inl s \<Rightarrow> ret (Inl s)
        | Inr a \<Rightarrow> ret (Inr a))) (safe ?post) w"
      by (rule safe_bind) (auto split: sum.splits)
    then show ?thesis
      using False by (simp only: for_each.simps(2) for_each_Nil not_False_eq_True if_True)
  next
    case True
    have untyped: "list_all untyped ais" using ai True by (simp add: untyped_def)
    have second: "wp (add_ports p SOCK_DGRAM (ais1, n1)) (safe ?post) w1"
      if "owned M ais1 w1" "list_all node_ok ais1" "n1 = 1"
        "map strip ais1 = map strip (map (with_port p SOCK_STREAM) ais)" for ais1 n1 w1
      unfolding add_ports_def prod.case
    proof (rule safe_bind [OF wp_ga_port [OF that(1,2)]], clarify)
      fix ais' n w'
      assume "ported M p SOCK_DGRAM ais1 (ais', n) w'"
      then show "wp (if n < 0 then stop ais' else again (ais', n1 + n)) (safe ?post) w'"
        using second_pass [OF untyped that(4), of M p ais' n w'] that(3) ai(1) entry True
        by (cases "n < 0") (simp_all add: answer_views_def)
    qed
    have first: "wp (add_ports p SOCK_STREAM (ais, 0)) (safe (\<lambda>v w1. case v of Inr ais' \<Rightarrow> True
        | Inl (ais1, n1) \<Rightarrow> owned M ais1 w1 \<and> list_all node_ok ais1 \<and> n1 = 1 \<and>
            map strip ais1 = map strip (map (with_port p SOCK_STREAM) ais))) w"
      unfolding add_ports_def prod.case
      by (rule safe_bind [OF wp_first_pass [OF own ok untyped]])
        (use ai(1) in \<open>auto simp del: map_map\<close>)
    have again: "wp (bind (add_ports p SOCK_DGRAM s) (\<lambda>v. case v of Inl s \<Rightarrow> ret (Inl s)
        | Inr a \<Rightarrow> ret (Inr a))) (safe ?post) w1"
      if "wp (add_ports p SOCK_DGRAM s) (safe ?post) w1" for s w1
      using that by (rule safe_bind) (auto split: sum.splits)
    show ?thesis
      using True
      by (simp only: for_each.simps(2) for_each_Nil if_False not_True_eq_False simp_thms)
        (rule safe_bind [OF first], auto simp del: wp_bind map_map simp: for_each_Nil split: sum.splits
          intro!: again second)
  qed
  show ?thesis
    unfolding ga_serv_def
    by (rule safe_bind [where Q = ?post])
      (use passes digits in \<open>auto simp: p_def split: sum.splits\<close>)
qed

lemma wp_numeric_finish:
  assumes own: "owned M ais w" and list: "numeric_list hints fam a ais" and digits: "starts_with isdigit s"
    and no_canon: "\<not> wants_canon hostname hints"
  shows "wp (finish hostname (Some s) hints search ais None) (safe (\<lambda>(rc, res) w'.
    (case res of None \<Rightarrow> rc = EAI_MEMORY
     | Some ais' \<Rightarrow> rc = 0 \<and> map view ais' = answer_views hints fam
         (sock_set_port (zero_port fam a) (uint (htons (of_int (atoi s)))))))) w"
    (is "wp _ (safe ?Q) w")
proof -
  obtain ai where ai: "ais = [ai]" using numeric_list_entry [OF list] by metis
  obtain c cs where s: "s = c # cs" using digits by (cases s) (simp_all add: starts_with_def)
  have bad: "wp (bad ais' EAI_MEMORY) (safe ?Q) w'" for ais' w'
    unfolding bad_def by (rule safe_seq [OF wp_freeaddrinfo]) simp
  have "wp (bind (ga_serv ais hints s) (\<lambda>(ais, rc). if rc \<noteq> 0 then bad ais rc else ret (0, Some ais))) (safe ?Q) w"
    by (rule safe_bind [OF wp_numeric_serv [OF own list digits]]) (auto simp: bad)
  then show ?thesis
    using no_canon ai s by (simp del: wp_bind add: finish_def finish_serv_def)
qed

lemma getaddrinfo_numeric:
  assumes num: "numeric_host h = Some (fam, a)" "inet_len fam (length a)" "h \<noteq> []"
    and digits: "starts_with isdigit s"
    and family: "ai_family hints = AF_UNSPEC \<or> ai_family hints = fam"
    and ok: "rejected (Some h) (Some s) hints = 0" and no_canon: "ai_flags hints AND AI_CANONNAME = 0"
  shows "wp (getaddrinfo (Some h) (Some s) (Some hints)) (safe (\<lambda>(rc, res) w'.
    (case res of None \<Rightarrow> rc = EAI_MEMORY
     | Some ais' \<Rightarrow> rc = 0 \<and> map view ais' = answer_views hints fam
         (sock_set_port (zero_port fam a) (uint (htons (of_int (atoi s)))))))) w"
    (is "wp _ (safe ?Q) w")
proof -
  obtain c cs where h: "h = c # cs" using num(3) by (cases h) simp_all
  have fam: "fam = AF_INET \<or> fam = AF_INET6" using num(2) by (auto simp: inet_len_def)
  have search: "ga_nsearch (Some h) hints = ret (search_for (ai_family hints) h h)"
    using family fam h by (auto simp: ga_nsearch_def search_for_def Let_def AF_UNSPEC_def AF_INET_def AF_INET6_def)
  have not_unix: "\<not> is_unix (Some h) (Some s)"
    using digits by (auto simp: is_unix_def starts_with_def isdigit_def split: list.splits)
  have no: "\<not> wants_canon (Some h) hints" by (simp add: wants_canon_def no_canon)
  have bad: "wp (bad ais' EAI_MEMORY) (safe ?Q) w'" for ais' w'
    unfolding bad_def by (rule safe_seq [OF wp_freeaddrinfo]) simp
  have own: "owned (blocks w) [] w" by (simp add: owned_def)
  have "wp (bind (for_each (search_for (ai_family hints) h h)
      (search_body (length (search_for (ai_family hints) h h)) (Some h) hints) ([], None)) (\<lambda>v. case v of
        Inr (ais, e) \<Rightarrow> bad ais e
      | Inl (ais, canon) \<Rightarrow> finish (Some h) (Some s) hints (search_for (ai_family hints) h h) ais canon))
    (safe ?Q) w"
    by (rule safe_bind [OF wp_numeric_search [OF num(1,2) family own]])
      (auto simp: bad split: sum.splits intro: wp_numeric_finish [OF _ _ digits no])
  then show ?thesis
    using ok not_unix search
    by (simp del: wp_bind add: getaddrinfo_def rejected_def Let_def bind_ret)
qed

text \<open>C3: Round trip.  The names that \<open>getnameinfo\<close> gives for an Internet address when asked for
  numeric ones are read back by \<open>getaddrinfo\<close> as this address and port: one entry of the
  socket type of the hints, or one for streams and one for datagrams when there is none;
  only the allocator can make it fail.  The scope of an IPv6 address is not in the text, so it
  is 0 here.\<close>

theorem numeric_name_roundtrip:
  assumes "sa = SaIn p a \<and> length a = 4 \<or> sa = SaIn6 p a 0 \<and> length a = 16"
    and "46 \<le> hostlen" "6 \<le> servlen" "flags AND NI_NUMERICHOST \<noteq> 0" "flags AND NI_NUMERICSERV \<noteq> 0"
    and "ai_family hints = AF_UNSPEC \<or> ai_family hints = sa_family sa"
    and "ai_flags hints = 0 \<or> ai_flags hints = AI_PASSIVE"
    and "ai_socktype hints \<in> {0, SOCK_STREAM, SOCK_DGRAM, SOCK_RAW}"
  shows "\<exists>h s. getnameinfo sa hostlen servlen flags = ret (0, Some h, Some s) \<and>
    wp (getaddrinfo (Some h) (Some s) (Some hints)) (safe (\<lambda>(rc, res) w'. case res of
        None \<Rightarrow> rc = EAI_MEMORY
      | Some ais \<Rightarrow> rc = 0 \<and> map view ais = answer_views hints (sa_family sa) sa)) w"
proof -
  define fam where "fam = sa_family sa"
  define h where "h = (if fam = AF_INET then dotted a else text6 a)"
  define s where "s = dec (unat (ntohs p))"
  have six: "AF_INET \<noteq> AF_INET6" by (simp add: AF_INET_def AF_INET6_def)
  have num: "numeric_host h = Some (fam, a)" and len: "inet_len fam (length a)"
    and addr: "inet_ntop fam a hostlen = Inr h"
    and restored: "sock_set_port (zero_port fam a) (uint (htons (of_int (atoi s)))) = sa"
    using assms(1,2) six numeric_host_dotted numeric_host_text6 port_text [of p] inet_ntop_text
    by (auto simp: fam_def h_def s_def inet_len_def zero_port_def)
  have ne: "h \<noteq> []" using num by (auto simp: numeric_host_def starts_with_def split: option.splits)
  have short: "take (servlen - 1) s = s"
    using assms(3) length_dec_5 [of "unat (ntohs p)"] unat_word16 [of "ntohs p"]
    by (simp add: s_def)
  have "getnameinfo sa hostlen servlen flags = gn_ipv46 hostlen servlen a fam p flags"
    using assms(1) by (auto simp: fam_def)
  also have "\<dots> = ret (0, Some h, Some s)"
    using assms(2-5) addr short
    by (simp add: gn_ipv46_def gn_host_def gn_numeric_def gn_serv_def bind_ret s_def [symmetric])
  finally have name: "getnameinfo sa hostlen servlen flags = ret (0, Some h, Some s)" .
  have ok: "rejected (Some h) (Some s) hints = 0"
  proof -
    have "ai_flags hints AND NOT (AI_PASSIVE OR AI_CANONNAME) = 0"
      using assms(7) by (elim disjE) (simp_all add: AI_PASSIVE_def AI_CANONNAME_def)
    moreover have "ai_family hints = AF_UNSPEC \<or> ai_family hints = AF_INET \<or> ai_family hints = AF_INET6"
      using assms(1,6) by (elim disjE conjE) simp_all
    ultimately show ?thesis
      using assms(8) ne unfolding rejected_def ga_echeck_def empty_name_def
      by (elim disjE insertE emptyE) simp_all
  qed
  have "ai_flags hints AND AI_CANONNAME = 0"
    using assms(7) by (auto simp: AI_PASSIVE_def AI_CANONNAME_def)
  moreover have "starts_with isdigit s"
    using starts_with_dec [of _ "[]"] by (simp add: s_def)
  ultimately have "wp (getaddrinfo (Some h) (Some s) (Some hints)) (safe (\<lambda>(rc, res) w'. case res of
        None \<Rightarrow> rc = EAI_MEMORY
      | Some ais \<Rightarrow> rc = 0 \<and> map view ais = answer_views hints (sa_family sa) sa)) w"
    using getaddrinfo_numeric [OF num len ne, of s hints w, unfolded restored] assms(6) ok
    unfolding fam_def [symmetric] by blast
  with name show ?thesis by blast
qed

theorem numeric_name_roundtrip_witness:
  "\<exists>h s. getnameinfo (SaIn6 80 (replicate 15 0 @ [1]) 0) 46 6 10 = ret (0, Some h, Some s) \<and>
    wp (getaddrinfo (Some h) (Some s) (Some no_hints)) (safe (\<lambda>(rc, res) w'. case res of
        None \<Rightarrow> rc = EAI_MEMORY
      | Some ais \<Rightarrow> rc = 0 \<and> map view ais =
          answer_views no_hints (sa_family (SaIn6 80 (replicate 15 0 @ [1]) 0)) (SaIn6 80 (replicate 15 0 @ [1]) 0)))
      (start [ok 100, ok 101, ok 102, ok 103])"
  by (rule numeric_name_roundtrip [where p = 80 and a = "replicate 15 0 @ [1]"])
    (simp_all add: no_hints_def NI_NUMERICHOST_def NI_NUMERICSERV_def AF_UNSPEC_def)

end
