(* ===== verification/Icmp.thy ===== *)
theory Icmp
  imports Cksum Connect
begin

text \<open>
  Packets as bytes: the layout of the IPv4, IPv6, ICMP and UDP headers that ping and icmpd read
  through structures, on the little-endian machine with 64-bit \<open>long\<close>, so that a
  \<open>struct timeval\<close> takes 16 bytes.
\<close>

unbundle bit_operations_syntax

definition IPPROTO_ICMP :: int where "IPPROTO_ICMP = 1"
definition IPPROTO_UDP :: int where "IPPROTO_UDP = 17"
definition IPPROTO_ICMPV6 :: int where "IPPROTO_ICMPV6 = 58"

definition ICMP_ECHOREPLY :: nat where "ICMP_ECHOREPLY = 0"
definition ICMP_UNREACH :: nat where "ICMP_UNREACH = 3"
definition ICMP_SOURCEQUENCH :: nat where "ICMP_SOURCEQUENCH = 4"
definition ICMP_ECHO :: nat where "ICMP_ECHO = 8"
definition ICMP_TIMXCEED :: nat where "ICMP_TIMXCEED = 11"
definition ICMP_UNREACH_PORT :: nat where "ICMP_UNREACH_PORT = 3"
definition ICMP_UNREACH_NEEDFRAG :: nat where "ICMP_UNREACH_NEEDFRAG = 4"
definition ICMP6_DST_UNREACH :: nat where "ICMP6_DST_UNREACH = 1"
definition ICMP6_PACKET_TOO_BIG :: nat where "ICMP6_PACKET_TOO_BIG = 2"
definition ICMP6_TIME_EXCEEDED :: nat where "ICMP6_TIME_EXCEEDED = 3"
definition ICMP6_DST_UNREACH_NOPORT :: nat where "ICMP6_DST_UNREACH_NOPORT = 4"
definition ICMP6_ECHO_REQUEST :: nat where "ICMP6_ECHO_REQUEST = 128"
definition ICMP6_ECHO_REPLY :: nat where "ICMP6_ECHO_REPLY = 129"

subsection \<open>Bytes\<close>

definition chars :: "8 word list \<Rightarrow> string" where
  "chars bs = map (\<lambda>b. char_of (unat b)) bs"

definition bytes :: "string \<Rightarrow> 8 word list" where
  "bytes s = map of_char s"

lemma bytes_chars [simp]: "bytes (chars bs) = bs"
proof -
  have "of_char (char_of (unat b) :: char) = b" for b :: "8 word"
  proof -
    have "(of_char (char_of (unat b) :: char) :: nat) = unat b"
      using unat_byte [of b] by (simp add: of_char_of)
    then have "of_nat (of_char (char_of (unat b) :: char)) = (of_nat (unat b) :: 8 word)"
      by (rule arg_cong)
    then show ?thesis by (simp only: of_nat_of_char of_nat_unat ucast_id)
  qed
  then show ?thesis by (simp add: bytes_def chars_def comp_def)
qed

lemma length_bytes [simp]: "length (bytes s) = length s" and length_chars [simp]: "length (chars bs) = length bs"
  by (simp_all add: bytes_def chars_def)

definition byte_at :: "8 word list \<Rightarrow> nat \<Rightarrow> nat" where
  "byte_at bs i = unat (bs ! i)"

definition half_at :: "8 word list \<Rightarrow> nat \<Rightarrow> 16 word" where
  \<comment> \<open>a 16-bit member, as the machine reads it\<close>
  "half_at bs i = mk_word16 (bs ! Suc i) (bs ! i)"

definition half_bytes :: "16 word \<Rightarrow> 8 word list" where
  "half_bytes v = [lo_byte v, hi_byte v]"

fun le_nat :: "8 word list \<Rightarrow> nat" where
  "le_nat [] = 0"
| "le_nat (b # bs) = unat b + 256 * le_nat bs"

fun le_bytes :: "nat \<Rightarrow> int \<Rightarrow> 8 word list" where
  "le_bytes 0 v = []"
| "le_bytes (Suc n) v = of_int v # le_bytes n (v div 256)"

definition signed_val :: "nat \<Rightarrow> nat \<Rightarrow> int" where
  \<comment> \<open>the two's complement value of \<open>n\<close> bits\<close>
  "signed_val n v = (if v < 2 ^ (n - 1) then int v else int v - 2 ^ n)"

definition fits_signed :: "nat \<Rightarrow> int \<Rightarrow> bool" where
  "fits_signed n v \<longleftrightarrow> - (2 ^ (n - 1)) \<le> v \<and> v < 2 ^ (n - 1)"

lemma half_at_bytes: "half_at (xs @ half_bytes v @ ys) (length xs) = v"
  by (simp add: half_at_def half_bytes_def nth_append)

lemma length_le_bytes [simp]: "length (le_bytes n v) = n"
  by (induction n arbitrary: v) simp_all

lemma le_nat_le_bytes: "int (le_nat (le_bytes n v)) = v mod 256 ^ n"
proof (induction n arbitrary: v)
  case (Suc n)
  have "int (unat (of_int v :: 8 word)) = v mod 256"
    by (simp add: unsigned_of_int take_bit_eq_mod)
  moreover have "v mod 256 + 256 * (v div 256 mod 256 ^ n) = v mod (256 * 256 ^ n)"
    by (simp add: zmod_zmult2_eq)
  ultimately show ?case using Suc by simp
qed simp

lemma signed_mod:
  assumes "fits_signed n v" "0 < n"
  shows "signed_val n (nat (v mod 2 ^ n)) = v"
proof -
  have two: "(2 :: int) ^ n = 2 * 2 ^ (n - 1)"
    using assms(2) by (cases n) simp_all
  show ?thesis
  proof (cases "0 \<le> v")
    case True
    then have "v mod 2 ^ n = v" using assms(1) two by (simp add: fits_signed_def)
    then show ?thesis using True assms(1) by (simp add: signed_val_def fits_signed_def nat_less_iff)
  next
    case False
    have "v mod 2 ^ n = (v + 2 ^ n) mod 2 ^ n" by simp
    also have "\<dots> = v + 2 ^ n"
      using False assms(1) two by (intro mod_pos_pos_trivial) (simp_all add: fits_signed_def)
    finally have "v mod 2 ^ n = v + 2 ^ n" .
    then show ?thesis
      using False assms(1) two by (simp add: signed_val_def fits_signed_def nat_less_iff)
  qed
qed

lemma signed_le_bytes:
  assumes "fits_signed (8 * n) v" "0 < n"
  shows "signed_val (8 * n) (le_nat (le_bytes n v)) = v"
proof -
  have "(256 :: int) ^ n = 2 ^ (8 * n)" by (simp add: power_mult)
  then have "le_nat (le_bytes n v) = nat (v mod 2 ^ (8 * n))"
    using le_nat_le_bytes [of n v] by (metis nat_int)
  then show ?thesis using signed_mod [OF assms(1)] assms(2) by simp
qed

subsection \<open>Times\<close>

text \<open>
  A \<open>struct timeval\<close> is eight bytes of seconds, four of microseconds and four of padding.
  \<open>tv_sub\<close> of lib/tv_sub.c gives \<open>None\<close> when a subtraction overflows, which C leaves undefined.
\<close>

definition timeval_bytes :: "int \<times> int \<Rightarrow> 8 word list" where
  \<comment> \<open>the members that \<open>gettimeofday\<close> stores\<close>
  "timeval_bytes tv = le_bytes 8 (fst tv) @ le_bytes 4 (snd tv)"

definition timeval_at :: "8 word list \<Rightarrow> int \<times> int" where
  "timeval_at bs = (signed_val 64 (le_nat (take 8 bs)), signed_val 32 (le_nat (take 4 (drop 8 bs))))"

definition tv_sub :: "int \<times> int \<Rightarrow> int \<times> int \<Rightarrow> (int \<times> int) option" where
  "tv_sub out inn =
     (let u = snd out - snd inn;
          (s, u') = (if u < 0 then (fst out - 1, u + 1000000) else (fst out, u))
      in if fits_signed 32 u \<and> fits_signed 64 s \<and> fits_signed 64 (s - fst inn)
         then Some (s - fst inn, u') else None)"

definition tv_ok :: "int \<times> int \<Rightarrow> bool" where
  \<comment> \<open>a time the system gives: not before 1970, normalised\<close>
  "tv_ok tv \<longleftrightarrow> 0 \<le> fst tv \<and> fst tv < 2 ^ 62 \<and> 0 \<le> snd tv \<and> snd tv < 1000000"

definition usecs :: "int \<times> int \<Rightarrow> int" where
  "usecs tv = 1000000 * fst tv + snd tv"

lemma timeval_at_bytes: "tv_ok tv \<Longrightarrow> timeval_at (timeval_bytes tv @ rest) = tv"
  using signed_le_bytes [of 8 "fst tv"] signed_le_bytes [of 4 "snd tv"]
  by (cases tv) (simp add: timeval_at_def timeval_bytes_def tv_ok_def fits_signed_def)

lemma tv_sub_ok:
  assumes "tv_ok a" "tv_ok b"
  shows "\<exists>d. tv_sub a b = Some d \<and> usecs d = usecs a - usecs b \<and> 0 \<le> snd d \<and> snd d < 1000000"
  using assms
  by (auto simp: tv_sub_def Let_def tv_ok_def usecs_def fits_signed_def)

subsection \<open>Printing\<close>

definition Printf :: "string \<Rightarrow> unit io" where
  "Printf s = say (SysPut STDOUT_FILENO s)"

lemma wp_Printf [simp]: "wp (Printf s) Q w = Q (Val ()) (said (SysPut STDOUT_FILENO s) w)"
  by (simp add: Printf_def)

lemma shrinks_printing [eating]: "shrinks (Printf s)" "shrinks (Sock_ntop_host sa n)"
  unfolding Printf_def Sock_ntop_host_def by (intro eating)+

end
