(* ===== verification/Double.thy ===== *)
theory Double
  imports Complex_Main "HOL-Library.Log_Nat"
begin

text \<open>
  The C type \<open>double\<close>, as far as the sources compute with it: the value of a finite double is a
  rational number, and every operation is the exact one followed by \<open>dbl\<close>, the rounding to 53
  significant bits, to nearest, ties to even (IEEE 754 binary64, evaluated without excess
  precision).  Overflow, subnormal numbers, infinities and NaNs are left out: a value that is
  rounded here is 0 or lies between \<open>10 ^ -6\<close> and \<open>10 ^ 30\<close> in absolute value.

  Proved here: \<open>dbl\<close> is exact on integers below \<open>2 ^ 53\<close> and has a relative error of at most
  \<open>2 ^ -53\<close>; \<open>%.3f\<close> of a double close enough to a number of thousandths prints that number.
\<close>

subsection \<open>Rounding to an integer\<close>

definition rne :: "rat \<Rightarrow> int" where
  \<comment> \<open>to nearest, ties to even\<close>
  "rne y =
     (let f = \<lfloor>y\<rfloor>; r = y - of_int f in
      if r < 1 / 2 \<or> r = 1 / 2 \<and> even f then f else f + 1)"

lemma rne_error: "\<bar>of_int (rne y) - y\<bar> \<le> 1 / 2"
proof -
  have "of_int \<lfloor>y\<rfloor> \<le> y" "y < of_int \<lfloor>y\<rfloor> + 1" by linarith+
  then show ?thesis by (auto simp: rne_def Let_def abs_le_iff)
qed

lemma rne_unique: "\<bar>y - of_int n\<bar> < 1 / 2 \<Longrightarrow> rne y = n"
proof -
  assume "\<bar>y - of_int n\<bar> < 1 / 2"
  with rne_error [of y] have "\<bar>of_int (rne y) - of_int n :: rat\<bar> < 1" by linarith
  then have "of_int \<bar>rne y - n\<bar> < (1 :: rat)" by simp
  then have "\<bar>rne y - n\<bar> < 1" using of_int_less_1_iff by blast
  then show ?thesis by simp
qed

lemma rne_of_int [simp]: "rne (of_int n) = n"
  by (rule rne_unique) simp

subsection \<open>Rounding to a double\<close>

definition expo :: "rat \<Rightarrow> int" where
  \<comment> \<open>the exponent of the first significant bit\<close>
  "expo x =
     (let (n, d) = quotient_of \<bar>x\<bar>; k = bitlen n - bitlen d in
      if 2 powi k \<le> \<bar>x\<bar> then k else k - 1)"

definition dbl :: "rat \<Rightarrow> rat" where
  "dbl x = (if x = 0 then 0 else let ulp = 2 powi (expo x - 52) in of_int (rne (x / ulp)) * ulp)"

lemma bitlen_powi:
  assumes "0 < n"
  shows "2 powi (bitlen n - 1) \<le> (of_int n :: rat)" "(of_int n :: rat) < 2 powi bitlen n"
proof -
  have b: "2 ^ nat (bitlen n - 1) \<le> n" "n < 2 ^ nat (bitlen n)"
    using bitlen_bounds [OF assms] by simp_all
  have "0 < floorlog 2 (nat n)" using assms by (simp add: floorlog_def)
  then have pos: "0 < bitlen n" by (simp add: bitlen_def)
  have "(2 :: rat) powi (bitlen n - 1) = of_int (2 ^ nat (bitlen n - 1))"
    "(2 :: rat) powi bitlen n = of_int (2 ^ nat (bitlen n))"
    using pos by (simp_all add: power_int_def)
  then show "2 powi (bitlen n - 1) \<le> (of_int n :: rat)" "(of_int n :: rat) < 2 powi bitlen n"
    using b by (simp_all only: of_int_le_iff of_int_less_iff)
qed

lemma expo:
  assumes "x \<noteq> 0"
  shows "2 powi expo x \<le> \<bar>x\<bar>" "\<bar>x\<bar> < 2 powi (expo x + 1)"
proof -
  obtain n d where q: "quotient_of \<bar>x\<bar> = (n, d)" by (cases "quotient_of \<bar>x\<bar>")
  have d: "0 < d" and x: "\<bar>x\<bar> = of_int n / of_int d"
    using quotient_of_denom_pos [OF q] quotient_of_div [OF q] by auto
  have n: "0 < n"
    using assms d x by (metis abs_le_zero_iff divide_le_0_iff of_int_0_le_iff of_int_le_0_iff not_less order.strict_iff_order)
  have up: "\<bar>x\<bar> < 2 powi (bitlen n - bitlen d + 1)"
  proof -
    have "\<bar>x\<bar> < 2 powi bitlen n / 2 powi (bitlen d - 1)"
      unfolding x using bitlen_powi [OF n] bitlen_powi [OF d] d n
      by (intro frac_less) simp_all
    also have "\<dots> = 2 powi (bitlen n - bitlen d + 1)"
      by (simp add: power_int_diff power_int_add)
    finally show ?thesis .
  qed
  have low: "2 powi (bitlen n - bitlen d - 1) \<le> \<bar>x\<bar>"
  proof -
    have "2 powi (bitlen n - bitlen d - 1) = 2 powi (bitlen n - 1) / (2 powi bitlen d :: rat)"
      by (simp add: power_int_diff)
    also have "\<dots> \<le> \<bar>x\<bar>"
      unfolding x using bitlen_powi [OF n] bitlen_powi [OF d] d n
      by (intro frac_le) simp_all
    finally show ?thesis .
  qed
  show "2 powi expo x \<le> \<bar>x\<bar>" "\<bar>x\<bar> < 2 powi (expo x + 1)"
    using up low by (auto simp: expo_def q Let_def)
qed

lemma dbl_0 [simp]: "dbl 0 = 0"
  by (simp add: dbl_def)

lemma dbl_error: "\<bar>dbl x - x\<bar> \<le> \<bar>x\<bar> / 2 ^ 53"
proof (cases "x = 0")
  case False
  define ulp :: rat where "ulp = 2 powi (expo x - 52)"
  have ulp: "0 < ulp" by (simp add: ulp_def)
  have "2 powi expo x = ulp * (2 powi 52 :: rat)"
    by (simp add: ulp_def power_int_diff)
  then have "2 powi expo x = ulp * (2 ^ 52 :: rat)"
    by (simp add: power_int_def)
  then have "ulp * 2 ^ 52 \<le> \<bar>x\<bar>" using expo(1) [OF False] by simp
  then have small: "ulp / 2 \<le> \<bar>x\<bar> / 2 ^ 53" by (simp add: field_simps)
  have "dbl x - x = (of_int (rne (x / ulp)) - x / ulp) * ulp"
    using False ulp by (simp add: dbl_def ulp_def Let_def field_simps)
  then have "\<bar>dbl x - x\<bar> = \<bar>of_int (rne (x / ulp)) - x / ulp\<bar> * ulp"
    using ulp by (simp add: abs_mult)
  also have "\<dots> \<le> 1 / 2 * ulp"
    using ulp rne_error by (intro mult_right_mono) simp_all
  finally show ?thesis using small by simp
qed simp

lemma dbl_of_int:
  assumes "\<bar>n\<bar> < 2 ^ 53"
  shows "dbl (of_int n) = of_int n"
proof (cases "n = 0")
  case False
  define x :: rat where "x = of_int n"
  have x: "x \<noteq> 0" using False by (simp add: x_def)
  have "\<bar>x\<bar> < 2 ^ 53" using assms by (simp add: x_def flip: of_int_abs)
  then have "2 powi expo x < (2 powi 53 :: rat)"
    using expo(1) [OF x] by (simp add: power_int_def)
  then have e: "expo x \<le> 52"
    using power_int_increasing [of 53 "expo x" "2 :: rat"] by fastforce
  have "(2 :: rat) powi (expo x - 52) = inverse (2 ^ nat (52 - expo x))"
    using e by (cases "expo x = 52") (simp_all add: power_int_def power_one_over field_simps)
  then have "x / 2 powi (expo x - 52) = of_int (n * 2 ^ nat (52 - expo x))"
    unfolding divide_inverse by (simp add: x_def)
  then have "rne (x / 2 powi (expo x - 52)) = n * 2 ^ nat (52 - expo x)"
    by (simp only: rne_of_int)
  then have "dbl x = of_int (n * 2 ^ nat (52 - expo x)) * 2 powi (expo x - 52)"
    using x by (simp add: dbl_def Let_def)
  also have "\<dots> = x"
    unfolding \<open>x / 2 powi (expo x - 52) = of_int (n * 2 ^ nat (52 - expo x))\<close> [symmetric] by simp
  finally show ?thesis by (simp add: x_def)
qed simp

subsection \<open>The conversion %.3f\<close>

text \<open>The number of thousandths that \<open>%.3f\<close> prints for the absolute value of a double.\<close>

definition thousandths :: "rat \<Rightarrow> nat" where
  "thousandths x = nat (rne (\<bar>x\<bar> * 1000))"

lemma thousandths_close:
  assumes "\<bar>x - of_int n / 1000\<bar> < 1 / 2000"
  shows "thousandths x = nat \<bar>n\<bar>" and "n \<noteq> 0 \<Longrightarrow> x < 0 \<longleftrightarrow> n < 0"
proof -
  have "\<bar>\<bar>x\<bar> * 1000 - of_int \<bar>n\<bar>\<bar> < (1 / 2 :: rat)"
    using assms by (auto simp: abs_less_iff abs_if split: if_splits)
  then have "rne (\<bar>x\<bar> * 1000) = \<bar>n\<bar>" by (rule rne_unique)
  then show "thousandths x = nat \<bar>n\<bar>" by (simp add: thousandths_def)
  assume "n \<noteq> 0"
  then have "n \<le> - 1 \<or> 1 \<le> n" by linarith
  then have "(of_int n :: rat) \<le> - 1 \<or> 1 \<le> (of_int n :: rat)" by fastforce
  then show "x < 0 \<longleftrightarrow> n < 0" using assms by linarith
qed

text \<open>
  \<open>s * 1000.0 + u / 1000.0\<close>, the milliseconds in a \<open>timeval\<close>: the rounding errors stay below half
  of the last digit printed while the time is below \<open>2 ^ 32\<close> seconds.
\<close>

definition millisecs :: "int \<times> int \<Rightarrow> rat" where
  "millisecs = (\<lambda>(s, u). dbl (dbl (dbl (of_int s) * 1000) + dbl (dbl (of_int u) / 1000)))"

lemma millisecs_close:
  assumes "- (2 ^ 32) \<le> s" "s < 2 ^ 32" "0 \<le> u" "u < 1000000"
  shows "\<bar>millisecs (s, u) - of_int (s * 1000000 + u) / 1000\<bar> < 1 / 2000"
proof -
  define a b :: rat where "a = of_int s * 1000" and "b = dbl (of_int u / 1000)"
  have "dbl (of_int s) = of_int s" "dbl (of_int u) = of_int u"
    using assms by (intro dbl_of_int; simp)+
  moreover have "dbl a = a"
    using dbl_of_int [of "s * 1000"] assms by (simp add: a_def)
  ultimately have m: "millisecs (s, u) = dbl (a + b)"
    by (simp add: millisecs_def a_def b_def)
  have s: "- (2 ^ 32) \<le> (of_int s :: rat)" "(of_int s :: rat) \<le> 2 ^ 32"
    using assms by simp_all
  have u: "0 \<le> (of_int u :: rat)" "(of_int u :: rat) \<le> 1000000"
    using assms by simp_all
  have eb: "\<bar>b - of_int u / 1000\<bar> \<le> 1000 / 2 ^ 53"
    using dbl_error [of "of_int u / 1000"] u unfolding b_def by (simp add: abs_le_iff)
  have "\<bar>b - of_int u / 1000\<bar> \<le> 1"
    using eb by (rule order_trans) simp
  then have "0 - 1 \<le> b" "b \<le> 1001"
    using u by linarith+
  then have ab: "\<bar>a + b\<bar> \<le> 2 ^ 32 * 1000 + 1001"
    using s unfolding a_def by (simp add: abs_le_iff)
  have "\<bar>dbl (a + b) - (a + b)\<bar> \<le> (2 ^ 32 * 1000 + 1001) / 2 ^ 53"
    by (rule order_trans [OF dbl_error]) (use ab in \<open>simp add: divide_right_mono\<close>)
  moreover have "a + of_int u / 1000 = of_int (s * 1000000 + u) / 1000"
    by (simp add: a_def)
  ultimately have "\<bar>dbl (a + b) - of_int (s * 1000000 + u) / 1000\<bar> \<le>
      (2 ^ 32 * 1000 + 1001) / 2 ^ 53 + 1000 / 2 ^ 53"
    using eb by linarith
  also have "\<dots> < 1 / 2000" by simp
  finally show ?thesis by (simp only: m)
qed

lemma millisecs_0: "millisecs (0, 0) = 0"
  by (simp add: millisecs_def)

end
