(* ===== verification/Ping.thy ===== *)
theory Ping
  imports Icmp Double
begin

text \<open>
  The ping program: ping/main.c, readloop.c, proc_v4.c, proc_v6.c, send_v4.c, send_v6.c,
  sig_alrm.c, init_v6.c and lib/tv_sub.c.

  The handler of \<open>SIGALRM\<close> sends the next request.  The model runs it when the signal comes during
  \<open>recvmsg\<close>, which the answer of that call says; a call that fails with \<open>EINTR\<close> is repeated, whatever
  the signal was.  The buffer \<open>recvbuf\<close> is the list of its
  bytes, of which a packet overwrites the first ones.

  The round-trip time is computed in \<open>double\<close>s, with their rounding (theory Double).

  Proved here: the reply to an own request prints the length, sequence number, TTL and the
  exact time between sending and receiving, when it is below \<open>2 ^ 32\<close> seconds, other replies are
  ignored; all requests sent are
  echo requests with consecutive numbers and a checksum that verifies.  On a machine with
  64-bit times the length check is too weak.
\<close>

unbundle bit_operations_syntax

subsection \<open>State\<close>

definition BUFSIZE :: nat where "BUFSIZE = 1500"
definition datalen :: nat where "datalen = 56"
definition IPV6_HOPLIMIT :: int where "IPV6_HOPLIMIT = 20"
definition ICMP6_FILTER :: int where "ICMP6_FILTER = 18"

record ping =
  v6 :: bool \<comment> \<open>\<open>pr == &proto_v6\<close>\<close>
  pid :: "16 word"
  verbose :: int
  sasend :: sockaddr
  sarecv :: sockaddr \<comment> \<open>filled in by \<open>recvmsg\<close>\<close>
  salen :: nat
  sockfd :: int

text \<open>A number of thousandths with its point; \<open>%.3f\<close> of a \<open>double\<close>.\<close>

definition three_places :: "bool \<Rightarrow> nat \<Rightarrow> string" where
  "three_places neg a =
     (let f = dec (a mod 1000) in
      (if neg then ''-'' else '''') @ dec (a div 1000) @ ''.'' @ replicate (3 - length f) CHR ''0'' @ f)"

definition msecs :: "rat \<Rightarrow> string" where
  "msecs rtt = three_places (rtt < 0) (thousandths rtt)"

subsection \<open>proc_v4.c, proc_v6.c\<close>

text \<open>The time to print, from the time of reception and the data of the packet.\<close>

definition rtt_of :: "int \<times> int \<Rightarrow> 8 word list \<Rightarrow> rat io" where
  "rtt_of tvrecv tvsend =
     (case tv_sub tvrecv (timeval_at tvsend) of
        None \<Rightarrow> undef
      | Some tv \<Rightarrow> ret (millisecs tv))"

definition proc_v4 :: "ping \<Rightarrow> 8 word list \<Rightarrow> int \<Rightarrow> int \<times> int \<Rightarrow> unit io" where
  "proc_v4 p ptr len tvrecv =
     (let hlen1 = 4 * (byte_at ptr 0 mod 16);
          icmplen = len - int hlen1;
          icmp = drop hlen1 ptr in
      if int (byte_at ptr 9) \<noteq> IPPROTO_ICMP then ret () \<comment> \<open>not ICMP\<close>
      else if icmplen < 8 then ret () \<comment> \<open>malformed packet\<close>
      else if byte_at icmp 0 = ICMP_ECHOREPLY then
        if half_at icmp 4 \<noteq> pid p then ret ()
        else if icmplen < 16 then ret () \<comment> \<open>not enough data to use\<close>
        else bind (rtt_of tvrecv (drop 8 icmp)) (\<lambda>rtt.
          bind (Sock_ntop_host (sarecv p) (salen p)) (\<lambda>h.
          Printf (dec_int icmplen @ '' bytes from '' @ h @ '': seq='' @ dec (unat (half_at icmp 6)) @
            '', ttl='' @ dec (byte_at ptr 8) @ '', rtt='' @ msecs rtt @ '' ms'' @ [newline])))
      else if verbose p \<noteq> 0 then
        bind (Sock_ntop_host (sarecv p) (salen p)) (\<lambda>h.
        Printf (''  '' @ dec_int icmplen @ '' bytes from '' @ h @ '': type = '' @ dec (byte_at icmp 0) @
          '', code = '' @ dec (byte_at icmp 1) @ [newline]))
      else ret ())"

text \<open>The control messages: level, type and value of each.\<close>

fun find_hlim :: "int list \<Rightarrow> int" where
  "find_hlim (level # ty # v # cmsgs) =
     (if level = IPPROTO_IPV6 \<and> ty = IPV6_HOPLIMIT then v else find_hlim cmsgs)"
| "find_hlim _ = - 1"

definition proc_v6 :: "ping \<Rightarrow> 8 word list \<Rightarrow> int \<Rightarrow> int list \<Rightarrow> int \<times> int \<Rightarrow> unit io" where
  "proc_v6 p ptr len msg tvrecv =
     (if len < 8 then ret () \<comment> \<open>malformed packet\<close>
      else if byte_at ptr 0 = ICMP6_ECHO_REPLY then
        if half_at ptr 4 \<noteq> pid p then ret ()
        else if len < 16 then ret ()
        else bind (rtt_of tvrecv (drop 8 ptr)) (\<lambda>rtt.
          let hlim = find_hlim msg in
          bind (Sock_ntop_host (sarecv p) (salen p)) (\<lambda>h.
          seq (Printf (dec_int len @ '' bytes from '' @ h @ '': seq='' @ dec (unat (half_at ptr 6)) @ '', hlim=''))
         (seq (Printf (if hlim = - 1 then ''???'' else dec_int hlim))
           (Printf ('', rtt='' @ msecs rtt @ '' ms'' @ [newline])))))
      else if verbose p \<noteq> 0 then
        bind (Sock_ntop_host (sarecv p) (salen p)) (\<lambda>h.
        Printf (''  '' @ dec_int len @ '' bytes from '' @ h @ '': type = '' @ dec (byte_at ptr 0) @
          '', code = '' @ dec (byte_at ptr 1) @ [newline]))
      else ret ())"

subsection \<open>send_v4.c, send_v6.c, sig_alrm.c\<close>

text \<open>
  The packet in \<open>sendbuf\<close>: header, pattern, and the time over the first bytes of the pattern.
  The value returned is the new \<open>nsent\<close>.
\<close>

definition echo_data :: "int \<times> int \<Rightarrow> 8 word list" where
  "echo_data tv = timeval_bytes tv @ replicate (datalen - 12) 0xa5"

definition echo_request :: "16 word \<Rightarrow> nat \<Rightarrow> int \<times> int \<Rightarrow> 8 word list" where
  "echo_request ident nsent tv =
     (let rest = half_bytes ident @ half_bytes (of_nat nsent) @ echo_data tv;
          icmp_cksum = in_cksum ([of_nat ICMP_ECHO, 0] @ [0, 0] @ rest)
      in [of_nat ICMP_ECHO, 0] @ half_bytes icmp_cksum @ rest)"

definition send_v4 :: "ping \<Rightarrow> nat \<Rightarrow> nat io" where
  "send_v4 p nsent =
     bind Gettimeofday (\<lambda>tv.
     seq (Sendto (sockfd p) (chars (echo_request (pid p) nsent tv)) 0 (sasend p))
       (ret (Suc nsent)))"

definition send_v6 :: "ping \<Rightarrow> nat \<Rightarrow> nat io" where
  \<comment> \<open>the kernel calculates and stores the checksum\<close>
  "send_v6 p nsent =
     bind Gettimeofday (\<lambda>tv.
     seq (Sendto (sockfd p) (chars ([of_nat ICMP6_ECHO_REQUEST, 0] @ [0, 0] @ half_bytes (pid p) @
         half_bytes (of_nat nsent) @ echo_data tv)) 0 (sasend p))
       (ret (Suc nsent)))"

definition sig_alrm :: "ping \<Rightarrow> nat \<Rightarrow> nat io" where
  "sig_alrm p nsent =
     bind (if v6 p then send_v6 p nsent else send_v4 p nsent) (\<lambda>nsent.
     seq (call (SysOther ''alarm'' [1] [])) (ret nsent))"

subsection \<open>readloop.c, init_v6.c, main.c\<close>

text \<open>
  The handler: the answer of \<open>recvmsg\<close> says with \<open>r_num = SIGALRM\<close> that the signal has come during the
  call.  The handler returns before \<open>errno\<close> of the call is stored.
\<close>

definition caught :: "ping \<Rightarrow> sysret \<Rightarrow> nat \<Rightarrow> nat io" where
  "caught p r nsent = (if r_num r = SIGALRM then sig_alrm p nsent else ret nsent)"

definition readloop_body :: "ping \<Rightarrow> nat \<times> 8 word list \<Rightarrow> ((nat \<times> 8 word list) + unit) io" where
  "readloop_body p = (\<lambda>(nsent, recvbuf).
     bind (sys (SysRecvmsg (sockfd p) BUFSIZE 0)) (\<lambda>r.
     if r_val r < 0 then
       bind (caught p r nsent) (\<lambda>nsent.
       seq (set_errno (r_err r))
         (if r_err r = EINTR then again (nsent, recvbuf) else err_sys ''recvmsg error''))
     else
       bind (caught p r nsent) (\<lambda>nsent.
       let recvbuf = bytes (r_data r) @ drop (length (r_data r)) recvbuf;
           p = p\<lparr>sarecv := r_addr r\<rparr> in
       bind Gettimeofday (\<lambda>tval.
       seq (if v6 p then proc_v6 p recvbuf (r_val r) (r_rset r) tval
            else proc_v4 p recvbuf (r_val r) tval)
         (again (nsent, recvbuf))))))"

definition init_v6 :: "ping \<Rightarrow> unit io" where
  "init_v6 p =
     seq (only_if (verbose p = 0)
       (void (call (SysSetsockopt (sockfd p) IPPROTO_IPV6 ICMP6_FILTER (int ICMP6_ECHO_REPLY)))))
       (void (call (SysSetsockopt (sockfd p) IPPROTO_IPV6 IPV6_HOPLIMIT 1)))"

definition readloop :: "ping \<Rightarrow> 8 word list \<Rightarrow> unit io" where
  \<comment> \<open>\<open>recvbuf\<close> is not initialised\<close>
  "readloop p recvbuf =
     bind (Socket (sa_family (sasend p)) SOCK_RAW (if v6 p then IPPROTO_ICMPV6 else IPPROTO_ICMP)) (\<lambda>fd.
     let p = p\<lparr>sockfd := fd\<rparr> in
     seq (call (SysOther ''setuid'' [] []))
    (seq (only_if (v6 p) (init_v6 p))
    (seq (call (SysSetsockopt fd SOL_SOCKET SO_RCVBUF (60 * 1024)))
    (bind (sig_alrm p 0) (\<lambda>nsent. \<comment> \<open>send first packet\<close>
     loop (readloop_body p) (nsent, recvbuf))))))"

definition v4_mapped :: "sockaddr \<Rightarrow> bool" where
  "v4_mapped sa = (case sa of SaIn6 _ a _ \<Rightarrow> take 12 a = replicate 10 0 @ [0xff, 0xff] | _ \<Rightarrow> False)"

definition ping_main :: "int \<Rightarrow> string \<Rightarrow> 8 word list \<Rightarrow> unit io" where
  \<comment> \<open>after the options; \<open>verbosity\<close> is the number of \<open>-v\<close>\<close>
  "ping_main verbosity host recvbuf =
     bind (call (SysOther ''getpid'' [] [])) (\<lambda>id.
     seq (Signal SIGALRM ''sig_alrm'')
    (bind (Host_serv (Some host) None 0 0) (\<lambda>ais.
     case ais of
       [] \<Rightarrow> undef
     | ai # _ \<Rightarrow>
        bind (Sock_ntop_host (ai_addr ai) (sa_len (ai_addr ai))) (\<lambda>h.
        seq (Printf (''PING '' @ (case ai_canonname ai of Some c \<Rightarrow> c | None \<Rightarrow> h) @ '' ('' @ h @ ''): '' @
              dec datalen @ '' data bytes'' @ [newline]))
       (if ai_family ai = AF_INET \<or> ai_family ai = AF_INET6 then
          if ai_family ai = AF_INET6 \<and> v4_mapped (ai_addr ai) then
            err_quit ''cannot ping IPv4-mapped IPv6 address''
          else seq (Calloc 1 (int (sa_len (ai_addr ai))))
           (readloop \<lparr>v6 = (ai_family ai = AF_INET6), pid = of_int id, verbose = verbosity,
              sasend = ai_addr ai, sarecv = SaOther 0, salen = sa_len (ai_addr ai), sockfd = 0\<rparr> recvbuf)
        else err_quit (''unknown address family '' @ dec_int (ai_family ai)))))))"

subsection \<open>Own replies\<close>

text \<open>
  The reply to a request of \<open>send_v4\<close> as it is received: an IP header, the request with the type
  changed and any checksum, and whatever an earlier packet has left in the buffer.
\<close>

definition echo_reply :: "8 word list \<Rightarrow> 16 word \<Rightarrow> 16 word \<Rightarrow> nat \<Rightarrow> int \<times> int \<Rightarrow> 8 word list" where
  "echo_reply iphdr ck ident nsent tv =
     iphdr @ [of_nat ICMP_ECHOREPLY, 0] @ half_bytes ck @ half_bytes ident @ half_bytes (of_nat nsent) @ echo_data tv"

definition ip_header :: "8 word list \<Rightarrow> nat \<Rightarrow> bool" where
  \<comment> \<open>an IP header for ICMP, with options or without\<close>
  "ip_header iphdr ttl \<longleftrightarrow> length iphdr = 4 * (byte_at iphdr 0 mod 16) \<and> 20 \<le> length iphdr \<and>
     int (byte_at iphdr 9) = IPPROTO_ICMP \<and> byte_at iphdr 8 = ttl"

lemma byte_at_prefix: "i < length xs \<Longrightarrow> byte_at (xs @ ys) i = byte_at xs i"
  by (simp add: byte_at_def nth_append)

lemma length_timeval [simp]: "length (timeval_bytes tv) = 12"
  by (simp add: timeval_bytes_def)

lemma length_echo_data [simp]: "length (echo_data tv) = 56"
  by (simp add: echo_data_def datalen_def)

lemma half_bytes_simps [simp]: "length (half_bytes v) = 2"
  by (simp add: half_bytes_def)

lemma icmp_fields:
  "byte_at ([t, c] @ half_bytes ck @ half_bytes ident @ half_bytes sq @ d) 0 = unat t"
  "half_at ([t, c] @ half_bytes ck @ half_bytes ident @ half_bytes sq @ d) 4 = ident"
  "half_at ([t, c] @ half_bytes ck @ half_bytes ident @ half_bytes sq @ d) 6 = sq"
  "drop 8 ([t, c] @ half_bytes ck @ half_bytes ident @ half_bytes sq @ d) = d"
  by (simp_all add: byte_at_def half_at_def half_bytes_def)

text \<open>A number of microseconds as milliseconds, exactly.\<close>

definition exact_msecs :: "int \<Rightarrow> string" where
  "exact_msecs us = three_places (us < 0) (nat \<bar>us\<bar>)"

lemma msecs_millisecs:
  assumes "0 \<le> snd d" "snd d < 1000000" "\<bar>usecs d\<bar> < 2 ^ 32 * 1000000"
  shows "msecs (millisecs d) = exact_msecs (usecs d)"
proof -
  obtain s u where d: "d = (s, u)" by (cases d)
  have us: "usecs d = s * 1000000 + u" by (simp add: d usecs_def)
  have "\<bar>millisecs (s, u) - of_int (s * 1000000 + u) / 1000\<bar> < 1 / 2000"
    by (rule millisecs_close) (use assms us d in auto)
  note close = thousandths_close [OF this]
  show ?thesis
  proof (cases "s * 1000000 + u = 0")
    case True
    moreover have "0 \<le> u" "u < 1000000" using assms d by auto
    ultimately have "s = 0" by linarith
    with True have "u = 0" by simp
    have "rne 0 = 0" using rne_of_int [of 0] by simp
    with \<open>s = 0\<close> \<open>u = 0\<close> show ?thesis
      by (simp add: d usecs_def msecs_def exact_msecs_def millisecs_0 thousandths_def)
  next
    case False
    then show ?thesis
      unfolding us msecs_def exact_msecs_def using close by (simp add: d)
  qed
qed

lemma rtt_of_own:
  assumes "tv_ok now" "tv_ok tv" "\<bar>usecs now - usecs tv\<bar> < 2 ^ 32 * 1000000"
  obtains rtt where "rtt_of now (echo_data tv @ rest) = ret rtt"
    "msecs rtt = exact_msecs (usecs now - usecs tv)"
proof -
  obtain d where d: "tv_sub now tv = Some d" "usecs d = usecs now - usecs tv" "0 \<le> snd d" "snd d < 1000000"
    using tv_sub_ok [OF assms(1,2)] by blast
  have "timeval_at (echo_data tv @ rest) = tv"
    using timeval_at_bytes [OF assms(2)] by (simp add: echo_data_def)
  then have "rtt_of now (echo_data tv @ rest) = ret (millisecs d)"
    by (simp add: rtt_of_def d(1))
  moreover have "msecs (millisecs d) = exact_msecs (usecs now - usecs tv)"
    using msecs_millisecs [of d] d assms(3) by simp
  ultimately show ?thesis by (rule that)
qed

text \<open>C29: The reply to an own request: whatever the IP options and the rest of the buffer, \<open>proc_v4\<close>
  prints the length, the sequence number modulo 65536, the TTL, and as the round-trip time
  exactly the difference between the time of reception and the time of sending that the
  packet has carried there and back, to the microsecond: the roundings of the \<open>double\<close>s do not
  show in the three digits, as long as the difference is below \<open>2 ^ 32\<close> seconds.  A reply with the identifier of another process prints
  nothing.\<close>

theorem ping_own_reply:
  assumes "ip_header iphdr ttl" "tv_ok now" "tv_ok tv" "sarecv p = SaIn port addr" "length addr = 4"
    "\<bar>usecs now - usecs tv\<bar> < 2 ^ 32 * 1000000"
  shows "proc_v4 p (echo_reply iphdr ck ident nsent tv @ rest) (int (length iphdr) + 64) now =
    (if ident = pid p then
       Printf (''64 bytes from '' @ dotted addr @ '': seq='' @ dec (nsent mod 65536) @ '', ttl='' @
         dec ttl @ '', rtt='' @ exact_msecs (usecs now - usecs tv) @ '' ms'' @ [newline])
     else ret ())"
proof -
  define buf where "buf = echo_reply iphdr ck ident nsent tv @ rest"
  have ip: "byte_at buf 0 = byte_at iphdr 0" "byte_at buf 9 = byte_at iphdr 9" "byte_at buf 8 = ttl"
    "drop (length iphdr) buf = [of_nat ICMP_ECHOREPLY, 0] @ half_bytes ck @ half_bytes ident @
       half_bytes (of_nat nsent) @ (echo_data tv @ rest)"
    using assms(1) by (simp_all add: buf_def echo_reply_def ip_header_def byte_at_prefix)
  have hlen: "4 * (byte_at iphdr 0 mod 16) = length iphdr" and icmp: "int (byte_at iphdr 9) = IPPROTO_ICMP"
    using assms(1) by (simp_all add: ip_header_def)
  have host: "Sock_ntop_host (sarecv p) (salen p) = ret (dotted addr)"
    using assms(4,5) by (simp add: Sock_ntop_host_def inet_ntop_def inet_ntop4_enough AF_INET_def)
  have dec64: "dec_int 64 = ''64''"
    by (simp add: dec_int_def dec.simps digits10_def)
  have type0: "unat (of_nat ICMP_ECHOREPLY :: 8 word) = ICMP_ECHOREPLY"
    by (simp add: ICMP_ECHOREPLY_def)
  have seq: "unat (of_nat nsent :: 16 word) = nsent mod 65536"
    by (simp add: unsigned_of_nat take_bit_eq_mod)
  obtain rtt where rtt: "rtt_of now (echo_data tv @ rest) = ret rtt"
    "msecs rtt = exact_msecs (usecs now - usecs tv)"
    using assms(2,3,6) by (rule rtt_of_own)
  show ?thesis
    unfolding proc_v4_def buf_def [symmetric] Let_def ip(1,2) hlen ip(4) icmp_fields type0
    using icmp rtt host
    by (simp add: bind_ret dec64 seq ip(3))
qed

definition example_header :: "8 word list" where
  "example_header = [0x45, 0, 0, 84, 0, 0, 0, 0, 64, 1, 0, 0, 10, 0, 0, 2, 10, 0, 0, 1]"

definition example_ping :: ping where
  "example_ping = \<lparr>v6 = False, pid = 77, verbose = 0, sasend = SaIn 0 [10, 0, 0, 2],
     sarecv = SaIn 0 [10, 0, 0, 2], salen = 16, sockfd = 3\<rparr>"

theorem ping_own_reply_witness:
  "proc_v4 example_ping (echo_reply example_header 0 77 65537 (1000, 999000) @ []) (int (length example_header) + 64)
     (1001, 1500) =
   (if 77 = pid example_ping then
      Printf (''64 bytes from '' @ dotted [10, 0, 0, 2] @ '': seq='' @ dec (65537 mod 65536) @ '', ttl='' @
         dec 64 @ '', rtt='' @ exact_msecs (usecs (1001, 1500) - usecs (1000, 999000)) @ '' ms'' @ [newline])
    else ret ()) \<and> exact_msecs (usecs (1001, 1500) - usecs (1000, 999000)) = ''2.500''"
proof
  show "proc_v4 example_ping (echo_reply example_header 0 77 65537 (1000, 999000) @ []) (int (length example_header) + 64)
     (1001, 1500) =
   (if 77 = pid example_ping then
      Printf (''64 bytes from '' @ dotted [10, 0, 0, 2] @ '': seq='' @ dec (65537 mod 65536) @ '', ttl='' @
         dec 64 @ '', rtt='' @ exact_msecs (usecs (1001, 1500) - usecs (1000, 999000)) @ '' ms'' @ [newline])
    else ret ())"
    by (rule ping_own_reply)
      (simp_all add: ip_header_def example_header_def byte_at_def tv_ok_def example_ping_def IPPROTO_ICMP_def usecs_def)
  show "exact_msecs (usecs (1001, 1500) - usecs (1000, 999000)) = ''2.500''"
    by (simp add: exact_msecs_def three_places_def usecs_def Let_def dec.simps digits10_def)
qed

subsection \<open>The requests sent\<close>

definition send_step :: "8 word list list \<Rightarrow> syscall \<times> sysret \<Rightarrow> 8 word list list" where
  "send_step ss e = (case e of (SysSendto fd s fl sa, r) \<Rightarrow> ss @ [bytes s] | _ \<Rightarrow> ss)"

interpretation sent: tally send_step "[]"
  by unfold_locales (simp_all add: send_step_def)

lemma send_step_simps [simp]:
  "send_step ss (SysSendto fd s fl sa, r) = ss @ [bytes s]"
  "send_step ss (SysPut fd t, r) = ss" "send_step ss (SysOther nm is str, r) = ss"
  "send_step ss (SysTime, r) = ss" "send_step ss (SysRecvmsg fd n fl, r) = ss"
  "send_step ss (SysSocket f ty pr, r) = ss" "send_step ss (SysSetsockopt fd a b c, r) = ss"
  by (simp_all add: send_step_def)

fun requests_from :: "16 word \<Rightarrow> nat \<Rightarrow> (int \<times> int) list \<Rightarrow> 8 word list list" where
  \<comment> \<open>echo requests with consecutive numbers\<close>
  "requests_from ident n [] = []"
| "requests_from ident n (tv # tvs) = echo_request ident n tv # requests_from ident (Suc n) tvs"

lemma requests_from_snoc:
  "requests_from ident n (tvs @ [tv]) = requests_from ident n tvs @ [echo_request ident (n + length tvs) tv]"
  by (induction tvs arbitrary: n) simp_all

lemma echo_request_cksum: "in_cksum (echo_request ident n tv) = 0"
proof -
  have "in_cksum ([a, 0] @ [lo_byte c, hi_byte c] @ rest) = 0"
    if "c = in_cksum ([a, 0] @ [0, 0] @ rest)" "length rest \<le> 100" for a c rest
    using in_cksum_fill [of "[a, 0]" rest c] that by simp
  then show ?thesis by (simp add: echo_request_def Let_def half_bytes_def)
qed

lemma wp_Sock_ntop_host [simp]:
  "wp (Sock_ntop_host sa n) Q w = (case sock_ntop_host sa n of
     Inl e \<Rightarrow> Q (Exited 1) (err_world True LOG_ERR ''sock_ntop_host error'' (w\<lparr>errno := e\<rparr>))
   | Inr s \<Rightarrow> Q (Val s) w)"
  by (simp add: Sock_ntop_host_def split: sum.split)

lemma wp_rtt_of [simp]: "wp (rtt_of tv d) Q w =
    (case tv_sub tv (timeval_at d) of None \<Rightarrow> Q Undef w | Some u \<Rightarrow> Q (Val (millisecs u)) w)"
  by (simp add: rtt_of_def split: option.split)

lemma shrinks_ping [eating]: "shrinks (rtt_of tv d)"
  "shrinks Gettimeofday" "shrinks (Sendto fd s fl sa)"
  unfolding rtt_of_def Gettimeofday_def Sendto_def
  by (intro eating)+

lemma shrinks_proc [eating]: "shrinks (proc_v4 p buf len tv)" "shrinks (proc_v6 p buf len msg tv)"
  unfolding proc_v4_def proc_v6_def by (intro eating)+

lemma shrinks_sig_alrm [eating]: "shrinks (sig_alrm p n)"
  unfolding sig_alrm_def send_v4_def send_v6_def by (intro eating)

lemma shrinks_caught [eating]: "shrinks (caught p r n)"
  unfolding caught_def by (intro eating)

lemma readloop_eats: "cont_eats (readloop_body p st)"
  unfolding readloop_body_def by (intro body_eating eating)

interpretation ping_loop: consuming "readloop_body p" for p
  by unfold_locales (rule readloop_eats)

lemma proc_sends: "wp (proc_v4 p buf len tv) (\<lambda>r w'. sent.total w' = sent.total w) w"
  by (simp add: proc_v4_def Let_def split: sum.split option.split)

text \<open>The requests of a run, with their times.\<close>

definition requests_ok :: "8 word list list \<Rightarrow> 16 word \<Rightarrow> (nat \<Rightarrow> bool) \<Rightarrow> world \<Rightarrow> bool" where
  "requests_ok old ident N w \<longleftrightarrow>
     (\<exists>tvs. N (length tvs) \<and> sent.total w = old @ requests_from ident 0 tvs)"

lemma wp_sig_alrm:
  assumes "\<not> v6 p" "requests_ok old (pid p) (\<lambda>k. k = n) w"
  shows "wp (sig_alrm p n) (\<lambda>r w'. requests_ok old (pid p) (\<lambda>k. \<forall>n'. r = Val n' \<longrightarrow> k = n') w') w"
proof -
  obtain tvs where tvs: "length tvs = n" "sent.total w = old @ requests_from (pid p) 0 tvs"
    using assms(2) by (auto simp: requests_ok_def)
  have more: "requests_ok old (pid p) N w'"
    if "sent.total w' = sent.total w @ [echo_request (pid p) n tv]" "N (Suc n)" for w' tv N
    using that tvs by (auto simp: requests_ok_def requests_from_snoc intro!: exI [of _ "tvs @ [tv]"])
  have same: "requests_ok old (pid p) N w'" if "sent.total w' = sent.total w" "N n" for w' N
    using that tvs by (auto simp: requests_ok_def)
  show ?thesis
    using assms(1)
    by (auto simp: sig_alrm_def send_v4_def Gettimeofday_def Sendto_def split: list.split
        intro: same more)
qed

lemma requests_ok_same:
  "requests_ok old ident N w \<Longrightarrow> sent.total w' = sent.total w \<Longrightarrow> (\<And>n. N n \<Longrightarrow> N' n) \<Longrightarrow> requests_ok old ident N' w'"
  by (auto simp: requests_ok_def)

lemma wp_readloop_body:
  assumes "\<not> v6 p" "requests_ok old (pid p) (\<lambda>k. k = fst st) w"
  shows "wp (readloop_body p st) (body_post (\<lambda>st. requests_ok old (pid p) (\<lambda>k. k = fst st))
    (\<lambda>r. requests_ok old (pid p) (\<lambda>_. r \<noteq> Val ()))) w"
proof (cases st)
  case (Pair n buf)
  let ?I = "\<lambda>n. requests_ok old (pid p) (\<lambda>k. k = n)"
  let ?B = "body_post (\<lambda>st. ?I (fst st)) (\<lambda>r. requests_ok old (pid p) (\<lambda>_. r \<noteq> Val ()))"
  have alarm: "wp (caught p r n) (on_val Q ?B) w'"
    if "?I n w'" "\<And>n w'. ?I n w' \<Longrightarrow> Q n w'" for r Q w'
  proof -
    have "wp (caught p r n) (\<lambda>r w'. requests_ok old (pid p) (\<lambda>k. \<forall>n'. r = Val n' \<longrightarrow> k = n') w') w'"
      using that(1) wp_sig_alrm [OF assms(1) that(1)] by (simp add: caught_def)
    then show ?thesis
      by (rule wp_conseq) (use that(2) in \<open>auto simp: on_val_def split: res.splits intro: requests_ok_same\<close>)
  qed
  have print: "wp (proc_v4 q b len tv) (on_val (\<lambda>_. ?I m) ?B) w'"
    if "?I m w'" for q b len tv m w'
    by (rule wp_conseq [OF proc_sends])
      (use that in \<open>auto simp: on_val_def requests_ok_def split: res.splits\<close>)
  have same: "?I m w'' \<Longrightarrow> sent.total w' = sent.total w'' \<Longrightarrow> ?I m w'" for m w' w''
    by (simp add: requests_ok_def)
  have over: "?I m w'' \<Longrightarrow> sent.total w' = sent.total w'' \<Longrightarrow> requests_ok old (pid p) (\<lambda>_. True) w'" for m w' w''
    by (auto simp: requests_ok_def)
  have I: "?I n w" using assms(2) Pair by simp
  show ?thesis
    unfolding readloop_body_def Pair prod.case wp_bind wp_sys wp_if Let_def
    using assms(1)
    by (auto simp: Gettimeofday_def split: list.split intro!: alarm print intro: same [OF I] over [OF I])
      (auto intro: same over)
qed

text \<open>C30: The requests: over IPv4 the program never ends by itself, and what it sends, in any run, are
  echo requests with its identifier, numbered 0, 1, 2, ... modulo 65536, each with the time of
  sending and a checksum that verifies.\<close>

theorem ping_requests:
  assumes "\<not> v6 p"
  shows "wp (readloop p buf) (\<lambda>r w'. r \<noteq> Val () \<and> (\<exists>tvs.
      sent.total w' = sent.total w @ requests_from (pid p) 0 tvs \<and>
      list_all (\<lambda>m. in_cksum m = 0) (requests_from (pid p) 0 tvs))) w"
proof -
  have sums: "list_all (\<lambda>m. in_cksum m = 0) (requests_from ident n tvs)" for ident n tvs
    by (induction tvs arbitrary: n) (simp_all add: echo_request_cksum)
  let ?Q = "\<lambda>r w'. requests_ok (sent.total w) (pid p) (\<lambda>_. r \<noteq> Val ()) w'"
  have loop: "wp (loop (readloop_body q) (n, buf)) ?Q w'"
    if "requests_ok (sent.total w) (pid p) (\<lambda>k. k = n) w'" "\<not> v6 q" "pid q = pid p" for q n w'
    by (rule ping_loop.wp_loop [where I = "\<lambda>st. requests_ok (sent.total w) (pid p) (\<lambda>k. k = fst st)"])
      (use that wp_readloop_body [of q "sent.total w"] in simp_all)
  have first: "wp (sig_alrm q 0) (on_val (\<lambda>n. wp (loop (readloop_body q) (n, buf)) ?Q) ?Q) w'"
    if "sent.total w' = sent.total w" "\<not> v6 q" "pid q = pid p" for q w'
  proof (rule wp_conseq [OF wp_sig_alrm [where old = "sent.total w", OF that(2)]])
    show "requests_ok (sent.total w) (pid q) (\<lambda>k. k = 0) w'"
      using that by (auto simp: requests_ok_def intro!: exI [of _ "[]"])
  qed (use that loop in \<open>auto simp: on_val_def requests_ok_def split: res.splits\<close>)
  have "wp (readloop p buf) ?Q w"
    using assms
    by (auto simp: readloop_def Let_def Socket_def init_v6_def split: list.split intro!: first)
      (auto simp: requests_ok_def intro!: exI [of _ "[]"])
  then show ?thesis
    by (rule wp_conseq) (auto simp: requests_ok_def sums)
qed

theorem ping_requests_witness:
  "\<exists>tvs. sent.total (snd (readloop example_ping [] (start [ok 3, ok 0, ok 0, ok 1000, ok 64, ok 0]))) =
     requests_from 77 0 tvs"
proof -
  have "\<not> v6 example_ping" by (simp add: example_ping_def)
  from ping_requests [OF this, of "[]" "start [ok 3, ok 0, ok 0, ok 1000, ok 64, ok 0]"]
  show ?thesis
    by (auto simp: wp_def sent.total_start example_ping_def split: prod.splits)
qed

text \<open>
  The test \<open>icmplen < 16\<close> is meant for times of eight bytes.  With 16-byte times a reply of 16 to
  23 bytes passes it and the time is read past the end of the packet: two receptions of the
  same 36 bytes print different times.
\<close>

definition short_reply :: "8 word list" where
  "short_reply = example_header @ [0, 0, 0, 0, 77, 0, 0, 0] @ le_bytes 8 1000"

theorem ping_short_reply:
  "length short_reply = 36"
  "proc_v4 example_ping (short_reply @ le_bytes 4 0 @ rest) 36 (1001, 0) =
     Printf (''16 bytes from '' @ dotted [10, 0, 0, 2] @ '': seq=0, ttl=64, rtt=1000.000 ms'' @ [newline])"
  "proc_v4 example_ping (short_reply @ le_bytes 4 999000 @ rest) 36 (1001, 0) =
     Printf (''16 bytes from '' @ dotted [10, 0, 0, 2] @ '': seq=0, ttl=64, rtt=1.000 ms'' @ [newline])"
proof -
  show "length short_reply = 36" by (simp add: short_reply_def example_header_def)
  have time: "\<exists>rtt. rtt_of (1001, 0) (le_bytes 8 1000 @ le_bytes 4 u @ rest) = ret rtt \<and>
      msecs rtt = exact_msecs (1000000 - u)" if "0 \<le> u" "u < 1000000" for u
  proof -
    have "timeval_at (timeval_bytes (1000, u) @ rest) = (1000, u)"
      by (rule timeval_at_bytes) (use that in \<open>simp add: tv_ok_def\<close>)
    then have t: "timeval_at (le_bytes 8 1000 @ le_bytes 4 u @ rest) = (1000, u)"
      by (simp add: timeval_bytes_def)
    show ?thesis
      using tv_sub_ok [of "(1001, 0)" "(1000, u)"] that msecs_millisecs
      by (fastforce simp: rtt_of_def t tv_ok_def usecs_def)
  qed
  have host: "Sock_ntop_host (sarecv example_ping) (salen example_ping) = ret (dotted [10, 0, 0, 2])"
    by (simp add: example_ping_def Sock_ntop_host_def inet_ntop_def inet_ntop4_enough AF_INET_def)
  have print: "proc_v4 example_ping (short_reply @ le_bytes 4 u @ rest) 36 (1001, 0) =
      Printf (dec_int 16 @ '' bytes from '' @ dotted [10, 0, 0, 2] @ '': seq='' @ dec 0 @ '', ttl='' @ dec 64 @
        '', rtt='' @ exact_msecs (1000000 - u) @ '' ms'' @ [newline])" if "0 \<le> u" "u < 1000000" for u
  proof -
    obtain rtt where "rtt_of (1001, 0) (le_bytes 8 1000 @ le_bytes 4 u @ rest) = ret rtt"
      "msecs rtt = exact_msecs (1000000 - u)"
      using time [of u] \<open>0 \<le> u\<close> \<open>u < 1000000\<close> by blast
    with host show ?thesis
      unfolding proc_v4_def short_reply_def example_header_def Let_def
      by (simp add: byte_at_def half_at_def IPPROTO_ICMP_def ICMP_ECHOREPLY_def bind_ret)
        (simp add: example_ping_def mk_word16_def)
  qed
  have two: "replicate 2 c = [c, c]" for c :: char by (simp add: numeral_2_eq_2)
  show "proc_v4 example_ping (short_reply @ le_bytes 4 0 @ rest) 36 (1001, 0) =
     Printf (''16 bytes from '' @ dotted [10, 0, 0, 2] @ '': seq=0, ttl=64, rtt=1000.000 ms'' @ [newline])"
    "proc_v4 example_ping (short_reply @ le_bytes 4 999000 @ rest) 36 (1001, 0) =
     Printf (''16 bytes from '' @ dotted [10, 0, 0, 2] @ '': seq=0, ttl=64, rtt=1.000 ms'' @ [newline])"
    using print [of 0] print [of 999000]
    by (simp_all add: exact_msecs_def three_places_def dec_int_def Let_def dec.simps digits10_def two)
qed

end
