(* ===== verification/Icmpd.thy ===== *)
theory Icmpd
  imports Icmp
begin

text \<open>
  The ICMP daemon of icmpd/: programs hand it their UDP sockets over a Unix domain connection,
  and it tells them of the ICMP errors for the ports of these sockets.

  The table \<open>client[]\<close> is a list of \<open>FD_SETSIZE\<close> entries, an \<open>fd_set\<close> the list of its
  descriptors.  Reading bytes of a packet that were not received, in a buffer that is not initialised, is
  undefined behaviour; so is \<open>FD_SET\<close> of a descriptor past the set.

  Proved here: the table, the set and the descriptors the process holds agree in every round,
  none is lost; an ICMP error is passed on to the clients registered for its family and port, once
  each, with the error number it stands for.  Two defects: the entry of a new client still
  has the registration of the one before it, and the check of an ICMPv6 error is too weak.
\<close>

unbundle bit_operations_syntax

subsection \<open>State\<close>

definition ICMPD_PATH :: string where "ICMPD_PATH = ''/tmp/icmpd''"
definition EHOSTUNREACH :: int where "EHOSTUNREACH = 65"
definition ECONNREFUSED :: int where "ECONNREFUSED = 61"
definition EMSGSIZE :: int where "EMSGSIZE = 40"

record client =
  connfd :: int
  family :: int
  lport :: int

record icmpd =
  clients :: "client list"
  fd4 :: int
  fd6 :: int
  listenfd :: int
  maxi :: int
  maxfd :: int
  nready :: int
  allset :: "int list"

definition no_client :: client where
  "no_client = \<lparr>connfd = - 1, family = 0, lport = 0\<rparr>"

definition set_client :: "nat \<Rightarrow> client \<Rightarrow> icmpd \<Rightarrow> icmpd" where
  "set_client i c st = st\<lparr>clients := (clients st)[i := c]\<rparr>"

definition fd_set :: "int \<Rightarrow> icmpd \<Rightarrow> icmpd io" where
  "fd_set fd st =
     seq (guard (0 \<le> fd \<and> fd < int FD_SETSIZE)) (ret (st\<lparr>allset := List.insert fd (allset st)\<rparr>))"

definition fd_clr :: "int \<Rightarrow> icmpd \<Rightarrow> icmpd" where
  "fd_clr fd st = st\<lparr>allset := removeAll fd (allset st)\<rparr>"

text \<open>\<open>return(--nready)\<close>: the value returned is the new \<open>nready\<close>.\<close>

definition return_ready :: "icmpd \<Rightarrow> icmpd io" where
  "return_ready st = ret (st\<lparr>nready := nready st - 1\<rparr>)"

subsection \<open>readable_listen.c\<close>

definition readable_listen :: "icmpd \<Rightarrow> icmpd io" where
  "readable_listen st =
     bind (Accept (listenfd st)) (\<lambda>r.
     let fd = r_val r in
     case List.find (\<lambda>i. connfd (clients st ! i) < 0) [0..<FD_SETSIZE] of
       None \<Rightarrow> seq (call (SysClose fd)) (return_ready st) \<comment> \<open>rudely close the new connection\<close>
     | Some i \<Rightarrow>
         let st = set_client i ((clients st ! i)\<lparr>connfd := fd\<rparr>) st in
         seq (Printf (''new connection, i = '' @ dec i @ '', connfd = '' @ dec_int fd @ [newline]))
        (bind (fd_set fd st) (\<lambda>st. \<comment> \<open>add new descriptor to set\<close>
         let st = (if maxfd st < fd then st\<lparr>maxfd := fd\<rparr> else st);
             st = (if maxi st < int i then st\<lparr>maxi := int i\<rparr> else st)
         in return_ready st)))"

subsection \<open>readable_conn.c\<close>

definition clientdone :: "nat \<Rightarrow> int \<Rightarrow> int \<Rightarrow> icmpd \<Rightarrow> icmpd io" where
  "clientdone i unixfd recvfd st =
     seq (Close unixfd)
    (seq (only_if (0 \<le> recvfd) (Close recvfd))
     (let st = fd_clr unixfd st
      in return_ready (set_client i ((clients st ! i)\<lparr>connfd := - 1\<rparr>) st)))"

definition clienterr :: "nat \<Rightarrow> int \<Rightarrow> int \<Rightarrow> icmpd \<Rightarrow> icmpd io" where
  "clienterr i unixfd recvfd st =
     seq (Write unixfd ''0'') \<comment> \<open>tell client error occurred\<close>
       (clientdone i unixfd recvfd st)"

definition client_ok :: "int \<Rightarrow> int \<Rightarrow> icmpd \<Rightarrow> icmpd io" where
  "client_ok unixfd recvfd st =
     seq (Write unixfd ''1'') \<comment> \<open>tell client all OK\<close>
    (seq (Close recvfd) (return_ready st))"

definition set_port :: "nat \<Rightarrow> int \<Rightarrow> icmpd \<Rightarrow> icmpd" where
  "set_port i port st = set_client i ((clients st ! i)\<lparr>lport := port\<rparr>) st"

definition register_client :: "nat \<Rightarrow> int \<Rightarrow> int \<Rightarrow> sysret \<Rightarrow> icmpd \<Rightarrow> icmpd io" where
  \<comment> \<open>what follows \<open>getsockname\<close>, whose answer is \<open>ss\<close>\<close>
  "register_client i unixfd recvfd ss st =
     (let fam = sa_family (r_addr ss);
          st = set_client i ((clients st ! i)\<lparr>family := fam\<rparr>) st;
          port = sock_get_port (r_addr ss);
          st = set_port i port st in
      if port = 0 then
        bind (sock_bind_wild recvfd fam) (\<lambda>port.
        let st = set_port i port st in
        if port \<le> 0 then
          seq (err_ret ''error binding ephemeral port'') (clienterr i unixfd recvfd st)
        else client_ok unixfd recvfd st)
      else client_ok unixfd recvfd st)"

definition readable_conn :: "nat \<Rightarrow> icmpd \<Rightarrow> icmpd io" where
  "readable_conn i st =
     (let unixfd = connfd (clients st ! i) in
      bind (Read_fd unixfd 1) (\<lambda>(n, c, passed).
      let recvfd = (case passed of None \<Rightarrow> - 1 | Some fd \<Rightarrow> fd) in
      if n = 0 then
        seq (err_msg (''client '' @ dec i @ '' terminated, recvfd = '' @ dec_int recvfd))
          (clientdone i unixfd recvfd st)
      else if recvfd < 0 then
        seq (err_msg ''read_fd did not return descriptor'') (clienterr i unixfd recvfd st)
      else
        bind (sys (SysGetsockname recvfd)) (\<lambda>ss.
        if r_val ss < 0 then seq (err_ret ''getsockname error'') (clienterr i unixfd recvfd st)
        else register_client i unixfd recvfd ss st)))"

subsection \<open>unpicmpd.h\<close>

text \<open>
  The message for a client: error number, type, code, length of the address and the address
  in its storage.  Padding, and what follows the address in the storage, is not initialised in
  the code; it is 0 here.
\<close>

definition sockaddr_bytes :: "sockaddr \<Rightarrow> 8 word list" where
  "sockaddr_bytes sa =
     (case sa of
        SaIn port addr \<Rightarrow> [16, of_int AF_INET] @ half_bytes port @ addr @ replicate 8 0
      | SaIn6 port addr scope \<Rightarrow>
          [28, of_int AF_INET6] @ half_bytes port @ replicate 4 0 @ addr @ le_bytes 4 (int scope)
      | _ \<Rightarrow> [])"

definition icmpd_err :: "int \<Rightarrow> nat \<Rightarrow> nat \<Rightarrow> sockaddr \<Rightarrow> string" where
  "icmpd_err err ty code dest =
     chars (le_bytes 4 err @ [of_nat ty, of_nat code, 0, 0] @ le_bytes 4 (int (sa_len dest)) @
       sockaddr_bytes dest @ replicate (128 - sa_len dest) 0)"

text \<open>The loop over the clients.\<close>

definition registered :: "int \<Rightarrow> int \<Rightarrow> client \<Rightarrow> bool" where
  "registered fam sport c \<longleftrightarrow> 0 \<le> connfd c \<and> family c = fam \<and> lport c = sport"

definition notify :: "int \<Rightarrow> int \<Rightarrow> bool \<Rightarrow> string \<Rightarrow> icmpd \<Rightarrow> unit io" where
  \<comment> \<open>\<open>received\<close>: the destination port, read for a registered client only, was received\<close>
  "notify fam sport received msg st =
     do_all (map (\<lambda>c. only_if (registered fam sport c) (seq (guard received) (Write (connfd c) msg)))
       (take (nat (maxi st + 1)) (clients st)))"

subsection \<open>readable_v4.c, readable_v6.c\<close>

definition errno_v4 :: "nat \<Rightarrow> nat \<Rightarrow> int" where
  "errno_v4 ty code =
     (if ty = ICMP_UNREACH then
        (if code = ICMP_UNREACH_PORT then ECONNREFUSED
         else if code = ICMP_UNREACH_NEEDFRAG then EMSGSIZE
         else EHOSTUNREACH)
      else EHOSTUNREACH)"

definition errno_v6 :: "nat \<Rightarrow> nat \<Rightarrow> int" where
  "errno_v6 ty code =
     (if ty = ICMP6_PACKET_TOO_BIG then EMSGSIZE
      else if ty = ICMP6_DST_UNREACH \<and> code = ICMP6_DST_UNREACH_NOPORT then ECONNREFUSED
      else EHOSTUNREACH)"

definition slice :: "nat \<Rightarrow> nat \<Rightarrow> 8 word list \<Rightarrow> 8 word list" where
  "slice i n bs = take n (drop i bs)"

definition udp_error_v4 :: "8 word list \<Rightarrow> nat \<Rightarrow> icmpd \<Rightarrow> unit io" where
  \<comment> \<open>lines 45 to 86; \<open>buf\<close> is what was received, \<open>hlen1\<close> where the ICMP header starts\<close>
  "udp_error_v4 buf hlen1 st =
     (let hip = hlen1 + 8; hlen2 = 4 * (byte_at buf hip mod 16) in
      bind (Inet_ntop AF_INET (slice (hip + 12) 4 buf) True 16) (\<lambda>src.
      bind (Inet_ntop AF_INET (slice (hip + 16) 4 buf) True 16) (\<lambda>dst.
      seq (Printf ([CHR 0x09] @ ''srcip = '' @ src @ '', dstip = '' @ dst @ '', proto = '' @ dec (byte_at buf (hip + 9)) @ [newline]))
     (if int (byte_at buf (hip + 9)) = IPPROTO_UDP then
        let udp = hip + hlen2; ty = byte_at buf hlen1; code = byte_at buf (hlen1 + 1) in
        seq (guard (udp + 2 \<le> length buf)) \<comment> \<open>the source port was received\<close>
          (notify AF_INET (uint (half_at buf udp)) (udp + 4 \<le> length buf)
            (icmpd_err (errno_v4 ty code) ty code
              (SaIn (half_at buf (udp + 2)) (slice (hip + 16) 4 buf))) st)
      else ret ()))))"

definition readable_v4 :: "icmpd \<Rightarrow> icmpd io" where
  "readable_v4 st =
     bind (Recvfrom (fd4 st) MAXLINE 0) (\<lambda>r.
     let buf = bytes (r_data r); n = r_val r in
     bind (Sock_ntop_host (r_addr r) (sa_len (r_addr r))) (\<lambda>from.
     seq (Printf (dec_int n @ '' bytes ICMPv4 from '' @ from @ '':''))
    (seq (guard (0 < n))
     (let hlen1 = 4 * (byte_at buf 0 mod 16); icmplen = n - int hlen1 in
      if icmplen < 8 then err_quit (''icmplen ('' @ dec_int icmplen @ '') < 8'')
      else
        let ty = byte_at buf hlen1 in
        seq (Printf ('' type = '' @ dec ty @ '', code = '' @ dec (byte_at buf (hlen1 + 1)) @ [newline]))
       (if ty = ICMP_UNREACH \<or> ty = ICMP_TIMXCEED \<or> ty = ICMP_SOURCEQUENCH then
          if icmplen < 8 + 20 + 8 then err_quit (''icmplen ('' @ dec_int icmplen @ '') < 8 + 20 + 8'')
          else seq (udp_error_v4 buf hlen1 st) (return_ready st)
        else return_ready st)))))"

definition udp_error_v6 :: "8 word list \<Rightarrow> icmpd \<Rightarrow> unit io" where
  \<comment> \<open>lines 48 to 88\<close>
  "udp_error_v6 buf st =
     seq (guard (8 + 40 \<le> length buf)) \<comment> \<open>the inner header was received\<close>
    (bind (Inet_ntop AF_INET6 (slice (8 + 8) 16 buf) True 46) (\<lambda>src.
     bind (Inet_ntop AF_INET6 (slice (8 + 24) 16 buf) True 46) (\<lambda>dst.
     seq (Printf ([CHR 0x09] @ ''srcip = '' @ src @ '', dstip = '' @ dst @ '', next hdr = '' @ dec (byte_at buf (8 + 6)) @ [newline]))
    (if int (byte_at buf (8 + 6)) = IPPROTO_UDP then
       let udp = 8 + 40; ty = byte_at buf 0; code = byte_at buf 1 in
       seq (guard (udp + 2 \<le> length buf))
         (notify AF_INET6 (uint (half_at buf udp)) (udp + 4 \<le> length buf)
           (icmpd_err (errno_v6 ty code) ty code
             (SaIn6 (half_at buf (udp + 2)) (slice (8 + 24) 16 buf) 0)) st)
     else ret ()))))"

definition readable_v6 :: "icmpd \<Rightarrow> icmpd io" where
  "readable_v6 st =
     bind (Recvfrom (fd6 st) MAXLINE 0) (\<lambda>r.
     let buf = bytes (r_data r); n = r_val r in
     bind (Sock_ntop_host (r_addr r) (sa_len (r_addr r))) (\<lambda>from.
     seq (Printf (dec_int n @ '' bytes ICMPv6 from '' @ from @ '':''))
    (if n < 8 then err_quit (''icmp6len ('' @ dec_int n @ '') < 8'')
     else
       let ty = byte_at buf 0 in
       seq (Printf ('' type = '' @ dec ty @ '', code = '' @ dec (byte_at buf 1) @ [newline]))
      (if ty = ICMP6_DST_UNREACH \<or> ty = ICMP6_PACKET_TOO_BIG \<or> ty = ICMP6_TIME_EXCEEDED then
         if n < 8 + 8 then err_quit (''icmp6len ('' @ dec_int n @ '') < 8 + 8'')
         else seq (udp_error_v6 buf st) (return_ready st)
       else return_ready st))))"

subsection \<open>icmpd.c\<close>

fun serve_clients :: "int list \<Rightarrow> nat list \<Rightarrow> icmpd \<Rightarrow> icmpd io" where
  \<comment> \<open>check all clients for data\<close>
  "serve_clients rset [] st = ret st"
| "serve_clients rset (i # is) st =
     (let sockfd = connfd (clients st ! i) in
      if sockfd < 0 then serve_clients rset is st
      else if sockfd \<in> set rset then
        bind (readable_conn i st) (\<lambda>st.
        if nready st \<le> 0 then ret st \<comment> \<open>no more readable descriptors\<close>
        else serve_clients rset is st)
      else serve_clients rset is st)"

text \<open>
  One of the three tests before the loop over the clients: \<open>Inl\<close> is \<open>continue\<close>.
\<close>

definition if_ready :: "bool \<Rightarrow> (icmpd \<Rightarrow> icmpd io) \<Rightarrow> icmpd \<Rightarrow> (icmpd + icmpd) io" where
  "if_ready b m st =
     (if b then bind (m st) (\<lambda>st. ret (if nready st \<le> 0 then Inl st else Inr st)) else ret (Inr st))"

definition and_then :: "('s + 'a) io \<Rightarrow> ('a \<Rightarrow> ('s + 'b) io) \<Rightarrow> ('s + 'b) io" where
  "and_then m f = bind m (\<lambda>v. case v of Inl s \<Rightarrow> ret (Inl s) | Inr a \<Rightarrow> f a)"

definition icmpd_body :: "icmpd \<Rightarrow> (icmpd + unit) io" where
  "icmpd_body st =
     bind (Select (maxfd st + 1) (allset st) [] None) (\<lambda>r.
     let rset = r_rset r; st = st\<lparr>nready := r_val r\<rparr> in
     and_then (if_ready (listenfd st \<in> set rset) readable_listen st) (\<lambda>st.
     and_then (if_ready (fd4 st \<in> set rset) readable_v4 st) (\<lambda>st.
     and_then (if_ready (fd6 st \<in> set rset) readable_v6 st) (\<lambda>st.
     bind (serve_clients rset [0..<nat (maxi st + 1)] st) again))))"

definition icmpd_init :: "icmpd io" where
  "icmpd_init =
     bind (Socket AF_INET SOCK_RAW IPPROTO_ICMP) (\<lambda>f4.
     let st = \<lparr>clients = replicate FD_SETSIZE no_client, fd4 = f4, fd6 = 0, listenfd = 0, maxi = - 1,
               maxfd = f4, nready = 0, allset = []\<rparr> in
     bind (fd_set f4 st) (\<lambda>st.
     bind (Socket AF_INET6 SOCK_RAW IPPROTO_ICMPV6) (\<lambda>f6.
     bind (fd_set f6 (st\<lparr>fd6 := f6\<rparr>)) (\<lambda>st.
     let st = st\<lparr>maxfd := max (maxfd st) f6\<rparr> in
     bind (Socket AF_UNIX SOCK_STREAM 0) (\<lambda>lfd.
     seq (call (SysOther ''unlink'' [] [ICMPD_PATH]))
    (seq (Bind lfd (SaUn ICMPD_PATH))
    (seq (Listen lfd LISTENQ)
    (bind (fd_set lfd (st\<lparr>listenfd := lfd\<rparr>)) (\<lambda>st.
     ret (st\<lparr>maxfd := max (maxfd st) lfd\<rparr>))))))))))"

definition icmpd_main :: "unit io" where
  "icmpd_main = bind icmpd_init (loop icmpd_body)"

subsection \<open>The descriptors of the process\<close>

text \<open>
  The descriptors a trace has opened and not closed, with those received from clients, and
  whether the system was honest: each new descriptor was not open at the time.
\<close>

definition opened :: "int \<Rightarrow> int multiset \<times> bool \<Rightarrow> int multiset \<times> bool" where
  "opened fd s = (add_mset fd (fst s), snd s \<and> 0 \<le> fd \<and> fd \<notin># fst s)"

definition open_step :: "int multiset \<times> bool \<Rightarrow> syscall \<times> sysret \<Rightarrow> int multiset \<times> bool" where
  "open_step s e =
     (case e of
        (SysSocket _ _ _, r) \<Rightarrow> if 0 \<le> r_val r then opened (r_val r) s else s
      | (SysAccept _, r) \<Rightarrow> if 0 \<le> r_val r then opened (r_val r) s else s
      | (SysRecvmsg _ _ _, r) \<Rightarrow>
          (case r_rset r of
             [len, _, _, p] \<Rightarrow> if 0 < r_val r \<and> len = 16 then opened p s else s
           | _ \<Rightarrow> s)
      | (SysClose fd, r) \<Rightarrow> (fst s - {#fd#}, snd s)
      | _ \<Rightarrow> s)"

interpretation fdt: tally open_step "({#}, True)"
  by unfold_locales (simp_all add: open_step_def)

abbreviation openfds :: "world \<Rightarrow> int multiset" where "openfds w \<equiv> fst (fdt.total w)"
abbreviation honest :: "world \<Rightarrow> bool" where "honest w \<equiv> snd (fdt.total w)"

lemma open_step_simps [simp]:
  "open_step s (SysClose fd, r) = (fst s - {#fd#}, snd s)"
  "open_step s (SysPut fd t, r) = s" "open_step s (SysOther nm is str, r) = s"
  "open_step s (SysWrite fd t, r) = s" "open_step s (SysRecvfrom fd n fl, r) = s"
  "open_step s (SysSelect nf rs ws tm, r) = s" "open_step s (SysGetsockname fd, r) = s"
  "open_step s (SysBind fd sa, r) = s" "open_step s (SysListen fd b, r) = s"
  "open_step s (SysSocket f ty pr, r) = (if 0 \<le> r_val r then opened (r_val r) s else s)"
  "open_step s (SysAccept fd, r) = (if 0 \<le> r_val r then opened (r_val r) s else s)"
  by (simp_all add: open_step_def)

definition no_dup :: "'a multiset \<Rightarrow> bool" where
  "no_dup M \<longleftrightarrow> (\<forall>x. count M x \<le> 1)"

lemma no_dup_add [simp]: "no_dup (add_mset x M) \<longleftrightarrow> x \<notin># M \<and> no_dup M"
proof
  assume dup: "no_dup (add_mset x M)"
  have "count (add_mset x M) y \<le> 1" for y using dup by (simp add: no_dup_def)
  from this [of x] this show "x \<notin># M \<and> no_dup M"
    by (auto simp: no_dup_def not_in_iff) (metis Suc_leD)
next
  assume "x \<notin># M \<and> no_dup M"
  then show "no_dup (add_mset x M)" by (simp add: no_dup_def not_in_iff)
qed

lemma no_dup_diff: "no_dup M \<Longrightarrow> no_dup (M - N)"
  by (auto simp: no_dup_def intro: le_trans [OF diff_le_self])

subsection \<open>The invariant\<close>

definition actives :: "icmpd \<Rightarrow> int multiset" where
  "actives st = image_mset connfd (filter_mset (\<lambda>c. 0 \<le> connfd c) (mset (clients st)))"

definition base_fds :: "icmpd \<Rightarrow> int multiset" where
  "base_fds st = {#fd4 st, fd6 st, listenfd st#}"

definition shape :: "icmpd \<Rightarrow> bool" where
  "shape st \<longleftrightarrow> length (clients st) = FD_SETSIZE \<and> - 1 \<le> maxi st \<and> maxi st < int FD_SETSIZE \<and>
     (\<forall>i < FD_SETSIZE. 0 \<le> connfd (clients st ! i) \<longrightarrow> int i \<le> maxi st)"

definition icmpd_inv :: "int multiset \<Rightarrow> icmpd \<Rightarrow> world \<Rightarrow> bool" where
  \<comment> \<open>\<open>B\<close>: descriptors that are not the daemon's table's\<close>
  "icmpd_inv B st w \<longleftrightarrow> shape st \<and> (honest w \<longrightarrow>
     openfds w = B + base_fds st + actives st \<and> no_dup (openfds w) \<and>
     set (allset st) = set_mset (base_fds st + actives st) \<and> (\<forall>fd \<in> set (allset st). fd \<le> maxfd st))"

lemma icmpd_inv_weaker:
  "icmpd_inv B st w \<Longrightarrow> (honest w' \<Longrightarrow> fdt.total w' = fdt.total w) \<Longrightarrow> icmpd_inv B st w'"
  unfolding icmpd_inv_def by metis

lemma icmpd_inv_same: "icmpd_inv B st w \<Longrightarrow> fdt.total w' = fdt.total w \<Longrightarrow> icmpd_inv B st w'"
  by (rule icmpd_inv_weaker)

lemma actives_update:
  assumes "i < length (clients st)"
  shows "actives (set_client i c st) =
    actives st - (if 0 \<le> connfd (clients st ! i) then {#connfd (clients st ! i)#} else {#}) +
    (if 0 \<le> connfd c then {#connfd c#} else {#})"
proof -
  have "clients st ! i \<in># mset (clients st)" using assms by simp
  then obtain M where M: "mset (clients st) = add_mset (clients st ! i) M"
    by (metis insert_DiffM)
  show ?thesis
    using assms by (simp add: actives_def set_client_def mset_update M)
qed

lemma set_client_simps [simp]:
  "fd4 (set_client i c st) = fd4 st" "fd6 (set_client i c st) = fd6 st"
  "listenfd (set_client i c st) = listenfd st" "maxi (set_client i c st) = maxi st"
  "maxfd (set_client i c st) = maxfd st" "allset (set_client i c st) = allset st"
  "nready (set_client i c st) = nready st" "base_fds (set_client i c st) = base_fds st"
  "clients (set_client i c st) = (clients st)[i := c]"
  by (simp_all add: set_client_def base_fds_def)

lemma icmpd_inv_nready [simp]: "icmpd_inv B (st\<lparr>nready := n\<rparr>) w = icmpd_inv B st w"
  by (simp add: icmpd_inv_def shape_def base_fds_def actives_def)

lemma find_slot:
  assumes "List.find (\<lambda>i. P i) [0..<n] = Some i"
  shows "i < n" "P i"
  using assms by (auto simp: find_Some_iff)

lemma wp_accept_fds:
  "wp (Accept fd) (yields (\<lambda>r w'. 0 \<le> r_val r \<and> fdt.total w' = opened (r_val r) (fdt.total w))) w"
proof (rule wp_conseq [OF wp_Accept])
  fix r :: "sysret res" and w'
  assume acc: "accepted fd (trace w) r w'"
  show "yields (\<lambda>r w'. 0 \<le> r_val r \<and> fdt.total w' = opened (r_val r) (fdt.total w)) r w'"
  proof (cases r)
    case (Val a)
    then obtain skipped where a: "0 \<le> r_val a" "trace w' = trace w @ accept_log fd (skipped @ [a])"
      "list_all aborted skipped"
      using acc by (auto simp: accepted_def)
    have "foldl open_step s (accept_log fd skipped) = s" for s
      using a(3) by (induction skipped) (auto simp: accept_log_def aborted_def)
    then show ?thesis
      using a(1,2) Val by (simp add: fdt.total_def accept_log_def)
  qed simp_all
qed

lemma shape_set_client:
  "shape st \<Longrightarrow> i < FD_SETSIZE \<Longrightarrow> (0 \<le> connfd c \<longrightarrow> 0 \<le> connfd (clients st ! i)) \<Longrightarrow> shape (set_client i c st)"
  by (auto simp: shape_def nth_list_update)

lemma grow_maxima:
  "(if maxi (if maxfd s < fd then s\<lparr>maxfd := fd\<rparr> else s) < i
    then (if maxfd s < fd then s\<lparr>maxfd := fd\<rparr> else s)\<lparr>maxi := i\<rparr>
    else (if maxfd s < fd then s\<lparr>maxfd := fd\<rparr> else s)) =
   s\<lparr>maxfd := max (maxfd s) fd, maxi := max (maxi s) i\<rparr>"
  by (cases s) (simp add: max_def)

lemma wp_readable_listen:
  assumes "icmpd_inv B st w"
  shows "wp (readable_listen st) (yields (icmpd_inv B)) w"
  unfolding readable_listen_def Let_def
proof (rule yields_bind [OF wp_accept_fds], elim conjE)
  fix r w'
  let ?fd = "r_val r"
  assume r: "0 \<le> ?fd" "fdt.total w' = opened ?fd (fdt.total w)"
  have shape: "shape st" using assms by (simp add: icmpd_inv_def)
  show "wp (case List.find (\<lambda>i. connfd (clients st ! i) < 0) [0..<FD_SETSIZE] of
       None \<Rightarrow> seq (call (SysClose ?fd)) (return_ready st)
     | Some i \<Rightarrow>
         seq (Printf (''new connection, i = '' @ dec i @ '', connfd = '' @ dec_int ?fd @ [newline]))
        (bind (fd_set ?fd (set_client i ((clients st ! i)\<lparr>connfd := ?fd\<rparr>) st)) (\<lambda>st.
          return_ready
            (if maxi (if maxfd st < ?fd then st\<lparr>maxfd := ?fd\<rparr> else st) < int i
             then (if maxfd st < ?fd then st\<lparr>maxfd := ?fd\<rparr> else st)\<lparr>maxi := int i\<rparr>
             else (if maxfd st < ?fd then st\<lparr>maxfd := ?fd\<rparr> else st)))))
     (yields (icmpd_inv B)) w'"
  proof (cases "List.find (\<lambda>i. connfd (clients st ! i) < 0) [0..<FD_SETSIZE]")
    case None
    have "icmpd_inv B st w''" if "fdt.total w'' = (openfds w' - {#?fd#}, honest w')" for w''
      by (rule icmpd_inv_weaker [OF assms])
        (use that r in \<open>auto simp: opened_def intro: prod_eqI\<close>)
    then show ?thesis
      using None by (auto simp: return_ready_def split: list.split)
  next
    case (Some i)
    note slot = find_slot [OF Some]
    have len: "i < length (clients st)" using shape slot(1) by (simp add: shape_def)
    define st1 where "st1 = set_client i ((clients st ! i)\<lparr>connfd := ?fd\<rparr>) st"
    have act: "actives st1 = add_mset ?fd (actives st)"
      using actives_update [OF len, of "(clients st ! i)\<lparr>connfd := ?fd\<rparr>"] slot(2) r(1)
      by (simp add: st1_def)
    have inv: "icmpd_inv B (st1\<lparr>allset := List.insert ?fd (allset st1), maxfd := mf, maxi := m\<rparr>) w'"
      if "m = max (maxi st) (int i)" "mf = max (maxfd st) ?fd" for m mf
    proof -
      have "shape (st1\<lparr>allset := List.insert ?fd (allset st1), maxfd := mf, maxi := m\<rparr>)"
        using shape slot(1) that(1) by (auto simp: shape_def st1_def nth_list_update)
      moreover have "actives (st1\<lparr>allset := x, maxfd := y, maxi := z\<rparr>) = actives st1"
        "base_fds (st1\<lparr>allset := x, maxfd := y, maxi := z\<rparr>) = base_fds st" for x y z
        by (simp_all add: actives_def base_fds_def st1_def)
      ultimately show ?thesis
        using assms r that(2) act by (auto simp: icmpd_inv_def opened_def st1_def le_max_iff_disj)
    qed
    have inv': "icmpd_inv B (st1\<lparr>allset := List.insert ?fd (allset st1), maxfd := max (maxfd st1) ?fd,
        maxi := max (maxi st1) (int i)\<rparr>) w''" if "fdt.total w'' = fdt.total w'" for w''
      by (rule icmpd_inv_same [OF inv that]) (simp_all add: st1_def)
    show ?thesis
      unfolding Some option.case grow_maxima st1_def [symmetric]
      using inv' by (auto simp: Printf_def fd_set_def return_ready_def)
  qed
qed

lemma wp_Close_fds:
  "wp (Close fd) (yields (\<lambda>_ w'. fdt.total w' = (openfds w - {#fd#}, honest w))) w"
  by (simp add: Close_def split: list.split)

lemma wp_Write_fds: "wp (Write fd s) (yields (\<lambda>_ w'. fdt.total w' = fdt.total w)) w"
  by (simp add: Write_def split: list.split)

lemma fdt_total_eq: "fdt.total w = (openfds w, honest w)"
  by simp

text \<open>A client's entry is given up: the connection, and a descriptor received and not yet closed.\<close>

definition pending :: "int \<Rightarrow> int multiset" where
  "pending recvfd = (if 0 \<le> recvfd then {#recvfd#} else {#})"

lemma actives_fd_clr [simp]: "actives (fd_clr fd st) = actives st" "base_fds (fd_clr fd st) = base_fds st"
  by (simp_all add: actives_def fd_clr_def base_fds_def)

lemma fd_clr_simps [simp]: "clients (fd_clr fd st) = clients st" "maxi (fd_clr fd st) = maxi st"
  "maxfd (fd_clr fd st) = maxfd st" "allset (fd_clr fd st) = removeAll fd (allset st)"
  by (simp_all add: fd_clr_def)

lemma inv_drop_client:
  assumes inv: "icmpd_inv (B + pending recvfd) st w" and i: "i < FD_SETSIZE" "0 \<le> connfd (clients st ! i)"
    and w': "honest w' = honest w" "openfds w' = openfds w - {#connfd (clients st ! i)#} - pending recvfd"
  shows "icmpd_inv B (set_client i ((clients st ! i)\<lparr>connfd := - 1\<rparr>) (fd_clr (connfd (clients st ! i)) st)) w'"
proof -
  let ?u = "connfd (clients st ! i)"
  have shape: "shape st" and len: "i < length (clients st)"
    using inv i(1) by (simp_all add: icmpd_inv_def shape_def)
  have shape': "shape (set_client i ((clients st ! i)\<lparr>connfd := - 1\<rparr>) (fd_clr ?u st))"
    using shape i(1) by (auto simp: shape_def nth_list_update)
  have member: "?u \<in># actives st"
    using len i(2) by (auto simp: actives_def)
  have act: "actives (set_client i ((clients st ! i)\<lparr>connfd := - 1\<rparr>) (fd_clr ?u st)) = actives st - {#?u#}"
    using actives_update [of i "fd_clr ?u st" "(clients st ! i)\<lparr>connfd := - 1\<rparr>"] len i(2) by simp
  show ?thesis
    unfolding icmpd_inv_def
  proof (intro conjI impI shape')
    assume "honest w'"
    then have st: "openfds w = B + pending recvfd + base_fds st + actives st" "no_dup (openfds w)"
      "set (allset st) = set_mset (base_fds st + actives st)" "\<forall>fd \<in> set (allset st). fd \<le> maxfd st"
      using inv w'(1) unfolding icmpd_inv_def by blast+
    obtain A where A: "actives st = add_mset ?u A" using member by (metis insert_DiffM)
    have fresh: "?u \<notin># base_fds st" "?u \<notin># A"
      using st(2) unfolding st(1) A by simp_all
    show "openfds w' = B + base_fds (set_client i ((clients st ! i)\<lparr>connfd := - 1\<rparr>) (fd_clr ?u st)) +
        actives (set_client i ((clients st ! i)\<lparr>connfd := - 1\<rparr>) (fd_clr ?u st))"
      unfolding w'(2) st(1) act by (simp add: A)
    show "no_dup (openfds w')" unfolding w'(2) by (intro no_dup_diff st(2))
    show "set (allset (set_client i ((clients st ! i)\<lparr>connfd := - 1\<rparr>) (fd_clr ?u st))) =
        set_mset (base_fds (set_client i ((clients st ! i)\<lparr>connfd := - 1\<rparr>) (fd_clr ?u st)) +
          actives (set_client i ((clients st ! i)\<lparr>connfd := - 1\<rparr>) (fd_clr ?u st)))"
      using st(3) fresh unfolding act by (auto simp: A)
    show "\<forall>fd \<in> set (allset (set_client i ((clients st ! i)\<lparr>connfd := - 1\<rparr>) (fd_clr ?u st))).
        fd \<le> maxfd (set_client i ((clients st ! i)\<lparr>connfd := - 1\<rparr>) (fd_clr ?u st))"
      using st(4) by simp
  qed
qed

lemma wp_clientdone:
  assumes "icmpd_inv (B + pending recvfd) st w" "i < FD_SETSIZE" "0 \<le> connfd (clients st ! i)"
  shows "wp (clientdone i (connfd (clients st ! i)) recvfd st) (yields (icmpd_inv B)) w"
proof -
  let ?u = "connfd (clients st ! i)"
  have "wp (only_if (0 \<le> recvfd) (Close recvfd))
      (yields (\<lambda>_ w2. fdt.total w2 = (openfds w1 - pending recvfd, honest w1))) w1" for w1
    using wp_Close_fds [of recvfd w1] by (auto simp: pending_def)
  then show ?thesis
    unfolding clientdone_def Let_def
    by (intro yields_seq [OF wp_Close_fds]) (rule yields_seq, assumption,
      auto simp: return_ready_def intro!: inv_drop_client [OF assms])
qed

lemma inv_set_client:
  assumes "icmpd_inv B st w" "i < FD_SETSIZE" "connfd c = connfd (clients st ! i)"
  shows "icmpd_inv B (set_client i c st) w"
proof -
  have shape: "shape st" and len: "i < length (clients st)"
    using assms(1,2) by (simp_all add: icmpd_inv_def shape_def)
  have "connfd (clients st ! i) \<in># actives st" if "0 \<le> connfd (clients st ! i)"
    using len that by (auto simp: actives_def)
  then have "actives (set_client i c st) = actives st"
    using actives_update [OF len, of c] assms(3) by simp
  moreover have "shape (set_client i c st)"
    by (rule shape_set_client [OF shape assms(2)]) (simp add: assms(3))
  ultimately show ?thesis
    using assms(1) unfolding icmpd_inv_def set_client_simps by (simp only:) blast
qed

abbreviation received_fd :: "int option \<Rightarrow> int" where
  "received_fd passed \<equiv> (case passed of None \<Rightarrow> - 1 | Some fd \<Rightarrow> fd)"

lemma inv_received:
  assumes "icmpd_inv B st w" "fdt.total w' = opened p (fdt.total w)"
  shows "icmpd_inv (B + pending p) st w'"
proof -
  have got: "honest w" "0 \<le> p" "p \<notin># openfds w" "openfds w' = add_mset p (openfds w)" if "honest w'"
    using assms(2) that by (auto simp: opened_def)
  have old: "openfds w = B + base_fds st + actives st" "no_dup (openfds w)"
    "set (allset st) = set_mset (base_fds st + actives st)" "\<forall>fd \<in> set (allset st). fd \<le> maxfd st" if "honest w"
    using assms(1) that unfolding icmpd_inv_def by blast+
  show ?thesis
    unfolding icmpd_inv_def
  proof (intro conjI impI)
    show "shape st" using assms(1) by (simp add: icmpd_inv_def)
    assume h: "honest w'"
    show "openfds w' = B + pending p + base_fds st + actives st"
      unfolding got(4) [OF h] old(1) [OF got(1) [OF h]] using got(2) [OF h] by (simp add: pending_def)
    show "no_dup (openfds w')"
      unfolding got(4) [OF h] using got(3) [OF h] old(2) [OF got(1) [OF h]] by simp
  qed (use got(1) old(3,4) in blast)+
qed

lemma wp_Read_fd_fds:
  "wp (Read_fd fd n) (yields (\<lambda>(n, c, passed) w'.
     fdt.total w' = fdt.total w \<and> received_fd passed = - 1 \<or>
     fdt.total w' = opened (received_fd passed) (fdt.total w))) w"
proof -
  have step: "open_step s (SysRecvmsg fd n 0, r) = (if 0 < r_val r
      then (case r_rset r of [len, _, _, p] \<Rightarrow> if len = 16 then opened p s else s | _ \<Rightarrow> s) else s)" for s r
    by (auto simp: open_step_def split: list.split)
  show ?thesis
    by (auto simp: Read_fd_def read_fd_def step split: list.split)
qed

lemma wp_Read_fd_inv:
  assumes "icmpd_inv B st w"
  shows "wp (Read_fd fd n) (yields (\<lambda>(n, c, passed) w'. icmpd_inv (B + pending (received_fd passed)) st w')) w"
  by (rule yields_conseq [OF wp_Read_fd_fds])
    (use icmpd_inv_same [OF assms] inv_received [OF assms] in \<open>fastforce simp: pending_def\<close>)

lemma wp_quiet_fds:
  "wp (sys (SysGetsockname fd)) (yields (\<lambda>_ w'. fdt.total w' = fdt.total w)) w"
  "wp (err_msg m) (yields (\<lambda>_ w'. fdt.total w' = fdt.total w)) w"
  "wp (err_ret m) (yields (\<lambda>_ w'. fdt.total w' = fdt.total w)) w"
  "wp (sock_bind_wild fd fam) (yields (\<lambda>_ w'. fdt.total w' = fdt.total w)) w"
  by (simp_all add: sock_bind_wild_def split: list.split sockaddr.split)

lemma wp_clienterr:
  assumes "icmpd_inv (B + pending recvfd) st w" "i < FD_SETSIZE" "0 \<le> connfd (clients st ! i)"
  shows "wp (clienterr i (connfd (clients st ! i)) recvfd st) (yields (icmpd_inv B)) w"
  unfolding clienterr_def
  by (rule yields_seq [OF wp_Write_fds]) (rule wp_clientdone [OF icmpd_inv_same [OF assms(1)] assms(2,3)])

text \<open>Something is reported and the client given up.\<close>

lemma wp_report_client:
  assumes "wp m (yields (\<lambda>_ w'. fdt.total w' = fdt.total w)) w" "icmpd_inv (B + pending recvfd) st w"
    and "i < FD_SETSIZE" "0 \<le> connfd (clients st ! i)" "u = connfd (clients st ! i)"
  shows "wp (seq m (clientdone i u recvfd st)) (yields (icmpd_inv B)) w"
    and "wp (seq m (clienterr i u recvfd st)) (yields (icmpd_inv B)) w"
  unfolding assms(5)
  by (rule yields_seq [OF assms(1)], erule wp_clientdone [OF icmpd_inv_same [OF assms(2)] assms(3,4)])
    (rule yields_seq [OF assms(1)], erule wp_clienterr [OF icmpd_inv_same [OF assms(2)] assms(3,4)])

lemma wp_client_ok:
  assumes "icmpd_inv (B + pending recvfd) st w" "0 \<le> recvfd"
  shows "wp (client_ok unixfd recvfd st) (yields (icmpd_inv B)) w"
proof -
  have "icmpd_inv B st w'" if "fdt.total w' = (openfds w - {#recvfd#}, honest w)" for w'
    using assms that no_dup_diff [of "openfds w" "{#recvfd#}"] by (auto simp: icmpd_inv_def pending_def)
  then show ?thesis
    unfolding client_ok_def
    by (intro yields_seq [OF wp_Write_fds] yields_seq [OF wp_Close_fds]) (simp add: return_ready_def)
qed

lemma set_port_simps [simp]:
  "i < length (clients st) \<Longrightarrow> connfd (clients (set_port i port st) ! i) = connfd (clients st ! i)"
  "length (clients (set_port i port st)) = length (clients st)"
  by (simp_all add: set_port_def)

lemma wp_register_client:
  assumes inv: "icmpd_inv (B + pending recvfd) st w" and fd: "0 \<le> recvfd"
    and i: "i < FD_SETSIZE" "0 \<le> connfd (clients st ! i)" "u = connfd (clients st ! i)"
  shows "wp (register_client i u recvfd ss st) (yields (icmpd_inv B)) w"
proof -
  have len: "i < length (clients st)" using inv i(1) by (simp add: icmpd_inv_def shape_def)
  define st1 where "st1 = set_port i (sock_get_port (r_addr ss))
    (set_client i ((clients st ! i)\<lparr>family := sa_family (r_addr ss)\<rparr>) st)"
  have len1: "i < length (clients st1)" and u: "connfd (clients st1 ! i) = u"
    using len i(3) by (simp_all add: st1_def)
  have inv1: "icmpd_inv (B + pending recvfd) st1 w"
    unfolding st1_def set_port_def by (intro inv_set_client inv i(1)) (use len in simp_all)
  have inv2: "icmpd_inv (B + pending recvfd) (set_port i port st1) w'"
    if "fdt.total w' = fdt.total w" for port w'
    unfolding set_port_def by (intro inv_set_client icmpd_inv_same [OF inv1 that] i(1)) simp
  show ?thesis
    unfolding register_client_def Let_def st1_def [symmetric]
  proof (intro wp_ifI)
    show "wp (client_ok u recvfd st1) (yields (icmpd_inv B)) w" by (rule wp_client_ok [OF inv1 fd])
    show "wp (bind (sock_bind_wild recvfd (sa_family (r_addr ss))) (\<lambda>port.
        if port \<le> 0 then seq (err_ret ''error binding ephemeral port'') (clienterr i u recvfd (set_port i port st1))
        else client_ok u recvfd (set_port i port st1))) (yields (icmpd_inv B)) w"
      by (rule yields_bind [OF wp_quiet_fds(4)], intro wp_ifI wp_report_client(2) wp_client_ok fd inv2 wp_quiet_fds i(1))
        (use len1 u i(2,3) in simp_all)
  qed
qed

lemma wp_readable_conn:
  assumes inv: "icmpd_inv B st w" and i: "i < FD_SETSIZE" "0 \<le> connfd (clients st ! i)"
  shows "wp (readable_conn i st) (yields (icmpd_inv B)) w"
  unfolding readable_conn_def Let_def
proof (rule yields_bind [OF wp_Read_fd_inv [OF inv]], clarify, intro wp_ifI)
  fix n :: int and c :: string and passed w1
  assume r: "icmpd_inv (B + pending (received_fd passed)) st w1"
  note rep = wp_report_client [OF _ r i refl]
  show "wp (seq (err_msg m) (clientdone i (connfd (clients st ! i)) (received_fd passed) st)) (yields (icmpd_inv B)) w1"
    "wp (seq (err_msg m) (clienterr i (connfd (clients st ! i)) (received_fd passed) st)) (yields (icmpd_inv B)) w1" for m
    by (rule rep, rule wp_quiet_fds)+
  assume "\<not> received_fd passed < 0"
  then show "wp (bind (sys (SysGetsockname (received_fd passed))) (\<lambda>ss.
        if r_val ss < 0 then seq (err_ret ''getsockname error'')
          (clienterr i (connfd (clients st ! i)) (received_fd passed) st)
        else register_client i (connfd (clients st ! i)) (received_fd passed) ss st)) (yields (icmpd_inv B)) w1"
    by (intro yields_bind [OF wp_quiet_fds(1)] wp_ifI wp_report_client(2) wp_register_client
        icmpd_inv_same [OF r] wp_quiet_fds i) simp_all
qed

subsection \<open>A round of the daemon\<close>

lemma quiet_calls [simp]: "fdt.quiet (Write fd s)" "fdt.quiet (Recvfrom fd n fl)" "fdt.quiet (Printf s)"
  "fdt.quiet (sys (SysRecvfrom fd n fl))"
  by (auto intro!: fdt.quietI simp: Write_def Recvfrom_def Printf_def split: list.split)

lemma quiet_texts [simp]: "fdt.quiet (Inet_ntop fam a p n)" "fdt.quiet (Sock_ntop_host sa len)"
  by (auto intro!: fdt.quiet_intros simp: Inet_ntop_def Sock_ntop_host_def)

lemma quiet_notify [simp]: "fdt.quiet (notify fam sport received msg st)"
  by (auto intro!: fdt.quiet_intros simp: notify_def only_if_def)

lemma quiet_udp_error [simp]: "fdt.quiet (udp_error_v4 buf hlen1 st)" "fdt.quiet (udp_error_v6 buf st)"
  unfolding udp_error_v4_def udp_error_v6_def Let_def
  by (intro fdt.quiet_intros quiet_texts quiet_calls quiet_notify fdt.quiet_plain)+

text \<open>A handler that only counts a descriptor as done.\<close>

definition counts :: "icmpd \<Rightarrow> icmpd io \<Rightarrow> bool" where
  "counts st m \<longleftrightarrow> (\<forall>w. wp m (yields (\<lambda>st' w'. fdt.total w' = fdt.total w \<and> (\<exists>n. st' = st\<lparr>nready := n\<rparr>))) w)"

lemma counts_bind: "fdt.quiet m \<Longrightarrow> (\<And>a. counts st (f a)) \<Longrightarrow> counts st (bind m f)"
  unfolding counts_def by (intro allI, rule yields_bind [OF fdt.quietD], assumption) (erule subst, blast)

lemma counts_seq: "fdt.quiet m \<Longrightarrow> counts st n \<Longrightarrow> counts st (seq m n)"
  unfolding seq_def by (rule counts_bind)

lemma counts_if: "counts st m \<Longrightarrow> counts st n \<Longrightarrow> counts st (if b then m else n)"
  by simp

lemma counts_return [simp]: "counts st (return_ready st)" "counts st (err_quit s)"
  by (auto simp: counts_def return_ready_def)

lemma counts_v4: "counts st (readable_v4 st)" and counts_v6: "counts st (readable_v6 st)"
  unfolding readable_v4_def readable_v6_def Let_def
  by (intro counts_bind counts_seq counts_if counts_return quiet_texts quiet_calls quiet_udp_error fdt.quiet_plain)+

lemma icmpd_inv_count [simp]: "icmpd_inv B (nready_update f st) w = icmpd_inv B st w"
  by (simp add: icmpd_inv_def shape_def base_fds_def actives_def)

lemma wp_counts:
  assumes "counts st m" "icmpd_inv B st w"
  shows "wp m (yields (icmpd_inv B)) w"
  by (rule yields_conseq [OF assms(1) [unfolded counts_def, rule_format]])
    (auto intro: icmpd_inv_same [OF assms(2)])

lemma wp_serve_clients:
  "icmpd_inv B st w \<Longrightarrow> \<forall>i \<in> set is. i < FD_SETSIZE \<Longrightarrow> wp (serve_clients rset is st) (yields (icmpd_inv B)) w"
proof (induction rset "is" st arbitrary: w rule: serve_clients.induct)
  case (2 rset i "is" st)
  show ?case
    unfolding serve_clients.simps Let_def
  proof (intro wp_ifI)
    assume conn: "\<not> connfd (clients st ! i) < 0" "connfd (clients st ! i) \<in> set rset"
    show "wp (bind (readable_conn i st) (\<lambda>st. if nready st \<le> 0 then ret st else serve_clients rset is st))
        (yields (icmpd_inv B)) w"
      by (rule yields_bind [OF wp_readable_conn [OF 2(4)]])
        (use 2(2) [OF refl] 2(5) conn in auto)
  qed (use 2 in auto)
qed simp

definition goes_on :: "(icmpd \<Rightarrow> world \<Rightarrow> bool) \<Rightarrow> icmpd + icmpd \<Rightarrow> world \<Rightarrow> bool" where
  "goes_on I v w = (case v of Inl st \<Rightarrow> I st w | Inr st \<Rightarrow> I st w)"

lemma wp_if_ready:
  assumes "\<And>st w. I st w \<Longrightarrow> wp (m st) (yields I) w" "I st w"
  shows "wp (if_ready b m st) (yields (goes_on I)) w"
  unfolding if_ready_def
  by (intro wp_ifI yields_bind [OF assms(1)]) (use assms(2) in \<open>auto simp: goes_on_def\<close>)

lemma wp_and_then:
  assumes "wp m (yields (goes_on I)) w" "\<And>st w'. I st w' \<Longrightarrow> wp (f st) (yields (\<lambda>v w'. case v of Inl st \<Rightarrow> I st w' | Inr _ \<Rightarrow> False)) w'"
  shows "wp (and_then m f) (yields (\<lambda>v w'. case v of Inl st \<Rightarrow> I st w' | Inr (_ :: unit) \<Rightarrow> False)) w"
  unfolding and_then_def
  by (rule yields_bind [OF assms(1)]) (use assms(2) in \<open>auto simp: goes_on_def split: sum.split_asm\<close>)

lemma wp_icmpd_body:
  assumes "icmpd_inv B st w"
  shows "wp (icmpd_body st) (yields (\<lambda>v w'. case v of Inl st' \<Rightarrow> icmpd_inv B st' w' | Inr _ \<Rightarrow> False)) w"
proof -
  have select: "wp (Select n rs [] None) (yields (\<lambda>_ w'. fdt.total w' = fdt.total w)) w" for n rs
    by (auto simp: Select_def split: list.split)
  have last: "wp (bind (serve_clients rset [0..<nat (maxi st' + 1)] st') again)
      (yields (\<lambda>v w'. case v of Inl st' \<Rightarrow> icmpd_inv B st' w' | Inr (_ :: unit) \<Rightarrow> False)) w'"
    if "icmpd_inv B st' w'" for rset st' w'
    by (rule yields_bind [OF wp_serve_clients [OF that]])
      (use that in \<open>auto simp: icmpd_inv_def shape_def again_def\<close>)
  show ?thesis
    unfolding icmpd_body_def Let_def
    by (rule yields_bind [OF select], intro wp_and_then wp_if_ready last wp_readable_listen
        wp_counts counts_v4 counts_v6) (auto intro: icmpd_inv_same [OF assms] counts_v4 counts_v6)
qed

lemma wp_Socket_fds:
  "wp (Socket fam ty pr) (yields (\<lambda>fd w'. 0 \<le> fd \<and> fdt.total w' = opened fd (fdt.total w))) w"
  by (auto simp: Socket_def split: list.split)

lemma quiet_setup [simp]: "fdt.quiet (Bind fd sa)" "fdt.quiet (Listen fd n)"
  "fdt.quiet (call (SysOther nm is ss))"
  by (auto intro!: fdt.quietI simp: Bind_def Listen_def split: list.split)

lemma wp_fd_set:
  "wp (fd_set fd st) (yields (\<lambda>st' w'. st' = st\<lparr>allset := List.insert fd (allset st)\<rparr> \<and> w' = w)) w"
  by (simp add: fd_set_def)

lemma actives_none: "\<forall>c \<in> set (clients st). connfd c < 0 \<Longrightarrow> actives st = {#}"
  by (auto simp: actives_def filter_mset_eq_conv)

lemma wp_icmpd_init:
  assumes "fdt.total w = ({#}, True)"
  shows "wp icmpd_init (yields (icmpd_inv {#})) w"
  unfolding icmpd_init_def Let_def
proof (rule yields_bind [OF wp_Socket_fds], elim conjE, rule yields_bind [OF wp_fd_set], elim conjE,
    rule yields_bind [OF wp_Socket_fds], elim conjE, rule yields_bind [OF wp_fd_set], elim conjE,
    rule yields_bind [OF wp_Socket_fds], elim conjE, rule yields_seq [OF fdt.quietD [OF quiet_setup(3)]],
    rule yields_seq [OF fdt.quietD [OF quiet_setup(1)]], rule yields_seq [OF fdt.quietD [OF quiet_setup(2)]],
    rule yields_bind [OF wp_fd_set], elim conjE)
  fix f4 w1 s1 w2 f6 w3 s2 w4 lfd w5 w6 w7 w8 s3 w9
  assume steps: "fdt.total w1 = opened f4 (fdt.total w)" "w2 = w1" "fdt.total w3 = opened f6 (fdt.total w2)"
    "w4 = w3" "fdt.total w5 = opened lfd (fdt.total w4)" "fdt.total w6 = fdt.total w5"
    "fdt.total w7 = fdt.total w6" "fdt.total w8 = fdt.total w7" "w9 = w8"
    and states: "s1 = \<lparr>clients = replicate FD_SETSIZE no_client, fd4 = f4, fd6 = 0, listenfd = 0, maxi = - 1,
        maxfd = f4, nready = 0, allset = []\<rparr>\<lparr>allset := List.insert f4 (allset \<lparr>clients = replicate FD_SETSIZE
        no_client, fd4 = f4, fd6 = 0, listenfd = 0, maxi = - 1, maxfd = f4, nready = 0, allset = []\<rparr>)\<rparr>"
      "s2 = s1\<lparr>fd6 := f6\<rparr>\<lparr>allset := List.insert f6 (allset (s1\<lparr>fd6 := f6\<rparr>))\<rparr>"
      "s3 = s2\<lparr>maxfd := max (maxfd s2) f6\<rparr>\<lparr>listenfd := lfd\<rparr>\<lparr>allset := List.insert lfd
        (allset (s2\<lparr>maxfd := max (maxfd s2) f6\<rparr>\<lparr>listenfd := lfd\<rparr>))\<rparr>"
  have "icmpd_inv {#} (s3\<lparr>maxfd := max (maxfd s3) lfd\<rparr>) w9"
    using steps assms unfolding states icmpd_inv_def shape_def
    by (auto simp: base_fds_def actives_none opened_def no_client_def no_dup_def)
  then show "wp (ret (s3\<lparr>maxfd := max (maxfd s3) lfd\<rparr>)) (yields (icmpd_inv {#})) w9" by simp
qed

lemma wp_rounds: "icmpd_inv B st w \<Longrightarrow> wp (iterate n icmpd_body st) (yields (icmpd_inv B)) w"
  by (rule wp_iterate [where I = "\<lambda>_. icmpd_inv B" and k = 0, simplified])
    (rule yields_conseq [OF wp_icmpd_body], auto split: sum.split_asm)

text \<open>C25: after any number of rounds of the ICMP daemon, whatever the system answers, the entries
  of its table in use are below \<open>maxi\<close>, and (when the system never gives out a descriptor that
  is open) the descriptors it holds are its three sockets and the connections of the
  table, each once: a client that leaves, fails or passes a socket leaks nothing; \<open>select\<close> is asked
  about exactly these descriptors, and \<open>maxfd\<close> bounds them.
\<close>

theorem icmpd_rounds: "wp (bind icmpd_init (iterate n icmpd_body)) (yields (icmpd_inv {#})) (start rs)"
  by (rule yields_bind [OF wp_icmpd_init wp_rounds]) (simp_all add: fdt.total_start)

theorem icmpd_rounds_witness:
  "\<exists>st w'. bind icmpd_init (iterate 0 icmpd_body) (start [ok 3, ok 4, ok 5, ok 0, ok 0, ok 0, ok 0]) = (Val st, w') \<and>
     honest w' \<and> openfds w' = {#3, 4, 5#} \<and> icmpd_inv {#} st w'"
proof -
  have "wp (bind icmpd_init (iterate 0 icmpd_body)) (\<lambda>r w'. r \<in> range Val \<and> honest w' \<and> openfds w' = {#3, 4, 5#})
    (start [ok 3, ok 4, ok 5, ok 0, ok 0, ok 0, ok 0])"
    by (simp add: icmpd_init_def Socket_def unless_neg_def fd_set_def Bind_def Listen_def ok_def start_def
        fdt.total_def logged_def opened_def FD_SETSIZE_def)
  moreover obtain r w' where run:
    "bind icmpd_init (iterate 0 icmpd_body) (start [ok 3, ok 4, ok 5, ok 0, ok 0, ok 0, ok 0]) = (r, w')"
    by (cases "bind icmpd_init (iterate 0 icmpd_body) (start [ok 3, ok 4, ok 5, ok 0, ok 0, ok 0, ok 0])")
  ultimately show ?thesis
    using icmpd_rounds [of 0 "[ok 3, ok 4, ok 5, ok 0, ok 0, ok 0, ok 0]"]
    unfolding wp_def run by (cases r) auto
qed

text \<open>The loop of \<open>main\<close>.\<close>

lemma shrinks_calls [eating]: "shrinks (Recvfrom fd n fl)"
  "shrinks (Inet_ntop fam a p n)" "shrinks (Read_fd fd n)" "shrinks (sock_bind_wild fd fam)"
  unfolding Recvfrom_def Inet_ntop_def Read_fd_def read_fd_def sock_bind_wild_def
  by (intro eating; auto split: sockaddr.split intro!: eating)+

lemma shrinks_readable [eating]: "shrinks (readable_listen st)" "shrinks (readable_conn i st)"
  "shrinks (readable_v4 st)" "shrinks (readable_v6 st)"
  unfolding readable_listen_def readable_conn_def register_client_def clienterr_def clientdone_def
    client_ok_def return_ready_def fd_set_def Let_def readable_v4_def readable_v6_def udp_error_v4_def
    udp_error_v6_def notify_def
  by (intro eating; (auto intro!: eating)?)+

lemma shrinks_serve_clients [eating]: "shrinks (serve_clients rset is st)"
  by (induction rset "is" st rule: serve_clients.induct) (auto simp: Let_def intro!: eating)

interpretation icmpd_loop: consuming icmpd_body
proof unfold_locales
  fix st
  have counted: "shrinks (if_ready b m s)" if "\<And>s. shrinks (m s)" for b m and s :: icmpd
    unfolding if_ready_def by (intro eating that)
  have chained: "shrinks (and_then m f)" if "shrinks m" "\<And>s. shrinks (f s)"
    for m :: "(icmpd + icmpd) io" and f :: "icmpd \<Rightarrow> (icmpd + unit) io"
    unfolding and_then_def by (intro eating that)
  have select: "eats (Select n rs [] None)" for n rs
    unfolding Select_def by (intro eats_bind1 eating)
  show "cont_eats (icmpd_body st)"
    unfolding icmpd_body_def Let_def
    by (intro cont_eats_bind1 select eating counted chained)
qed

subsection \<open>What the clients are told\<close>

text \<open>The messages a trace has written, with the descriptors.\<close>

definition write_step :: "(int \<times> string) list \<Rightarrow> syscall \<times> sysret \<Rightarrow> (int \<times> string) list" where
  "write_step ms e = (case e of (SysWrite fd s, r) \<Rightarrow> ms @ [(fd, s)] | _ \<Rightarrow> ms)"

interpretation written: tally write_step "[]"
  by unfold_locales (simp_all add: write_step_def)

lemma write_step_simps [simp]: "write_step ms (SysWrite fd s, r) = ms @ [(fd, s)]"
  "write_step ms (SysRecvfrom fd n fl, r) = ms" "write_step ms (SysPut fd s, r) = ms"
  by (simp_all add: write_step_def)

definition listeners :: "int \<Rightarrow> int \<Rightarrow> icmpd \<Rightarrow> client list" where
  "listeners fam sport st = filter (registered fam sport) (take (nat (maxi st + 1)) (clients st))"

definition delivers :: "'a \<Rightarrow> (int \<times> string) list \<Rightarrow> sysret list \<Rightarrow> world \<Rightarrow> 'a res \<Rightarrow> world \<Rightarrow> bool" where
  \<comment> \<open>the result, what has been written since \<open>w\<close>, and the answers left\<close>
  "delivers a ms rest w r w' \<longleftrightarrow> r = Val a \<and> script w' = rest \<and> written.total w' = written.total w @ ms"

lemma wp_notify:
  assumes "script w = replicate (length (listeners fam sport st)) (ok (int (length msg))) @ rest"
  shows "wp (notify fam sport True msg st)
    (delivers () (map (\<lambda>c. (connfd c, msg)) (listeners fam sport st)) rest w) w"
proof -
  have "wp (do_all (map (\<lambda>c. only_if (registered fam sport c) (seq (guard True) (Write (connfd c) msg))) cs))
      (delivers () (map (\<lambda>c. (connfd c, msg)) (filter (registered fam sport) cs)) rest w) w"
    if "script w = replicate (length (filter (registered fam sport) cs)) (ok (int (length msg))) @ rest" for cs w
    using that
  proof (induction cs arbitrary: w)
    case (Cons c cs)
    show ?case
    proof (cases "registered fam sport c")
      case True
      let ?w = "logged (SysWrite (connfd c) msg) (ok (int (length msg))) w"
      have "script ?w = replicate (length (filter (registered fam sport) cs)) (ok (int (length msg))) @ rest"
        using Cons.prems True by (simp add: logged_def)
      from Cons.IH [OF this] show ?thesis
        using Cons.prems True
        by (auto simp: Write_def only_if_def ok_def fits_write_def delivers_def elim!: wp_conseq)
    qed (use Cons in \<open>simp add: only_if_def\<close>)
  qed (simp add: delivers_def)
  from this [OF assms [unfolded listeners_def]] show ?thesis
    by (simp add: notify_def listeners_def)
qed

text \<open>An ICMPv4 error as it arrives: IP header, ICMP header, the IP header and the start of the datagram it is about.\<close>

definition ip_header :: "8 word list \<Rightarrow> bool" where
  "ip_header h \<longleftrightarrow> 20 \<le> length h \<and> length h = 4 * (byte_at h 0 mod 16)"

definition udp_start :: "16 word \<Rightarrow> 16 word \<Rightarrow> 8 word list \<Rightarrow> 8 word list" where
  "udp_start sport dport data = half_bytes sport @ half_bytes dport @ data"

definition error_packet :: "8 word list \<Rightarrow> 8 word \<Rightarrow> 8 word \<Rightarrow> 8 word list \<Rightarrow> 8 word list \<Rightarrow> 8 word list \<Rightarrow> 8 word list" where
  "error_packet outer ty code unused inner udp = outer @ ty # code # unused @ inner @ udp"

lemma Sock_ntop_host_ret: "\<exists>s. Sock_ntop_host sa n = ret s"
proof (cases "sock_ntop_host sa n")
  case (Inl e)
  then show ?thesis
    by (cases "(sa, n)" rule: sock_ntop_host.cases) (simp_all add: inet_ntop_v4 inet_ntop_v6 split: if_splits)
qed (auto simp: Sock_ntop_host_def intro: exI)

lemma Inet_ntop_ret: "\<exists>s. Inet_ntop AF_INET a True 16 = ret s" "\<exists>s. Inet_ntop AF_INET6 a True 46 = ret s"
  by (auto simp: Inet_ntop_def inet_ntop_v4 inet_ntop_v6 intro: exI)

lemma byte_at_append: "byte_at (xs @ ys) i = (if i < length xs then byte_at xs i else byte_at ys (i - length xs))"
  by (simp add: byte_at_def nth_append)

lemma half_at_append: "half_at (xs @ ys) (length xs + i) = half_at ys i"
  by (simp add: half_at_def nth_append)

lemma slice_append: "slice (length xs + i) n (xs @ ys) = slice i n ys"
  by (simp add: slice_def)

lemma half_at_udp: "half_at (udp_start sport dport data) 0 = sport" "half_at (udp_start sport dport data) 2 = dport"
  using half_at_bytes [of "[]" sport "half_bytes dport @ data"] half_at_bytes [of "half_bytes sport" dport data]
  by (simp_all add: udp_start_def half_bytes_def numeral_2_eq_2)

lemma error_packet_fields:
  assumes "ip_header outer" "ip_header inner" "length unused = 6"
    and buf_def: "buf = error_packet outer ty code unused inner (udp_start sport dport rest)"
  shows "4 * (byte_at buf 0 mod 16) = length outer" "byte_at buf (length outer) = unat ty"
    "byte_at buf (length outer + 1) = unat code" "byte_at buf (length outer + 8 + i) = byte_at (inner @ udp_start sport dport rest) i"
    "slice (length outer + 8 + i) n buf = slice i n (inner @ udp_start sport dport rest)"
    "half_at buf (length outer + 8 + length inner) = sport"
    "half_at buf (length outer + 8 + length inner + 2) = dport"
proof -
  have buf: "buf = (outer @ ty # code # unused) @ inner @ udp_start sport dport rest"
    "buf = (outer @ ty # code # unused @ inner) @ udp_start sport dport rest"
    by (simp_all add: buf_def error_packet_def)
  have len: "length (outer @ ty # code # unused) = length outer + 8"
    "length (outer @ ty # code # unused @ inner) = length outer + 8 + length inner"
    using assms(3) by simp_all
  show "4 * (byte_at buf 0 mod 16) = length outer"
    using assms(1) by (simp add: buf byte_at_append ip_header_def)
  show "byte_at buf (length outer) = unat ty" "byte_at buf (length outer + 1) = unat code"
    by (simp_all add: buf(1) byte_at_def nth_append)
  show "byte_at buf (length outer + 8 + i) = byte_at (inner @ udp_start sport dport rest) i"
    unfolding buf(1) byte_at_append len by simp
  show "slice (length outer + 8 + i) n buf = slice i n (inner @ udp_start sport dport rest)"
    unfolding buf(1) len(1) [symmetric] by (rule slice_append)
  show "half_at buf (length outer + 8 + length inner) = sport"
    using half_at_append [of "outer @ ty # code # unused @ inner" "udp_start sport dport rest" 0]
    unfolding buf(2) len by (simp add: half_at_udp)
  show "half_at buf (length outer + 8 + length inner + 2) = dport"
    using half_at_append [of "outer @ ty # code # unused @ inner" "udp_start sport dport rest" 2]
    unfolding buf(2) len by (simp add: half_at_udp)
qed

lemma bind_ret_ex: "\<exists>s. m = ret s \<Longrightarrow> (\<And>s. wp (f s) Q w) \<Longrightarrow> wp (bind m f) Q w"
  by auto

lemma wp_bind_Recvfrom:
  assumes "script w = okdata s # rs" "length s \<le> n"
    and "wp (f (okdata s)) Q (logged (SysRecvfrom fd n fl) (okdata s) w)"
  shows "wp (bind (Recvfrom fd n fl) f) Q w"
  using assms by (simp add: Recvfrom_def unless_neg_def ret_defs fits_read_def)

lemma delivers_from:
  "wp m (delivers a ms rest w1) w1 \<Longrightarrow> written.total w1 = written.total w \<Longrightarrow> wp m (delivers a ms rest w) w1"
  by (erule wp_conseq) (simp add: delivers_def)

lemma wp_Printf_deliver:
  assumes "\<And>w'. script w' = script w \<Longrightarrow> written.total w' = written.total w \<Longrightarrow> wp m Q w'"
  shows "wp (seq (Printf s) m) Q w"
  by (simp, rule assms) (simp add: said_def, simp)

text \<open>C26: an ICMPv4 error (unreachable, time exceeded or source quench) about a UDP datagram is
  passed on to every client that registered the datagram's source port for IPv4, once each, with
  the error number for its type and code and the datagram's destination; nothing else is
  written, and no other answer of the system is taken.
\<close>

theorem icmp_error_delivered:
  assumes "ip_header outer" "ip_header inner" "length unused = 6" "byte_at inner 9 = 17" "4 \<le> length data"
    and "unat ty \<in> {3, 4, 11}"
    and "packet = error_packet outer ty code unused inner (udp_start sport dport data)" "length packet \<le> MAXLINE"
    and "err = (if unat ty = 3 \<and> unat code = 3 then ECONNREFUSED
      else if unat ty = 3 \<and> unat code = 4 then EMSGSIZE else EHOSTUNREACH)"
    and "msg = icmpd_err err (unat ty) (unat code) (SaIn dport (slice 16 4 inner))"
    and "script w = okdata (chars packet) # replicate (length (listeners AF_INET (uint sport) st)) (ok (int (length msg))) @ rest"
  shows "\<exists>w'. readable_v4 st w = (Val (st\<lparr>nready := nready st - 1\<rparr>), w') \<and> script w' = rest \<and>
    written.total w' = written.total w @ map (\<lambda>c. (connfd c, msg)) (listeners AF_INET (uint sport) st)"
proof -
  note fields = error_packet_fields [OF assms(1,2,3,7)]
  let ?h = "length outer" and ?st = "st\<lparr>nready := nready st - 1\<rparr>"
  define w1 where "w1 = logged (SysRecvfrom (fd4 st) MAXLINE 0) (okdata (chars packet)) w"
  have w1: "script w1 = replicate (length (listeners AF_INET (uint sport) st)) (ok (int (length msg))) @ rest"
    "written.total w1 = written.total w"
    using assms(11) by (simp_all add: w1_def)
  have len: "length packet = ?h + 8 + length inner + 4 + length data" "20 \<le> length inner" "20 \<le> ?h"
    using assms(1,2,3,7) by (simp_all add: error_packet_def udp_start_def half_bytes_def ip_header_def)
  have ne: "inner \<noteq> []" using len(2) by auto
  have inner: "byte_at packet (?h + 8 + 9) = 17" "slice (?h + 8 + 16) 4 packet = slice 16 4 inner"
    "4 * (byte_at packet (?h + 8) mod 16) = length inner"
    using fields(4) [of 9] fields(4) [of 0] fields(5) [of 16 4] assms(2,4) len ne
    by (simp_all add: byte_at_append slice_def ip_header_def)
  have err: "errno_v4 (unat ty) (unat code) = err"
    by (simp add: errno_v4_def assms(9) ICMP_UNREACH_def ICMP_UNREACH_PORT_def ICMP_UNREACH_NEEDFRAG_def)
  have told: "wp (udp_error_v4 packet ?h st)
      (delivers () (map (\<lambda>c. (connfd c, msg)) (listeners AF_INET (uint sport) st)) rest w2) w2"
    if "script w2 = script w1" for w2
  proof -
    have "wp (notify AF_INET (uint sport) (?h + 8 + length inner + 4 \<le> length packet) msg st)
      (delivers () (map (\<lambda>c. (connfd c, msg)) (listeners AF_INET (uint sport) st)) rest w3) w3"
      if "script w3 = script w2" for w3
      using wp_notify [of w3 AF_INET "uint sport" st msg rest] that \<open>script w2 = script w1\<close> w1(1) len
      by simp
    then show ?thesis
      unfolding udp_error_v4_def Let_def inner fields(2,3,6,7) err assms(10) [symmetric]
      using len
      by (intro bind_ret_ex Inet_ntop_ret wp_Printf_deliver) (auto simp: IPPROTO_UDP_def intro: delivers_from)
  qed
  have vals: "r_val (okdata (chars packet)) = int (length packet)" "bytes (r_data (okdata (chars packet))) = packet"
    by (simp_all add: ret_defs)
  have done_rest: "wp (seq (udp_error_v4 packet ?h st) (return_ready st))
      (delivers ?st (map (\<lambda>c. (connfd c, msg)) (listeners AF_INET (uint sport) st)) rest w) w3"
    if "script w3 = script w1" "written.total w3 = written.total w1" for w3
    unfolding wp_seq
    by (rule wp_conseq [OF told [OF that(1)]])
      (use that w1(2) in \<open>auto simp: delivers_def on_val_def return_ready_def\<close>)
  have "wp (readable_v4 st) (delivers ?st (map (\<lambda>c. (connfd c, msg)) (listeners AF_INET (uint sport) st)) rest w) w"
    unfolding readable_v4_def Let_def
    by (rule wp_bind_Recvfrom [OF assms(11)], simp add: assms(8), fold w1_def,
      rule bind_ret_ex [OF Sock_ntop_host_ret], rule wp_Printf_deliver, unfold vals fields(1-3))
      (use len assms(5,6) in \<open>auto simp del: wp_seq simp: wp_seq [of "guard b" for b] ICMP_UNREACH_def
        ICMP_TIMXCEED_def ICMP_SOURCEQUENCH_def intro!: wp_Printf_deliver done_rest\<close>)
  then show ?thesis by (auto simp: wp_def delivers_def split: prod.splits)
qed

definition example_icmpd :: icmpd where
  "example_icmpd = \<lparr>clients = [\<lparr>connfd = 6, family = AF_INET, lport = 4660\<rparr>,
     \<lparr>connfd = 7, family = AF_INET, lport = 80\<rparr>, \<lparr>connfd = 8, family = AF_INET, lport = 4660\<rparr>],
     fd4 = 3, fd6 = 4, listenfd = 5, maxi = 2, maxfd = 8, nready = 1, allset = [3, 4, 5, 6, 7, 8]\<rparr>"

theorem icmp_error_delivered_witness:
  "let outer = 0x45 # replicate 19 0; inner = 0x45 # replicate 8 0 @ [17, 0, 0, 10, 0, 0, 1, 10, 0, 0, 2];
       packet = error_packet outer 3 3 (replicate 6 0) inner (udp_start 4660 53 [0, 0, 0, 0]);
       msg = icmpd_err ECONNREFUSED 3 3 (SaIn 53 [10, 0, 0, 2]) in
   \<exists>w'. readable_v4 example_icmpd (start [okdata (chars packet), ok (int (length msg)), ok (int (length msg))]) =
     (Val (example_icmpd\<lparr>nready := 0\<rparr>), w') \<and> script w' = [] \<and> written.total w' = [(6, msg), (8, msg)]"
proof -
  let ?outer = "0x45 # replicate 19 0 :: 8 word list"
  let ?inner = "0x45 # replicate 8 0 @ [17, 0, 0, 10, 0, 0, 1, 10, 0, 0, 2] :: 8 word list"
  let ?packet = "error_packet ?outer 3 3 (replicate 6 0) ?inner (udp_start 4660 53 [0, 0, 0, 0])"
  let ?msg = "icmpd_err ECONNREFUSED 3 3 (SaIn 53 [10, 0, 0, 2])"
  have len: "length ?packet = 56"
    by (simp add: error_packet_def udp_start_def half_bytes_def)
  have two: "listeners AF_INET 4660 example_icmpd = [\<lparr>connfd = 6, family = AF_INET, lport = 4660\<rparr>, \<lparr>connfd = 8, family = AF_INET, lport = 4660\<rparr>]"
    by (simp add: listeners_def example_icmpd_def registered_def)
  have bytes: "slice 16 4 ?inner = [10, 0, 0, 2]" "byte_at ?inner 9 = 17" "ip_header ?outer" "ip_header ?inner"
    by code_simp+
  have "\<exists>w'. readable_v4 example_icmpd (start [okdata (chars ?packet), ok (int (length ?msg)), ok (int (length ?msg))]) =
      (Val (example_icmpd\<lparr>nready := nready example_icmpd - 1\<rparr>), w') \<and> script w' = [] \<and>
      written.total w' = written.total (start [okdata (chars ?packet), ok (int (length ?msg)), ok (int (length ?msg))]) @
        map (\<lambda>c. (connfd c, ?msg)) (listeners AF_INET (uint (4660 :: 16 word)) example_icmpd)"
    by (rule icmp_error_delivered [where ty = 3 and code = 3 and unused = "replicate 6 0" and dport = 53
        and data = "[0, 0, 0, 0]" and outer = ?outer and inner = ?inner and packet = ?packet and err = ECONNREFUSED])
      (use len two bytes in \<open>simp_all add: MAXLINE_def start_def\<close>)
  then show ?thesis
    unfolding Let_def by (simp add: two written.total_start) (simp add: example_icmpd_def)
qed

subsection \<open>Two defects\<close>

text \<open>C27: the entry of a client that has left keeps its family and port, and the next connection gets the
  entry as it is: a new client is told of the errors of its predecessor's port before it has
  registered any socket.
\<close>

theorem icmpd_stale_entry:
  assumes "shape st" "i < FD_SETSIZE" "list_all (\<lambda>c. 0 \<le> connfd c) (take i (clients st))"
    and "registered fam port (clients st ! i)"
  shows "wp (bind (clientdone i (connfd (clients st ! i)) (- 1) st) readable_listen)
    (yields (\<lambda>st' w'. registered fam port (clients st' ! i) \<and> connfd (clients st' ! i) \<in># openfds w')) w"
proof -
  let ?free = "\<lambda>st i. connfd (clients st ! i) < 0"
  have len: "i < length (clients st)" "length (clients st) = FD_SETSIZE" using assms(1,2) by (simp_all add: shape_def)
  have free: "List.find (?free s) [0..<FD_SETSIZE] = Some i"
    if "clients s = (clients st)[i := c]" "connfd c < 0" for s c
    unfolding find_Some_iff
    using assms(2,3) len that by (auto simp: list_all_length not_less intro!: exI [of _ i])
  have listen: "wp (readable_listen s)
      (yields (\<lambda>st' w'. registered fam port (clients st' ! i) \<and> connfd (clients st' ! i) \<in># openfds w')) w'"
    if s: "clients s = (clients st)[i := (clients st ! i)\<lparr>connfd := - 1\<rparr>]" for s w'
    unfolding readable_listen_def Let_def
  proof (rule yields_bind [OF wp_accept_fds], elim conjE)
    fix r w2
    assume "0 \<le> r_val r" "fdt.total w2 = opened (r_val r) (fdt.total w')"
    then show "wp (case List.find (?free s) [0..<FD_SETSIZE] of
         None \<Rightarrow> seq (call (SysClose (r_val r))) (return_ready s)
       | Some i \<Rightarrow>
         seq (Printf (''new connection, i = '' @ dec i @ '', connfd = '' @ dec_int (r_val r) @ [newline]))
        (bind (fd_set (r_val r) (set_client i ((clients s ! i)\<lparr>connfd := r_val r\<rparr>) s)) (\<lambda>s.
          return_ready
            (if maxi (if maxfd s < r_val r then s\<lparr>maxfd := r_val r\<rparr> else s) < int i
             then (if maxfd s < r_val r then s\<lparr>maxfd := r_val r\<rparr> else s)\<lparr>maxi := int i\<rparr>
             else (if maxfd s < r_val r then s\<lparr>maxfd := r_val r\<rparr> else s)))))
      (yields (\<lambda>st' w'. registered fam port (clients st' ! i) \<and> connfd (clients st' ! i) \<in># openfds w')) w2"
      using free [OF s] len assms(4) unfolding grow_maxima
      by (simp add: s fd_set_def return_ready_def registered_def opened_def)
  qed
  have left: "wp (clientdone i u (- 1) st)
      (yields (\<lambda>s _. clients s = (clients st)[i := (clients st ! i)\<lparr>connfd := - 1\<rparr>])) w" for u
    unfolding clientdone_def Let_def
    by (rule yields_seq [OF wp_Close_fds]) (simp add: only_if_def return_ready_def)
  show ?thesis by (rule yields_bind [OF left listen])
qed

theorem icmpd_stale_entry_witness:
  "let left = example_icmpd\<lparr>clients := replicate FD_SETSIZE no_client, maxi := 0\<rparr>;
       st = set_client 0 \<lparr>connfd = 6, family = AF_INET, lport = 4660\<rparr> left in
   wp (bind (clientdone 0 6 (- 1) st) readable_listen)
     (yields (\<lambda>st' w'. registered AF_INET 4660 (clients st' ! 0) \<and> connfd (clients st' ! 0) \<in># openfds w')) (start [ok 0, ok 9])"
proof -
  let ?st = "set_client 0 \<lparr>connfd = 6, family = AF_INET, lport = 4660\<rparr>
    (example_icmpd\<lparr>clients := replicate FD_SETSIZE no_client, maxi := 0\<rparr>)"
  have "shape ?st" by (auto simp: shape_def nth_list_update no_client_def FD_SETSIZE_def)
  then show ?thesis
    using icmpd_stale_entry [of ?st 0 AF_INET 4660 "start [ok 0, ok 9]"]
    by (simp add: FD_SETSIZE_def registered_def)
qed

text \<open>C28: an ICMPv6 error is required to have 16 bytes, where the header it is about has 40 and starts at 8: of a
  message of 16 to 47 bytes the daemon prints and follows bytes that were never received.  A message
  too short even for the test ends the daemon, with all its clients.
\<close>

theorem icmpd_short_packets:
  assumes "script w = okdata (chars packet) # rest" "length packet < 48"
  shows "wp (readable_v6 st) (\<lambda>r w'.
    r = (if length packet < 8 then Exited 1
         else if unat (packet ! 0) \<notin> {1, 2, 3} then Val (st\<lparr>nready := nready st - 1\<rparr>)
         else if length packet < 16 then Exited 1 else Undef)) w"
proof -
  have vals: "r_val (okdata (chars packet)) = int (length packet)" "bytes (r_data (okdata (chars packet))) = packet"
    by (simp_all add: ret_defs)
  show ?thesis
    unfolding readable_v6_def Let_def
    by (rule wp_bind_Recvfrom [OF assms(1)], use assms(2) in \<open>simp add: MAXLINE_def\<close>, rule bind_ret_ex [OF Sock_ntop_host_ret],
        rule wp_Printf_deliver, unfold vals, intro wp_ifI)
      (use assms(2) in \<open>auto simp: udp_error_v6_def return_ready_def byte_at_def ICMP6_DST_UNREACH_def ICMP6_PACKET_TOO_BIG_def
        ICMP6_TIME_EXCEEDED_def\<close>)
qed

theorem icmpd_short_packets_witness:
  "wp (readable_v6 example_icmpd) (\<lambda>r w'. r = Undef) (start [okdata (chars (1 # replicate 15 0))])"
  using icmpd_short_packets [of "start [okdata (chars (1 # replicate 15 0))]" "1 # replicate 15 0" "[]" example_icmpd]
  by (simp add: start_def)

end
