(* ===== verification/Pthreads.thy ===== *)
theory Pthreads
  imports Wrappers
begin

text \<open>
  lib/wrappthread.c: the wrappers of the thread library.  A function of that library returns 0 or
  the error number; the wrapper returns only after 0 and otherwise stores the number in \<open>errno\<close>
  and ends the process.  Thread functions are given by their names.
\<close>

definition pthread :: "string \<Rightarrow> int list \<Rightarrow> string list \<Rightarrow> unit io" where
  "pthread nm args names =
     bind (call (SysOther (''pthread_'' @ nm) args names)) (\<lambda>n.
     if n = 0 then ret ()
     else seq (set_errno n) (err_sys (''pthread_'' @ nm @ '' error'')))"

definition Pthread_create :: "int \<Rightarrow> int \<Rightarrow> string \<Rightarrow> int \<Rightarrow> unit io" where
  "Pthread_create tid attr func arg = pthread ''create'' [tid, attr, arg] [func]"

definition Pthread_join :: "int \<Rightarrow> int \<Rightarrow> unit io" where
  "Pthread_join tid status = pthread ''join'' [tid, status] []"

definition Pthread_detach :: "int \<Rightarrow> unit io" where
  "Pthread_detach tid = pthread ''detach'' [tid] []"

definition Pthread_kill :: "int \<Rightarrow> int \<Rightarrow> unit io" where
  "Pthread_kill tid signo = pthread ''kill'' [tid, signo] []"

definition Pthread_mutexattr_init :: "int \<Rightarrow> unit io" where
  "Pthread_mutexattr_init attr = pthread ''mutexattr_init'' [attr] []"

definition Pthread_mutexattr_setpshared :: "int \<Rightarrow> int \<Rightarrow> unit io" where
  "Pthread_mutexattr_setpshared attr flag = pthread ''mutexattr_setpshared'' [attr, flag] []"

definition Pthread_mutex_init :: "int \<Rightarrow> int \<Rightarrow> unit io" where
  "Pthread_mutex_init mptr attr = pthread ''mutex_init'' [mptr, attr] []"

definition Pthread_mutex_lock :: "int \<Rightarrow> unit io" where
  "Pthread_mutex_lock mptr = pthread ''mutex_lock'' [mptr] []"

definition Pthread_mutex_unlock :: "int \<Rightarrow> unit io" where
  "Pthread_mutex_unlock mptr = pthread ''mutex_unlock'' [mptr] []"

definition Pthread_cond_broadcast :: "int \<Rightarrow> unit io" where
  "Pthread_cond_broadcast cptr = pthread ''cond_broadcast'' [cptr] []"

definition Pthread_cond_signal :: "int \<Rightarrow> unit io" where
  "Pthread_cond_signal cptr = pthread ''cond_signal'' [cptr] []"

definition Pthread_cond_wait :: "int \<Rightarrow> int \<Rightarrow> unit io" where
  "Pthread_cond_wait cptr mptr = pthread ''cond_wait'' [cptr, mptr] []"

definition Pthread_cond_timedwait :: "int \<Rightarrow> int \<Rightarrow> int \<times> int \<Rightarrow> unit io" where
  "Pthread_cond_timedwait cptr mptr ts = pthread ''cond_timedwait'' [cptr, mptr, fst ts, snd ts] []"

definition Pthread_once :: "int \<Rightarrow> string \<Rightarrow> unit io" where
  "Pthread_once ptr func = pthread ''once'' [ptr] [func]"

definition Pthread_key_create :: "int \<Rightarrow> string \<Rightarrow> unit io" where
  "Pthread_key_create key func = pthread ''key_create'' [key] [func]"

definition Pthread_setspecific :: "int \<Rightarrow> int \<Rightarrow> unit io" where
  "Pthread_setspecific key v = pthread ''setspecific'' [key, v] []"

lemma shrinks_pthread [eating]: "shrinks (pthread nm args names)"
  unfolding pthread_def by (intro eating)

lemma wp_pthread [simp]:
  "wp (pthread nm args names) Q w =
     (case script w of [] \<Rightarrow> Q Blocked w
      | r # rs \<Rightarrow>
          let w' = logged (SysOther (''pthread_'' @ nm) args names) r w in
          if r_val r = 0 then Q (Val ()) w'
          else Q (Exited 1) (err_world True LOG_ERR (''pthread_'' @ nm @ '' error'') (w'\<lparr>errno := r_val r\<rparr>)))"
  by (simp add: pthread_def Let_def split: list.split)

end
