(* ===== verification/WebChild.thy ===== *)
theory WebChild
  imports StreamIO
begin

text \<open>
  The request handler of the servers in server/: server/web_child.c, with lib/readline.c for the
  servers of processes and with server/readline.c for those of threads, and
  server/web_child_r.c, over server/readline_r.c.

  A request is a line with a number, the reply as many bytes.  The locale \<open>line_reader\<close> is the
  contract of the function that reads the lines; it is interpreted by the three readers.  Proved
  here: a client gets for its requests the bytes it has asked for, in order, and no byte of it
  is left for the next client; a client that writes well-formed requests is served to the end.
\<close>

subsection \<open>web_child.c, web_child_r.c\<close>

definition MAXN :: nat where "MAXN = 16384"

definition web_body :: "('s \<Rightarrow> (int \<times> string \<times> 's) io) \<Rightarrow> int \<Rightarrow> string \<Rightarrow> 's \<Rightarrow> ('s + 's) io" where
  \<comment> \<open>\<open>rd\<close> reads a line; \<open>result\<close> is not initialised\<close>
  "web_body rd sockfd result st =
     bind (rd st) (\<lambda>(nread, line, st).
     if nread = 0 then stop st \<comment> \<open>connection closed by other end\<close>
     else
       let ntowrite = to_int (atoi line) in
       if ntowrite \<le> 0 \<or> int MAXN < ntowrite then err_quit (''client request for '' @ dec_int ntowrite @ '' bytes'')
       else seq (guard (nat ntowrite \<le> length result))
        (seq (Writen sockfd (take (nat ntowrite) result)) (again st)))"

definition web_child :: "int \<Rightarrow> string \<Rightarrow> rline \<Rightarrow> rline io" where
  \<comment> \<open>the state is the static buffer of \<open>readline\<close>\<close>
  "web_child sockfd result st = loop (web_body (Readline sockfd MAXLINE) sockfd result) st"

definition web_child_threads :: "int \<Rightarrow> string \<Rightarrow> unit io" where
  "web_child_threads sockfd result =
     loop (web_body (\<lambda>_. bind (server_Readline sockfd MAXLINE) (\<lambda>(n, line). ret (n, line, ()))) sockfd result) ()"

definition web_child_r :: "int \<Rightarrow> string \<Rightarrow> unit io" where
  "web_child_r sockfd result =
     bind (loop (web_body Readline_r sockfd result) (readline_rinit sockfd MAXLINE)) (\<lambda>_. ret ())"

subsection \<open>The contract of the reader\<close>

interpretation outs: tally "\<lambda>s e. s @ bytes_out fd e" "[]" for fd
  by unfold_locales (simp_all add: bytes_out_def)

lemma outs_total: "outs.total fd w = stream_out fd (trace w)"
proof -
  have "foldl (\<lambda>s e. s @ bytes_out fd e) s log = s @ stream_out fd log" for s log
    by (induction log arbitrary: s) (simp_all add: stream_out_def)
  then show ?thesis by (simp add: outs.total_def)
qed

definition is_line :: "string \<Rightarrow> bool" where
  "is_line l \<longleftrightarrow> l \<noteq> [] \<and> newline \<notin> set (butlast l) \<and> length l < MAXLINE"

definition reader_post :: "('s \<Rightarrow> bool) \<Rightarrow> ('s \<Rightarrow> string) \<Rightarrow> int \<Rightarrow> 's \<Rightarrow> (syscall \<times> sysret) list
    \<Rightarrow> (int \<times> string \<times> 's) res \<Rightarrow> world \<Rightarrow> bool" where
  "reader_post good pend fd st log r w =
     (case r of
        Val (v, buf, st') \<Rightarrow> good st' \<and>
          extends (\<lambda>new. pend st @ stream_in fd new = buf @ pend st' \<and> stream_out fd new = []) log w \<and>
          (if v = 0 then buf = [] \<and> pend st' = [] else is_line buf)
      | Exited c \<Rightarrow> c = 1 \<and> extends (\<lambda>new. stream_out fd new = []) log w
      | Undef \<Rightarrow> False
      | Blocked \<Rightarrow> True)"

definition reply :: "string \<Rightarrow> string \<Rightarrow> string" where
  "reply result line = take (nat (to_int (atoi line))) result"

definition valid_request :: "string \<Rightarrow> bool" where
  "valid_request l \<longleftrightarrow> is_line l \<and> 0 < to_int (atoi l) \<and> to_int (atoi l) \<le> int MAXN"

definition replies :: "string \<Rightarrow> string list \<Rightarrow> string" where
  "replies result ls = concat (map (reply result) ls)"

text \<open>
  What a handler leaves: when it returns, all the bytes of the client were requests and each
  has its reply; when it exits, what was written are replies, the last perhaps in part.
\<close>

definition web_post :: "('s \<Rightarrow> bool) \<Rightarrow> ('s \<Rightarrow> string) \<Rightarrow> int \<Rightarrow> string \<Rightarrow> 's \<Rightarrow> (syscall \<times> sysret) list
    \<Rightarrow> 's res \<Rightarrow> world \<Rightarrow> bool" where
  "web_post good pend fd result st log r w =
     (case r of
        Val st' \<Rightarrow> good st' \<and> pend st' = [] \<and>
          extends (\<lambda>new. \<exists>ls. list_all valid_request ls \<and> pend st @ stream_in fd new = concat ls \<and>
            stream_out fd new = replies result ls) log w
      | Exited c \<Rightarrow> c = 1 \<and>
          extends (\<lambda>new. \<exists>ls. list_all valid_request ls \<and> prefix (concat ls) (pend st @ stream_in fd new) \<and>
            prefix (stream_out fd new) (replies result ls)) log w
      | Undef \<Rightarrow> False
      | Blocked \<Rightarrow> True)"

definition web_inv :: "('s \<Rightarrow> bool) \<Rightarrow> ('s \<Rightarrow> string) \<Rightarrow> int \<Rightarrow> string \<Rightarrow> 's \<Rightarrow> (syscall \<times> sysret) list
    \<Rightarrow> 's \<Rightarrow> world \<Rightarrow> bool" where
  "web_inv good pend fd result st0 log st w \<longleftrightarrow> good st \<and>
     extends (\<lambda>new. \<exists>ls. list_all valid_request ls \<and> pend st0 @ stream_in fd new = concat ls @ pend st \<and>
       stream_out fd new = replies result ls) log w"

lemma eats_Writen: "s \<noteq> [] \<Longrightarrow> eats (Writen fd s)"
proof -
  assume s: "s \<noteq> []"
  have "eats (writen fd s)"
    unfolding writen_def
    by (subst writen.loop_unfold, rule eats_bind1)
      (use s in \<open>auto simp: writen_body_def intro!: eats_bind1 eats_call eating writen.shrinks_body split: sum.split\<close>)
  then show ?thesis unfolding Writen_def by (intro eats_bind1 eating)
qed

lemma cont_eats_guard: "(b \<Longrightarrow> cont_eats m) \<Longrightarrow> cont_eats (seq (guard b) m)"
proof (cases b)
  case False
  then have "seq (guard b) m = undef" by (simp add: guard_def seq_def bind_def undef_def fun_eq_iff)
  then show ?thesis by (simp add: cont_eats_undef)
qed (simp add: guard_def seq_def bind_ret)

lemma extends_append: "trace w = log @ old \<Longrightarrow> extends P (trace w) w' \<Longrightarrow> extends (\<lambda>new. \<exists>n. new = old @ n \<and> P n) log w'"
  by (auto simp: extends_def)

locale line_reader =
  fixes rd :: "'s \<Rightarrow> (int \<times> string \<times> 's) io"
    and good :: "'s \<Rightarrow> bool"
    and pend :: "'s \<Rightarrow> string"
    and fd :: int
  assumes reads: "good st \<Longrightarrow> wp (rd st) (reader_post good pend fd st (trace w)) w"
    and takes: "shrinks (rd st)"
begin

lemma web_eats: "cont_eats (web_body rd fd result st)"
proof -
  have sending: "cont_eats (seq (Writen fd s) (again st'))" if "s \<noteq> []" for s and st' :: 's
    unfolding seq_def by (intro cont_eats_bind1 eats_Writen that eating)
  show ?thesis
    unfolding web_body_def Let_def
    by (intro cont_eats_bind2 takes cont_eats_case_prod cont_eats_if cont_eats_stop cont_eats_err_quit
        cont_eats_guard sending) auto
qed

end

sublocale line_reader \<subseteq> web: consuming "web_body rd fd result" for result
  by unfold_locales (rule web_eats)

context line_reader begin

lemma wp_web_body:
  assumes inv: "web_inv good pend fd result st0 log st w" and result: "MAXN \<le> length result"
  shows "wp (web_body rd fd result st)
    (body_post (web_inv good pend fd result st0 log) (web_post good pend fd result st0 log)) w"
proof -
  let ?Q = "body_post (web_inv good pend fd result st0 log) (web_post good pend fd result st0 log)"
  have good: "good st" using inv by (simp add: web_inv_def)
  obtain new ls where new: "trace w = log @ new" "list_all valid_request ls"
    "pend st0 @ stream_in fd new = concat ls @ pend st" "stream_out fd new = replies result ls"
    using inv by (auto simp: web_inv_def extends_def)
  have join: "pend st0 @ stream_in fd new @ x = concat ls @ pend st @ x" for x
    using new(3) by (metis append.assoc)
  have exited: "web_post good pend fd result st0 log (Exited 1) w'"
    if "extends (\<lambda>n. list_all valid_request more \<and> prefix (concat more) (pend st @ stream_in fd n) \<and>
      prefix (stream_out fd n) (replies result more)) (trace w) w'" for w' more
    using extends_append [OF new(1) that] new(2-4)
    by (auto simp: web_post_def replies_def elim!: extends_weaken intro!: exI [of _ "ls @ more"])
      (metis append.assoc prefix_def same_prefix_prefix)
  have exited_none: "web_post good pend fd result st0 log (Exited 1) w'"
    if "extends (\<lambda>n. stream_out fd n = []) (trace w) w'" for w'
    by (rule exited [of "[]"], rule extends_weaken [OF that]) simp
  have web_blocked: "web_post good pend fd result st0 log Blocked w'" for w'
    by (simp add: web_post_def)
  show ?thesis
    unfolding web_body_def wp_bind
  proof (rule wp_conseq [OF reads [OF good]])
    fix r :: "(int \<times> string \<times> 's) res" and w1
    assume post: "reader_post good pend fd st (trace w) r w1"
    show "on_val (\<lambda>a. wp (case a of (nread, line, st) \<Rightarrow>
        if nread = 0 then stop st
        else let ntowrite = to_int (atoi line) in
          if ntowrite \<le> 0 \<or> int MAXN < ntowrite then err_quit (''client request for '' @ dec_int ntowrite @ '' bytes'')
          else seq (guard (nat ntowrite \<le> length result))
            (seq (Writen fd (take (nat ntowrite) result)) (again st))) ?Q) ?Q r w1"
    proof (cases r)
      case (Val a)
      obtain v buf st' where a: "a = (v, buf, st')" by (cases a)
      let ?n = "to_int (atoi buf)"
      from post have good': "good st'"
        and more: "extends (\<lambda>n. pend st @ stream_in fd n = buf @ pend st' \<and> stream_out fd n = []) (trace w) w1"
        and ends: "if v = 0 then buf = [] \<and> pend st' = [] else is_line buf"
        by (simp_all add: reader_post_def Val a)
      have quits: "?Q (Exited 1) (err_world False LOG_ERR msg w1)" for msg
      proof -
        have "extends (\<lambda>n. stream_out fd n = []) (trace w) (err_world False LOG_ERR msg w1)"
          by (rule extends_err [OF extends_weaken [OF more]]) simp_all
        then show ?thesis using exited_none by simp
      qed
      have done_all: "?Q (Val (Inr st')) w1" if "v = 0"
        using extends_append [OF new(1) more] new(2-4) good' ends that
        by (auto simp: web_post_def elim!: extends_weaken)
      have served: "wp (seq (Writen fd (take (nat ?n) result)) (again st')) ?Q w1"
        if "v \<noteq> 0" "0 < ?n" "?n \<le> int MAXN"
      proof -
        have req: "valid_request buf" using ends that by (simp add: valid_request_def)
        have after: "extends (\<lambda>n. pend st @ stream_in fd n = buf @ pend st' \<and> P (stream_out fd n)) (trace w) w2"
          if "extends (\<lambda>n. P (stream_out fd n) \<and> (\<forall>fd'. stream_in fd' n = [])) (trace w1) w2" for P w2
          using more that unfolding extends_def by (elim exE conjE) (simp add: exI [of _ "_ @ _"])
        have on: "web_inv good pend fd result st0 log st' w2"
          if "extends (\<lambda>n. stream_out fd n = take (nat ?n) result \<and> (\<forall>fd'. stream_in fd' n = [])) (trace w1) w2" for w2
          using extends_append [OF new(1) after [OF that]] new(2,4) good' req
          by (auto simp: web_inv_def replies_def reply_def join elim!: extends_weaken intro!: exI [of _ "ls @ [buf]"])
        have off: "web_post good pend fd result st0 log (Exited 1) w2"
          if "extends (\<lambda>n. prefix (stream_out fd n) (take (nat ?n) result) \<and> (\<forall>fd'. stream_in fd' n = [])) (trace w1) w2" for w2
          by (rule exited [of "[buf]"], rule extends_weaken [OF after [OF that]])
            (use req in \<open>simp add: replies_def reply_def\<close>)
        show ?thesis
          unfolding wp_seq
          by (rule wp_conseq [OF wp_Writen]) (auto simp: Writen_post_def on_val_def on off web_blocked again_def split: res.splits)
      qed
      show ?thesis
        using result done_all quits served ends
        by (auto simp: Val a Let_def wp_seq [of "guard b" for b])
    next
      case (Exited c)
      then show ?thesis using post exited_none by (simp add: reader_post_def)
    qed (use post in \<open>simp_all add: reader_post_def web_post_def\<close>)
  qed
qed

lemma wp_web_loop:
  assumes "good st" "MAXN \<le> length result"
  shows "wp (loop (web_body rd fd result) st) (web_post good pend fd result st (trace w)) w"
proof (rule web.wp_loop [where I = "web_inv good pend fd result st (trace w)"])
  show "web_inv good pend fd result st (trace w) st w"
    using assms(1) by (auto simp: web_inv_def replies_def intro!: extends_refl exI [of _ "[]"])
qed (rule wp_web_body [OF _ assms(2)])

end

subsection \<open>The three readers\<close>

context tally begin

lemma quiet_my_read: "(\<And>s n r. step s (SysRead fd n, r) = s) \<Longrightarrow> quiet (my_read fd st)"
  and quiet_read1_once: "(\<And>s n r. step s (SysRead fd n, r) = s) \<Longrightarrow> quiet (read1_once fd u)"
  unfolding my_read_def refill_body_def next_byte_def read1_once_def Let_def
  by (intro quiet_intros quiet_sys; simp)+

lemma quiet_line_loop:
  "(\<And>st. quiet (get st)) \<Longrightarrow> quiet (line_loop at_eof get k n buf st)"
  by (induction at_eof get k n buf st rule: line_loop.induct) (auto intro!: quiet_intros)

lemma quiet_web_child:
  assumes "\<And>s n r. step s (SysRead fd n, r) = s" "\<And>s t r. step s (SysWrite fd t, r) = s"
  shows "quiet (web_child fd result st)"
  unfolding web_child_def web_body_def Readline_def readline_def Writen_def writen_def writen_body_def Let_def
  by (intro quiet_intros quiet_line_loop quiet_my_read quiet_sys quiet_call assms; simp)

end

lemma bytes_out_read: "s @ bytes_out fd (SysRead fd n, r) = s"
  by (simp add: bytes_out_def)

lemma shrinks_read1_once: "shrinks (read1_once fd u)"
  unfolding read1_once_def by (intro eating)

lemma reader_of_line:
  assumes post: "wp m (line_post good pend fd at_eof MAXLINE st (trace w)) w" and quiet: "outs.quiet fd m"
    and eof: "\<And>n. at_eof (Suc n) = 0 \<longleftrightarrow> n = 0" "\<And>n. 0 \<le> at_eof (Suc n)"
    and bad: "bad (- 1)" "\<And>n. 0 \<le> n \<Longrightarrow> \<not> bad n"
  shows "wp (bind m (\<lambda>(n, buf, st). if bad n then err_sys s else ret (n, buf, st)))
    (reader_post good pend fd st (trace w)) w"
proof -
  have both: "wp m (\<lambda>r w'. line_post good pend fd at_eof MAXLINE st (trace w) r w' \<and> outs.total fd w' = outs.total fd w) w"
    using post outs.quiet_wp [OF quiet, of w] by (auto simp: wp_def split: prod.splits)
  show ?thesis
    unfolding wp_bind
  proof (rule wp_conseq [OF both], elim conjE)
    fix r w1
    assume line: "line_post good pend fd at_eof MAXLINE st (trace w) r w1"
      and out: "outs.total fd w1 = outs.total fd w"
    show "on_val (\<lambda>a. wp (case a of (n, buf, st) \<Rightarrow> if bad n then err_sys s else ret (n, buf, st))
        (reader_post good pend fd st (trace w))) (reader_post good pend fd st (trace w)) r w1"
    proof (cases r)
      case (Val a)
      obtain v buf st' where a: "a = (v, buf, st')" by (cases a)
      have ext: "extends (\<lambda>new. pend st @ stream_in fd new = buf @ pend st' \<and> stream_out fd new = []) (trace w) w1"
        using line out by (auto simp: line_post_def Val a outs_total extends_def)
      have err: "extends (\<lambda>new. stream_out fd new = []) (trace w) (err_world True LOG_ERR s w1)"
        by (rule extends_err [OF extends_weaken [OF ext]]) simp_all
      have v: "v = - 1 \<or> 0 \<le> v" "v = - 1 \<or> (if v = 0 then buf = [] \<and> pend st' = [] else is_line buf)" "good st'"
        using line eof by (auto simp: line_post_def Val a is_line_def MAXLINE_def dest: in_set_butlastD)
      show ?thesis
        using v bad ext err by (auto simp: Val a reader_post_def)
    qed (use line in \<open>simp_all add: line_post_def reader_post_def\<close>)
  qed
qed

lemma bind_assoc: "bind (bind m f) g = bind m (\<lambda>a. bind (f a) g)"
  by (auto simp: fun_eq_iff bind_def split: prod.splits res.splits)

lemma bind_err_sys: "bind (err_sys s) f = err_sys s"
  by (auto simp: fun_eq_iff err_sys_def seq_def bind_def exit_with_def split: prod.splits res.splits)

interpretation lib_reader: line_reader "Readline fd MAXLINE" rl_ok rl_rest fd for fd
proof
  show "wp (Readline fd MAXLINE st) (reader_post rl_ok rl_rest fd st (trace w)) w" if "rl_ok st" for st w
    unfolding Readline_def
    by (rule reader_of_line [OF wp_readline [OF that]])
      (simp_all add: MAXLINE_def readline_def outs.quiet_line_loop outs.quiet_my_read bytes_out_read)
qed (rule shrinks_Readline)

interpretation thread_reader: line_reader
  "\<lambda>_. bind (server_Readline fd MAXLINE) (\<lambda>(n, line). ret (n, line, ()))" "\<lambda>_. True" "\<lambda>_. []" fd for fd
proof
  fix st :: unit and w
  let ?m = "line_loop server_eof (read1_once fd) (MAXLINE - 1) 1 [] ()"
  have st: "st = ()" by simp
  have eq: "bind (server_Readline fd MAXLINE) (\<lambda>(n, line). ret (n, line, ())) =
      bind ?m (\<lambda>(n, buf, st). if n = - 1 then err_sys ''readline error'' else ret (n, buf, st))"
    unfolding server_Readline_def server_readline_def bind_assoc
    by (rule arg_cong [where f = "bind ?m"])
      (auto simp: fun_eq_iff bind_ret bind_err_sys split: prod.splits)
  show "wp (bind (server_Readline fd MAXLINE) (\<lambda>(n, line). ret (n, line, ())))
      (reader_post (\<lambda>_. True) (\<lambda>_. []) fd st (trace w)) w"
    unfolding eq st
    by (rule reader_of_line [OF once.wp_line])
      (simp_all add: MAXLINE_def outs.quiet_line_loop outs.quiet_read1_once bytes_out_read server_eof_def)
  show "shrinks (bind (server_Readline fd MAXLINE) (\<lambda>(n, line). ret (n, line, ())))"
    unfolding server_Readline_def server_readline_def
    by (intro eating shrinks_line_loop shrinks_read1_once)
qed

definition r_good :: "int \<Rightarrow> Rline \<Rightarrow> bool" where
  "r_good fd rptr \<longleftrightarrow> read_fd rptr = fd \<and> read_maxlen rptr = MAXLINE \<and> rl_ok (rbuf rptr)"

interpretation r_reader: line_reader Readline_r "r_good fd" "\<lambda>rptr. rl_rest (rbuf rptr)" fd for fd
proof
  show "wp (Readline_r rptr) (reader_post (r_good fd) (\<lambda>rptr. rl_rest (rbuf rptr)) fd rptr (trace w)) w"
    if "r_good fd rptr" for rptr w
  proof -
    let ?m = "line_loop server_eof (my_read_r (read_fd rptr)) (read_maxlen rptr - 1) 1 [] (rbuf rptr)"
    let ?l = "bind ?m (\<lambda>(n, buf, st). if n = - 1 then err_sys ''readline_r error'' else ret (n, buf, st))"
    have eq: "Readline_r rptr = bind ?l (\<lambda>(n, buf, st). ret (n, buf, rptr\<lparr>rbuf := st\<rparr>))"
      unfolding Readline_r_def readline_r_def bind_assoc
      by (rule arg_cong [where f = "bind ?m"])
        (auto simp: fun_eq_iff bind_ret bind_err_sys split: prod.splits)
    have rptr: "read_fd rptr = fd" "read_maxlen rptr = MAXLINE" "rl_ok (rbuf rptr)"
      using that by (simp_all add: r_good_def)
    have "wp ?l (reader_post rl_ok rl_rest fd (rbuf rptr) (trace w)) w"
      unfolding rptr my_read_variants
      by (rule reader_of_line [OF buffered.wp_line])
        (simp_all add: rptr(3) MAXLINE_def outs.quiet_line_loop outs.quiet_my_read bytes_out_read server_eof_def)
    then show ?thesis
      unfolding eq wp_bind [of ?l]
      by (rule wp_conseq) (use that in \<open>auto simp: reader_post_def on_val_def r_good_def split: res.splits\<close>)
  qed
  show "shrinks (Readline_r rptr)" for rptr
    unfolding Readline_r_def readline_r_def my_read_variants
    by (intro eating shrinks_line_loop)
qed

lemma shrinks_web_child [eating]: "shrinks (web_child fd result st)"
  unfolding web_child_def by (intro eating lib_reader.web.shrinks_body)

subsection \<open>Requests that are served\<close>

text \<open>The run of the library's \<open>readline\<close> on a line that arrives in one piece.\<close>

lemma line_loop_buffered:
  assumes "newline \<notin> set xs" "length xs < k"
  shows "line_loop at_eof (my_read fd) k n buf \<lparr>rl_cnt = 1 + int (length xs), rl_rest = xs @ [newline]\<rparr> w =
    (Val (int (n + length xs), buf @ xs @ [newline], \<lparr>rl_cnt = 0, rl_rest = []\<rparr>), w)"
  using assms
proof (induction xs arbitrary: k n buf)
  case Nil
  then obtain k' where "k = Suc k'" by (cases k) auto
  then show ?case by (simp add: my_read_def next_byte_def bind_def ret_def)
next
  case (Cons c xs)
  then obtain k' where k: "k = Suc k'" "length xs < k'" by (cases k) auto
  show ?case
    using Cons.prems Cons.IH [OF _ k(2), of "Suc n" "buf @ [c]"]
    by (auto simp: k(1) my_read_def next_byte_def bind_def ret_def)
qed

lemma my_read_refill:
  assumes "rl_cnt st = 0" "script w = okdata s # rs" "s \<noteq> []" "length s \<le> MAXLINE"
  shows "my_read fd st w =
    my_read fd \<lparr>rl_cnt = int (length s), rl_rest = s\<rparr> (logged (SysRead fd MAXLINE) (okdata s) w)"
proof -
  have "loop (refill_body fd) st w =
      (Val (1, \<lparr>rl_cnt = int (length s), rl_rest = s\<rparr>), logged (SysRead fd MAXLINE) (okdata s) w)"
    using assms
    by (subst refill.loop_unfold)
      (simp add: refill_body_def bind_def sys_def fits_okdata Let_def stop_def ret_def logged_def del: fits.simps)
  then show ?thesis using assms by (simp add: my_read_def bind_def)
qed

lemma Readline_whole:
  assumes "rl_cnt st = 0" "newline \<notin> set xs" "length xs + 1 < MAXLINE" "script w = okdata (xs @ [newline]) # rs"
  shows "Readline fd MAXLINE st w =
    (Val (int (length xs) + 1, xs @ [newline], \<lparr>rl_cnt = 0, rl_rest = []\<rparr>),
     logged (SysRead fd MAXLINE) (okdata (xs @ [newline])) w)"
proof -
  let ?st = "\<lparr>rl_cnt = 1 + int (length xs), rl_rest = xs @ [newline]\<rparr>"
  let ?w = "logged (SysRead fd MAXLINE) (okdata (xs @ [newline])) w"
  have "my_read fd st w = my_read fd ?st ?w"
    using my_read_refill [OF assms(1,4)] assms(3) by (simp add: add.commute)
  then have "line_loop at_eof (my_read fd) (Suc k) n buf st w = line_loop at_eof (my_read fd) (Suc k) n buf ?st ?w"
    for at_eof k n buf by (simp add: bind_def)
  from this [of _ "MAXLINE - 2"] have "readline fd MAXLINE st w = readline fd MAXLINE ?st ?w"
    by (simp add: readline_def MAXLINE_def)
  moreover have "readline fd MAXLINE ?st ?w =
      (Val (int (1 + length xs), [] @ xs @ [newline], \<lparr>rl_cnt = 0, rl_rest = []\<rparr>), ?w)"
    unfolding readline_def by (rule line_loop_buffered) (use assms(2,3) in simp_all)
  ultimately show ?thesis by (simp add: Readline_def bind_def ret_def)
qed

lemma Readline_end:
  assumes "rl_cnt st = 0" "script w = okdata [] # rs"
  shows "\<exists>st'. Readline fd MAXLINE st w = (Val (0, [], st'), logged (SysRead fd MAXLINE) (okdata []) w)"
proof -
  have loop: "loop (refill_body fd) st w = (Val (0, st\<lparr>rl_cnt := 0\<rparr>), logged (SysRead fd MAXLINE) (okdata []) w)"
    using assms
    by (subst refill.loop_unfold)
      (simp add: refill_body_def bind_def sys_def fits_okdata Let_def stop_def ret_def logged_def del: fits.simps)
  have "line_loop (\<lambda>n. int n - 1) (my_read fd) (Suc k) 1 [] st w =
      (Val (0, [], st\<lparr>rl_cnt := 0\<rparr>), logged (SysRead fd MAXLINE) (okdata []) w)" for k
    using assms(1) loop by (simp add: my_read_def bind_def ret_def)
  from this [of "MAXLINE - 2"] show ?thesis
    by (auto simp: Readline_def readline_def MAXLINE_def bind_def ret_def)
qed

lemma wp_Writen_whole:
  assumes "script w = ok (int (length s)) # rs" "s \<noteq> []" "Q (Val ()) (logged (SysWrite fd s) (ok (int (length s))) w)"
  shows "wp (Writen fd s) Q w"
proof -
  have finish: "loop (writen_body fd n) [] = ret (int n)" for n
    by (subst writen.loop_unfold) (simp add: writen_body_def stop_def bind_ret)
  have "wp (writen fd s) (on_val (\<lambda>n. wp (if n \<noteq> int (length s) then err_sys ''writen error'' else ret ()) Q) Q) w"
    using assms finish unfolding writen_def
    by (subst writen.loop_unfold) (simp add: writen_body_def fits_write_def ok_def again_def)
  then show ?thesis by (simp add: Writen_def)
qed

definition request :: "nat \<Rightarrow> string" where
  \<comment> \<open>\<open>"%d\n"\<close>\<close>
  "request n = dec n @ [newline]"

lemma request_reply:
  assumes "0 < n" "n \<le> MAXN" "length result = MAXN"
  shows "to_int (atoi (request n)) = int n" "reply result (request n) = take n result"
    "newline \<notin> set (dec n)" "length (dec n) + 1 < MAXLINE"
proof -
  have n: "atoi (request n) = int n"
    unfolding request_def by (rule atoi_dec_line) (simp add: isdigit_def newline_def)
  show int: "to_int (atoi (request n)) = int n"
    unfolding n by (rule to_int_id) (use assms(2) in \<open>simp_all add: MAXN_def\<close>)
  show "reply result (request n) = take n result" by (simp add: reply_def int)
  show "newline \<notin> set (dec n)" using dec_isdigit [of newline n] by (auto simp: isdigit_def newline_def)
  have "length (dec n) \<le> 5" using length_dec_5 [of n] assms(2) by (simp add: MAXN_def)
  then show "length (dec n) + 1 < MAXLINE" by (simp add: MAXLINE_def)
qed

text \<open>C22: the handler of a request server: whatever its client sends and however the reads and writes are cut, a handler
  that returns has taken all the client's bytes as requests, each a line with a number of 1 to
  16384, and has answered each, in order, with that many bytes of \<open>result\<close>; its line buffer is empty, so
  that the next client of the process starts with its own bytes.  A handler that does
  not like a request, or cannot write, ends the process after a prefix of the replies.  This holds
  with each of the three line readers.\<close>

theorem web_child_replies:
  assumes "MAXN \<le> length result" "rl_ok st"
  shows "wp (web_child fd result st) (web_post rl_ok rl_rest fd result st (trace w)) w \<and>
    wp (web_child_threads fd result) (web_post (\<lambda>_. True) (\<lambda>_. []) fd result () (trace w)) w \<and>
    wp (web_child_r fd result) (web_post (\<lambda>_. True) (\<lambda>_. []) fd result () (trace w)) w"
proof (intro conjI)
  show "wp (web_child fd result st) (web_post rl_ok rl_rest fd result st (trace w)) w"
    unfolding web_child_def by (rule lib_reader.wp_web_loop [OF assms(2,1)])
  show "wp (web_child_threads fd result) (web_post (\<lambda>_. True) (\<lambda>_. []) fd result () (trace w)) w"
    unfolding web_child_threads_def by (rule thread_reader.wp_web_loop [OF TrueI assms(1)])
  have "r_good fd (readline_rinit fd MAXLINE)"
    by (simp add: r_good_def readline_rinit_def rl_ok_def rl_init_def)
  note wp_conseq [OF r_reader.wp_web_loop [OF this assms(1)]]
  then show "wp (web_child_r fd result) (web_post (\<lambda>_. True) (\<lambda>_. []) fd result () (trace w)) w"
    unfolding web_child_r_def wp_bind
    by this (auto simp: web_post_def on_val_def readline_rinit_def rl_init_def split: res.splits)
qed

theorem web_child_replies_witness:
  "wp (web_child 4 (replicate MAXN CHR ''x'') rl_init)
     (web_post rl_ok rl_rest 4 (replicate MAXN CHR ''x'') rl_init [])
     (start [okdata (request 2), ok 1, ok 1, okdata ''bad'', okdata []])"
  using web_child_replies [of "replicate MAXN CHR ''x''" rl_init 4 "start [okdata (request 2), ok 1, ok 1, okdata ''bad'', okdata []]"]
  by (simp add: rl_ok_def rl_init_def start_def)

text \<open>C23: requests that arrive each in one piece and are answered each in one piece are served to the
  end: \<open>web_child\<close> returns, with all its replies written.\<close>

theorem web_child_serves:
  assumes "length result = MAXN" "list_all (\<lambda>n. 0 < n \<and> n \<le> MAXN) ns"
    and "script w = concat (map (\<lambda>n. [okdata (request n), ok (int n)]) ns) @ okdata [] # rest"
  shows "wp (web_child fd result rl_init) (\<lambda>r w'. (\<exists>st. r = Val st) \<and> script w' = rest \<and>
    stream_out fd (trace w') = stream_out fd (trace w) @ concat (map (\<lambda>n. take n result) ns)) w"
proof -
  have "wp (loop (web_body (Readline fd MAXLINE) fd result) st) (\<lambda>r w'. (\<exists>st. r = Val st) \<and> script w' = rest \<and>
      outs.total fd w' = outs.total fd w @ concat (map (\<lambda>n. take n result) ns)) w"
    if "rl_cnt st = 0" for st
    using assms(2,3) that
  proof (induction ns arbitrary: st w)
    case Nil
    then obtain st' where "Readline fd MAXLINE st w = (Val (0, [], st'), logged (SysRead fd MAXLINE) (okdata []) w)"
      using Readline_end [of st w rest fd] by auto
    then have body: "web_body (Readline fd MAXLINE) fd result st w =
        (Val (Inr st'), logged (SysRead fd MAXLINE) (okdata []) w)"
      by (simp add: web_body_def bind_def stop_def ret_def)
    then show ?case
      using Nil by (subst lib_reader.web.loop_unfold) (simp add: wp_def bind_def ret_def)
  next
    case (Cons n ns)
    note req = request_reply [OF _ _ assms(1), of n]
    have n: "0 < n" "n \<le> MAXN" using Cons.prems(1) by simp_all
    let ?w1 = "logged (SysRead fd MAXLINE) (okdata (request n)) w"
    let ?w2 = "logged (SysWrite fd (take n result)) (ok (int n)) ?w1"
    have line: "Readline fd MAXLINE st w = (Val (int (length (request n)), request n, \<lparr>rl_cnt = 0, rl_rest = []\<rparr>), ?w1)"
      using Readline_whole [OF Cons.prems(3) req(3,4) [OF n]] Cons.prems(2) by (simp add: request_def)
    have IH: "wp (loop (web_body (Readline fd MAXLINE) fd result) \<lparr>rl_cnt = 0, rl_rest = []\<rparr>)
        (\<lambda>r w'. (\<exists>st. r = Val st) \<and> script w' = rest \<and>
          outs.total fd w' = outs.total fd ?w2 @ concat (map (\<lambda>n. take n result) ns)) ?w2"
      using Cons.prems by (intro Cons.IH) simp_all
    have nread: "int (length (request n)) \<noteq> 0" by (simp add: request_def)
    let ?Q = "\<lambda>r w'. (\<exists>st. r = Val st) \<and> script w' = rest \<and>
      outs.total fd w' = outs.total fd w @ concat (map (\<lambda>n. take n result) (n # ns))"
    have body: "web_body (Readline fd MAXLINE) fd result st w =
        seq (Writen fd (take n result)) (again \<lparr>rl_cnt = 0, rl_rest = []\<rparr>) ?w1"
      using n assms(1) req(1) nread
      by (simp add: web_body_def bind_def [of "Readline fd MAXLINE st"] line guard_def seq_def [of "ret ()"] bind_ret)
    have out: "outs.total fd ?w2 = outs.total fd w @ take n result"
    proof -
      have "bytes_out fd (SysRead fd MAXLINE, okdata (request n)) = []"
        "bytes_out fd (SysWrite fd (take n result), ok (int n)) = take n result"
        by (simp_all add: bytes_out_def ok_def)
      then show ?thesis by simp
    qed
    have "wp (Writen fd (take n result)) (on_val (\<lambda>_. wp (loop (web_body (Readline fd MAXLINE) fd result)
        \<lparr>rl_cnt = 0, rl_rest = []\<rparr>) ?Q) ?Q) ?w1"
    proof (rule wp_Writen_whole)
      show "script ?w1 = ok (int (length (take n result))) # concat (map (\<lambda>n. [okdata (request n), ok (int n)]) ns) @ okdata [] # rest"
        using Cons.prems(2) n assms(1) by (simp add: logged_def)
      show "take n result \<noteq> []" using n assms(1) by auto
      show "on_val (\<lambda>_. wp (loop (web_body (Readline fd MAXLINE) fd result) \<lparr>rl_cnt = 0, rl_rest = []\<rparr>) ?Q) ?Q
          (Val ()) (logged (SysWrite fd (take n result)) (ok (int (length (take n result)))) ?w1)"
        using IH n assms(1) unfolding out by simp
    qed
    then show ?case
      by (subst lib_reader.web.loop_unfold) (simp add: wp_def bind_def body seq_def again_def ret_def on_val_def split: prod.splits res.splits)
  qed
  then show ?thesis by (simp add: web_child_def rl_init_def outs_total)
qed

theorem web_child_serves_witness:
  "wp (web_child 4 (replicate MAXN CHR ''x'') rl_init) (\<lambda>r w'. (\<exists>st. r = Val st) \<and> script w' = [] \<and>
     stream_out 4 (trace w') = ''xxx'')
     (start [okdata (request 2), ok 2, okdata (request 1), ok 1, okdata []])"
proof -
  have "min 2 MAXN = Suc (Suc 0)" "min (Suc 0) MAXN = Suc 0" "2 \<le> MAXN" "Suc 0 \<le> MAXN"
    "replicate 2 CHR ''x'' = ''xx''" by (simp_all add: MAXN_def numeral_2_eq_2)
  then show ?thesis
    using web_child_serves [of "replicate MAXN CHR ''x''" "[2, 1]"
        "start [okdata (request 2), ok 2, okdata (request 1), ok 1, okdata []]" "[]" 4]
    by (simp add: start_def stream_out_def)
qed

end
