(* ===== verification/Server.thy ===== *)
theory Server
  imports Connect Pthreads WebChild
begin

text \<open>
  The iterative, forking and preforked servers of server/ (serv00.c to serv04.c with child02.c to
  child04.c and their variants, the two locks around \<open>accept\<close>, and the client).

  A theorem on a server is about one process: its answers come from the script.  The locale
  \<open>bracket\<close> is the contract of what a child does around \<open>accept\<close>; \<open>lock\<close> extends it to
  a lock, interpreted by lock_fcntl.c and lock_pthread.c.  Proved here: a process serves one
  connection after the other, each completely and with its own requests only, and accepts only
  while it holds the lock.
\<close>

subsection \<open>The command line\<close>

definition server_listen :: "nat \<Rightarrow> string \<Rightarrow> string list \<Rightarrow> (int \<times> nat) io" where
  \<comment> \<open>\<open>extra\<close> arguments after the port\<close>
  "server_listen extra usage argv =
     (if length argv = 2 + extra then Tcp_listen None (Some (argv ! 1))
      else if length argv = 3 + extra then Tcp_listen (Some (argv ! 1)) (Some (argv ! 2))
      else err_quit usage)"

subsection \<open>lock_fcntl.c\<close>

definition F_SETLKW :: int where "F_SETLKW = 9"
definition F_UNLCK :: int where "F_UNLCK = 2"
definition F_WRLCK :: int where "F_WRLCK = 3"

text \<open>
  The argument of the two calls stands for \<open>lock_it\<close> and \<open>unlock_it\<close>, the whole file; the value
  of \<open>my_lock_init\<close> is what it leaves in \<open>lock_fd\<close>.
\<close>

definition my_lock_init :: "string \<Rightarrow> int io" where
  \<comment> \<open>\<open>strncpy\<close> into 1024 bytes leaves a longer name without its NUL\<close>
  "my_lock_init pathname =
     seq (guard (length pathname < 1024))
    (bind (Mkstemp pathname) (\<lambda>(lock_fd, lock_file).
     seq (Unlink lock_file) (ret lock_fd)))"

definition lock_wait_body :: "int \<Rightarrow> unit \<Rightarrow> (unit + unit) io" where
  "lock_wait_body lock_fd = (\<lambda>_.
     bind (call (SysFcntl lock_fd F_SETLKW F_WRLCK)) (\<lambda>rc.
     if rc < 0 then
       bind get_errno (\<lambda>e.
       if e = EINTR then again () else err_sys ''fcntl error for my_lock_wait'')
     else stop ()))"

definition my_lock_wait :: "int \<Rightarrow> unit io" where
  "my_lock_wait lock_fd = loop (lock_wait_body lock_fd) ()"

definition my_lock_release :: "int \<Rightarrow> unit io" where
  "my_lock_release lock_fd =
     bind (call (SysFcntl lock_fd F_SETLKW F_UNLCK)) (\<lambda>n.
     if n < 0 then err_sys ''fcntl error for my_lock_release'' else ret ())"

subsection \<open>lock_pthread.c\<close>

definition PROT_READ :: int where "PROT_READ = 1"
definition PROT_WRITE :: int where "PROT_WRITE = 2"
definition MAP_SHARED :: int where "MAP_SHARED = 1"
definition PTHREAD_PROCESS_SHARED :: int where "PTHREAD_PROCESS_SHARED = 1"

definition mutex_init :: "int \<Rightarrow> int \<Rightarrow> int io" where
  \<comment> \<open>the size of a mutex and the address of \<open>mattr\<close>; the value is \<open>mptr\<close>\<close>
  "mutex_init sz mattr =
     bind (Open ''/dev/zero'' O_RDWR 0) (\<lambda>fd.
     bind (Mmap 0 sz (PROT_READ + PROT_WRITE) MAP_SHARED fd 0) (\<lambda>mptr.
     seq (Close fd)
    (seq (Pthread_mutexattr_init mattr)
    (seq (Pthread_mutexattr_setpshared mattr PTHREAD_PROCESS_SHARED)
    (seq (Pthread_mutex_init mptr mattr) (ret mptr))))))"

definition mutex_wait :: "int \<Rightarrow> unit io" where "mutex_wait mptr = Pthread_mutex_lock mptr"
definition mutex_release :: "int \<Rightarrow> unit io" where "mutex_release mptr = Pthread_mutex_unlock mptr"

subsection \<open>The children\<close>

text \<open>
  The loops of the children differ in what is done before and after \<open>accept\<close> and in the counter
  \<open>cptr[i]\<close> of the metered variants, which only child \<open>i\<close> writes.  The state of a process is the
  static buffer of \<open>readline\<close> and this counter; \<open>result\<close> is what the array of \<open>web_child\<close>
  happens to contain.
\<close>

definition child_body :: "unit io \<Rightarrow> unit io \<Rightarrow> (int \<Rightarrow> int) \<Rightarrow> int \<Rightarrow> string \<Rightarrow> rline \<times> int
    \<Rightarrow> ((rline \<times> int) + unit) io" where
  "child_body acquire release tick listenfd result = (\<lambda>(st, n).
     seq acquire
    (bind (Accept listenfd) (\<lambda>a.
     seq release
    (let n = tick n in
     bind (web_child (r_val a) result st) (\<lambda>st.
     seq (Close (r_val a)) (again (st, n)))))))"

definition child_main :: "unit io \<Rightarrow> unit io \<Rightarrow> (int \<Rightarrow> int) \<Rightarrow> string \<Rightarrow> int \<Rightarrow> int \<Rightarrow> int \<Rightarrow> int \<Rightarrow> unit io" where
  "child_main acquire release tick result i listenfd addrlen n =
     bind (Malloc addrlen) (\<lambda>cliaddr.
     bind (call (SysOther ''getpid'' [] [])) (\<lambda>pid.
     seq (printf (''child '' @ dec_int pid @ '' starting'' @ [newline]))
       (loop (child_body acquire release tick listenfd result) (rl_init, n))))"

definition wait_readable :: "int \<Rightarrow> unit io" where
  \<comment> \<open>child02l.c\<close>
  "wait_readable listenfd =
     bind (Select (listenfd + 1) [listenfd] [] None) (\<lambda>r.
     if listenfd \<notin> set (r_rset r) then err_quit ''listenfd readable'' else ret ())"

definition counted :: "int \<Rightarrow> int" where "counted n = n + 1"

definition child02 :: "string \<Rightarrow> int \<Rightarrow> int \<Rightarrow> int \<Rightarrow> unit io" where
  "child02 result i listenfd addrlen = child_main (ret ()) (ret ()) id result i listenfd addrlen 0"

definition child02l :: "string \<Rightarrow> int \<Rightarrow> int \<Rightarrow> int \<Rightarrow> unit io" where
  "child02l result i listenfd addrlen = child_main (wait_readable listenfd) (ret ()) id result i listenfd addrlen 0"

definition child02m :: "string \<Rightarrow> int \<Rightarrow> int \<Rightarrow> int \<Rightarrow> unit io" where
  "child02m result i listenfd addrlen = child_main (ret ()) (ret ()) counted result i listenfd addrlen 0"

definition child03 :: "int \<Rightarrow> string \<Rightarrow> int \<Rightarrow> int \<Rightarrow> int \<Rightarrow> unit io" where
  "child03 lock_fd result i listenfd addrlen =
     child_main (my_lock_wait lock_fd) (my_lock_release lock_fd) id result i listenfd addrlen 0"

definition child03m :: "int \<Rightarrow> string \<Rightarrow> int \<Rightarrow> int \<Rightarrow> int \<Rightarrow> unit io" where
  "child03m lock_fd result i listenfd addrlen =
     child_main (my_lock_wait lock_fd) (my_lock_release lock_fd) counted result i listenfd addrlen 0"

definition child04 :: "int \<Rightarrow> string \<Rightarrow> int \<Rightarrow> int \<Rightarrow> int \<Rightarrow> unit io" where
  "child04 mptr result i listenfd addrlen =
     child_main (mutex_wait mptr) (mutex_release mptr) id result i listenfd addrlen 0"

definition child_make :: "(int \<Rightarrow> int \<Rightarrow> int \<Rightarrow> unit io) \<Rightarrow> int \<Rightarrow> int \<Rightarrow> int \<Rightarrow> int io" where
  "child_make child i listenfd addrlen =
     bind Fork (\<lambda>pid.
     if 0 < pid then ret pid \<comment> \<open>parent\<close>
     else seq (child i listenfd addrlen) undef)" \<comment> \<open>never returns\<close>

subsection \<open>serv00.c, serv01.c\<close>

definition serv00_body :: "int \<Rightarrow> string \<Rightarrow> rline \<Rightarrow> (rline + int) io" where
  "serv00_body listenfd result st =
     bind (Accept listenfd) (\<lambda>a.
     bind (web_child (r_val a) result st) (\<lambda>st.
     seq (Close (r_val a)) (again st)))"

definition serv00_main :: "string \<Rightarrow> string list \<Rightarrow> int io" where
  "serv00_main result argv =
     bind (server_listen 0 ''usage: serv00 [ <host> ] <port#>'' argv) (\<lambda>(listenfd, addrlen).
     bind (Malloc (int addrlen)) (\<lambda>cliaddr.
     seq (Signal SIGINT ''sig_int'') (loop (serv00_body listenfd result) rl_init)))"

definition serv01_body :: "int \<Rightarrow> string \<Rightarrow> unit \<Rightarrow> (unit + int) io" where
  \<comment> \<open>the parent never reads: each child starts with an empty line buffer\<close>
  "serv01_body listenfd result = (\<lambda>_.
     bind (sys (SysAccept listenfd)) (\<lambda>a.
     if r_val a < 0 then
       bind get_errno (\<lambda>e. if e = EINTR then again () else err_sys ''accept error'')
     else
       bind Fork (\<lambda>childpid.
       if childpid = 0 then \<comment> \<open>child process\<close>
         seq (Close listenfd)
        (bind (web_child (r_val a) result rl_init) (\<lambda>_. exit_with 0))
       else seq (Close (r_val a)) (again ()))))"

definition serv01_main :: "string \<Rightarrow> string list \<Rightarrow> int io" where
  "serv01_main result argv =
     bind (server_listen 0 ''usage: serv01 [ <host> ] <port#>'' argv) (\<lambda>(listenfd, addrlen).
     bind (Malloc (int addrlen)) (\<lambda>cliaddr.
     seq (Signal SIGCHLD ''sig_chld'')
    (seq (Signal SIGINT ''sig_int'') (loop (serv01_body listenfd result) ()))))"

definition WNOHANG :: int where "WNOHANG = 1"

definition sig_chld_body :: "unit \<Rightarrow> (unit + unit) io" where
  "sig_chld_body = (\<lambda>_. bind (call (SysWaitpid (- 1) WNOHANG)) (\<lambda>pid. if 0 < pid then again () else stop ()))"

definition sig_chld :: "unit io" where
  \<comment> \<open>sig_chld_waitpid.c\<close>
  "sig_chld = loop sig_chld_body ()"

subsection \<open>serv02.c, serv03.c, serv04.c\<close>

fun make_children :: "(int \<Rightarrow> int \<Rightarrow> int \<Rightarrow> unit io) \<Rightarrow> int list \<Rightarrow> int \<Rightarrow> int \<Rightarrow> int list io" where
  \<comment> \<open>the value is the array \<open>pids\<close>\<close>
  "make_children child [] listenfd addrlen = ret []"
| "make_children child (i # is) listenfd addrlen =
     bind (child_make child i listenfd addrlen) (\<lambda>pid.
     bind (make_children child is listenfd addrlen) (\<lambda>pids. ret (pid # pids)))"

definition pause_body :: "unit \<Rightarrow> (unit + int) io" where
  "pause_body = (\<lambda>_. bind (call (SysOther ''pause'' [] [])) (\<lambda>_. again ()))"

definition prefork_main :: "(int \<Rightarrow> 'l io) \<Rightarrow> ('l \<Rightarrow> int \<Rightarrow> int \<Rightarrow> int \<Rightarrow> unit io) \<Rightarrow> string \<Rightarrow> string list \<Rightarrow> int io" where
  \<comment> \<open>\<open>init\<close> is what the variant does between \<open>calloc\<close> and the children; its value reaches them\<close>
  "prefork_main init child usage argv =
     bind (server_listen 1 usage argv) (\<lambda>(listenfd, addrlen).
     let nchildren = to_int (atoi (last argv)) in
     bind (Calloc nchildren 4) (\<lambda>pids.
     bind (init nchildren) (\<lambda>l.
     bind (make_children (child l) [0..nchildren - 1] listenfd (int addrlen)) (\<lambda>pids.
     seq (Signal SIGINT ''sig_int'') (loop pause_body ())))))"

definition serv02_main :: "string \<Rightarrow> string list \<Rightarrow> int io" where
  "serv02_main result = prefork_main (\<lambda>_. ret ()) (\<lambda>_. child02 result)
     ''usage: serv02 [ <host> ] <port#> <#children>''"

definition serv03_main :: "string \<Rightarrow> string list \<Rightarrow> int io" where
  "serv03_main result = prefork_main (\<lambda>_. my_lock_init ''/tmp/lock.XXXXXX'') (\<lambda>lock_fd. child03 lock_fd result)
     ''usage: serv03 [ <host> ] <port#> <#children>''"

definition serv04_main :: "int \<Rightarrow> int \<Rightarrow> string \<Rightarrow> string list \<Rightarrow> int io" where
  "serv04_main sz mattr result = prefork_main (\<lambda>_. mutex_init sz mattr) (\<lambda>mptr. child04 mptr result)
     ''usage: serv04 [ <host> ] <port#> <#children>''"

definition meter :: "int \<Rightarrow> int io" where
  \<comment> \<open>with \<open>MAP_ANON\<close>, 0x1000; a \<open>long\<close> has 8 bytes\<close>
  "meter nchildren = Mmap 0 (nchildren * 8) (PROT_READ + PROT_WRITE) (4096 + MAP_SHARED) (- 1) 0"

definition serv02m_main :: "string \<Rightarrow> string list \<Rightarrow> int io" where
  "serv02m_main result = prefork_main meter (\<lambda>_. child02m result)
     ''usage: serv02 [ <host> ] <port#> <#children>''"

definition serv03m_main :: "string \<Rightarrow> string list \<Rightarrow> int io" where
  "serv03m_main result = prefork_main (\<lambda>n. seq (meter n) (my_lock_init ''/tmp/lock.XXXXXX''))
     (\<lambda>lock_fd. child03m lock_fd result) ''usage: serv03 [ <host> ] <port#> <#children>''"

subsection \<open>SIGINT\<close>

definition RUSAGE_SELF :: int where "RUSAGE_SELF = 0"
definition RUSAGE_CHILDREN :: int where "RUSAGE_CHILDREN = - 1"

definition getrusage :: "int \<Rightarrow> (int \<times> int) io" where
  \<comment> \<open>user and system time in microseconds, the answer giving seconds and microseconds of both\<close>
  "getrusage who =
     bind (sys (SysOther ''getrusage'' [who] [])) (\<lambda>r.
     if r_val r < 0 then err_sys ''getrusage error''
     else case r_rset r of
         [us, uu, ss, su] \<Rightarrow> ret (1000000 * us + uu, 1000000 * ss + su)
       | _ \<Rightarrow> undef)"

definition pr_cpu_time :: "(int \<Rightarrow> string) \<Rightarrow> unit io" where
  \<comment> \<open>\<open>fmt\<close> prints a number of microseconds as seconds with \<open>%g\<close>; the doubles are exact\<close>
  "pr_cpu_time fmt =
     bind (getrusage RUSAGE_SELF) (\<lambda>(u1, s1).
     bind (getrusage RUSAGE_CHILDREN) (\<lambda>(u2, s2).
     printf ([newline] @ ''user time = '' @ fmt (u1 + u2) @ '', sys time = '' @ fmt (s1 + s2) @ [newline])))"

definition sig_int_serial :: "(int \<Rightarrow> string) \<Rightarrow> 'a io" where
  \<comment> \<open>serv00.c, serv01.c\<close>
  "sig_int_serial fmt = seq (pr_cpu_time fmt) (exit_with 0)"

definition wait_body :: "unit \<Rightarrow> (unit + unit) io" where
  "wait_body = (\<lambda>_. bind (call (SysOther ''wait'' [] [])) (\<lambda>n. if 0 < n then again () else stop ()))"

definition wait_all :: "unit io" where
  "wait_all =
     seq (loop wait_body ())
    (bind get_errno (\<lambda>e. if e \<noteq> ECHILD then err_sys ''wait error'' else ret ()))"

definition terminate_all :: "int list \<Rightarrow> unit io" where
  "terminate_all pids =
     seq (do_all (map (\<lambda>pid. void (call (SysOther ''kill'' [pid, SIGTERM] []))) pids)) wait_all"

definition sig_int_prefork :: "(int \<Rightarrow> string) \<Rightarrow> int list \<Rightarrow> 'a io" where
  "sig_int_prefork fmt pids = seq (terminate_all pids) (seq (pr_cpu_time fmt) (exit_with 0))"

definition print_counts :: "int list \<Rightarrow> unit io" where
  "print_counts counts =
     do_all (map (\<lambda>i. printf (''child '' @ dec i @ '', '' @ dec_int (counts ! i) @ '' connections'' @ [newline]))
       [0..<length counts])"

definition sig_int_metered :: "(int \<Rightarrow> string) \<Rightarrow> int list \<Rightarrow> int list \<Rightarrow> 'a io" where
  \<comment> \<open>serv02m.c, serv03m.c: \<open>counts\<close> is the array \<open>cptr\<close>\<close>
  "sig_int_metered fmt pids counts =
     seq (terminate_all pids) (seq (pr_cpu_time fmt) (seq (print_counts counts) (exit_with 0)))"

subsection \<open>client.c, clientrst.c\<close>

definition client_request :: "int \<Rightarrow> string" where
  "client_request nbytes = snprintf MAXLINE (dec_int nbytes @ [newline])"

definition client_exchange :: "int \<Rightarrow> int \<Rightarrow> unit io" where
  \<comment> \<open>a negative \<open>nbytes\<close> is a huge \<open>size_t\<close>; what is read goes to \<open>reply[MAXN]\<close>\<close>
  "client_exchange fd nbytes =
     seq (Write fd (client_request nbytes))
    (bind (Readn fd (nat (nbytes mod 2 ^ 64))) (\<lambda>(n, buf).
     seq (guard (length buf \<le> MAXN))
    (if n \<noteq> nbytes then err_quit (''server returned '' @ dec_int n @ '' bytes'')
     else Close fd)))" \<comment> \<open>TIME_WAIT on client, not server\<close>

definition client_turn :: "string list \<Rightarrow> int \<Rightarrow> unit io" where
  "client_turn argv nbytes =
     bind (Tcp_connect (Some (argv ! 1)) (Some (argv ! 2))) (\<lambda>fd. client_exchange fd nbytes)"

definition SO_LINGER :: int where "SO_LINGER = 128"

definition set_linger :: "int \<Rightarrow> int \<Rightarrow> int \<Rightarrow> unit io" where
  \<comment> \<open>\<open>Setsockopt\<close> with a \<open>struct linger\<close>\<close>
  "set_linger fd onoff linger =
     void (bind (call (SysOther ''setsockopt'' [fd, SOL_SOCKET, SO_LINGER, onoff, linger] []))
       (unless_neg ''setsockopt error''))"

definition clientrst_turn :: "string list \<Rightarrow> int \<Rightarrow> int \<Rightarrow> int \<Rightarrow> unit io" where
  "clientrst_turn argv nbytes i j =
     bind (Tcp_connect (Some (argv ! 1)) (Some (argv ! 2))) (\<lambda>fd.
     if i = 2 \<and> j mod 3 = 0 then
       seq (set_linger fd 1 0)
      (seq (Close fd)
      (bind (Tcp_connect (Some (argv ! 1)) (Some (argv ! 2))) (\<lambda>fd. client_exchange fd nbytes)))
     else client_exchange fd nbytes)"

definition client_child :: "(int \<Rightarrow> int \<Rightarrow> unit io) \<Rightarrow> int \<Rightarrow> int \<Rightarrow> unit io" where
  "client_child turn nloops i =
     bind Fork (\<lambda>pid.
     if pid = 0 then \<comment> \<open>child\<close>
       seq (do_all (map (turn i) [0..nloops - 1]))
      (seq (printf (''child '' @ dec_int i @ '' done'' @ [newline])) (exit_with 0))
     else ret ())" \<comment> \<open>parent loops around to fork() again\<close>

definition client_run :: "(string list \<Rightarrow> int \<Rightarrow> int \<Rightarrow> int \<Rightarrow> unit io) \<Rightarrow> string list \<Rightarrow> int io" where
  "client_run turn argv =
     (if length argv \<noteq> 6 then
        err_quit ''usage: client <hostname or IPaddr> <port> <#children> <#loops/child> <#bytes/request>''
      else
        let nchildren = to_int (atoi (argv ! 3));
            nloops = to_int (atoi (argv ! 4));
            nbytes = to_int (atoi (argv ! 5))
        in seq (do_all (map (client_child (turn argv nbytes) nloops) [0..nchildren - 1]))
          (seq wait_all (exit_with 0)))"

definition client_main :: "string list \<Rightarrow> int io" where
  "client_main = client_run (\<lambda>argv nbytes i j. client_turn argv nbytes)"

definition clientrst_main :: "string list \<Rightarrow> int io" where
  "clientrst_main = client_run clientrst_turn"

subsection \<open>What is done around accept\<close>

interpretation fdm: tally fd_step "{#}"
  by unfold_locales simp_all

lemma fdm_total: "fdm.total w = fds (trace w)"
  by (simp add: fdm.total_def fds_def)

lemma quiet_web_child_fds: "fdm.quiet (web_child fd result st)"
  by (rule fdm.quiet_web_child) simp_all

text \<open>
  The contract of what precedes and what follows \<open>accept\<close>: \<open>pre\<close> and \<open>post\<close> say what it leaves
  in the trace.
\<close>

definition step_post :: "((syscall \<times> sysret) list \<Rightarrow> bool) \<Rightarrow> (syscall \<times> sysret) list \<Rightarrow> unit res \<Rightarrow> world \<Rightarrow> bool" where
  "step_post P log r w =
     (case r of Val _ \<Rightarrow> extends P log w | Exited c \<Rightarrow> c = 1 | Undef \<Rightarrow> False | Blocked \<Rightarrow> True)"

lemma step_post_simps [simp]:
  "step_post P log (Val u) = extends P log" "step_post P log (Exited c) w \<longleftrightarrow> c = 1"
  "step_post P log Undef w \<longleftrightarrow> False" "step_post P log Blocked w \<longleftrightarrow> True"
  by (simp_all add: step_post_def fun_eq_iff)

text \<open>A connection served completely: the trace of one turn of the loop of a server.\<close>

definition session :: "((syscall \<times> sysret) list \<Rightarrow> bool) \<Rightarrow> ((syscall \<times> sysret) list \<Rightarrow> bool) \<Rightarrow> int \<Rightarrow> string
    \<Rightarrow> (syscall \<times> sysret) list \<Rightarrow> bool" where
  "session pre post listenfd result log \<longleftrightarrow> (\<exists>before skipped c after talk ls q.
     log = before @ accept_log listenfd (skipped @ [c]) @ after @ talk @ [(SysClose (r_val c), q)] \<and>
     pre before \<and> post after \<and> list_all aborted skipped \<and> 0 \<le> r_val c \<and>
     list_all valid_request ls \<and> stream_in (r_val c) talk = concat ls \<and>
     stream_out (r_val c) talk = replies result ls)"

definition sessions :: "((syscall \<times> sysret) list \<Rightarrow> bool) \<Rightarrow> ((syscall \<times> sysret) list \<Rightarrow> bool) \<Rightarrow> int \<Rightarrow> string
    \<Rightarrow> nat \<Rightarrow> (syscall \<times> sysret) list \<Rightarrow> bool" where
  "sessions pre post listenfd result n log \<longleftrightarrow>
     (\<exists>logs. length logs = n \<and> list_all (session pre post listenfd result) logs \<and> log = concat logs)"

lemma sessions_more:
  "sessions pre post l result n log \<Longrightarrow> session pre post l result new \<Longrightarrow> sessions pre post l result (Suc n) (log @ new)"
  unfolding sessions_def by (elim exE conjE) (rule exI [of _ "_ @ [new]"], simp)

lemma extends_join:
  assumes "extends P log w" "extends Q (trace w) w'" "\<And>a b. P a \<Longrightarrow> Q b \<Longrightarrow> R (a @ b)"
  shows "extends R log w'"
  using assms(1,2) by (auto simp: extends_def intro: assms(3))

locale bracket =
  fixes acquire release :: "unit io"
    and pre post :: "(syscall \<times> sysret) list \<Rightarrow> bool"
  assumes acquires: "wp acquire (step_post pre (trace w)) w"
    and releases: "wp release (step_post post (trace w)) w"
    and no_fds: "fdm.quiet acquire" "fdm.quiet release"
    and takes: "shrinks acquire" "shrinks release"
begin

lemma wp_acquire: "wp acquire (yields (\<lambda>_ w'. extends pre (trace w) w' \<and> fds (trace w') = fds (trace w))) w"
  and wp_release: "wp release (yields (\<lambda>_ w'. extends post (trace w) w' \<and> fds (trace w') = fds (trace w))) w"
  using acquires [of w] releases [of w] fdm.quiet_wp [OF no_fds(1), of w] fdm.quiet_wp [OF no_fds(2), of w]
  by (auto simp: wp_def yields_def fdm_total split: prod.splits res.splits)

lemma wp_session:
  assumes "rl_ok st" "rl_rest st = []" "MAXN \<le> length result"
    and k: "\<And>st' w'. rl_ok st' \<Longrightarrow> rl_rest st' = [] \<Longrightarrow> extends (session pre post listenfd result) (trace w) w' \<Longrightarrow>
      fds (trace w') = fds (trace w) \<Longrightarrow> wp (k st') (yields Q) w'"
  shows "wp (seq acquire (bind (Accept listenfd) (\<lambda>a. seq release (bind (web_child (r_val a) result st)
    (\<lambda>st. seq (Close (r_val a)) (k st)))))) (yields Q) w"
proof (rule yields_seq [OF wp_acquire], elim conjE)
  fix w1
  assume before: "extends pre (trace w) w1" and f1: "fds (trace w1) = fds (trace w)"
  show "wp (bind (Accept listenfd) (\<lambda>a. seq release (bind (web_child (r_val a) result st)
      (\<lambda>st. seq (Close (r_val a)) (k st))))) (yields Q) w1"
    unfolding wp_bind [of "Accept listenfd"]
  proof (rule wp_conseq [OF wp_Accept])
    fix r w2
    assume acc: "accepted listenfd (trace w1) r w2"
    show "on_val (\<lambda>a. wp (seq release (bind (web_child (r_val a) result st)
        (\<lambda>st. seq (Close (r_val a)) (k st)))) (yields Q)) (yields Q) r w2"
    proof (cases r)
      case (Val c)
      obtain skipped where c: "0 \<le> r_val c" "trace w2 = trace w1 @ accept_log listenfd (skipped @ [c])"
        "list_all aborted skipped" using acc by (auto simp: Val accepted_def)
      have f2: "fds (trace w2) = add_mset (r_val c) (fds (trace w))"
        using c(1) fds_accept_log [OF c(3), of "fds (trace w1)" listenfd] by (simp add: c(2) f1 accept_log_def)
      have "wp (seq release (bind (web_child (r_val c) result st) (\<lambda>st. seq (Close (r_val c)) (k st)))) (yields Q) w2"
      proof (rule yields_seq [OF wp_release], elim conjE)
        fix w3
        assume after: "extends post (trace w2) w3" and f3: "fds (trace w3) = fds (trace w2)"
        have web: "wp (web_child (r_val c) result st) (yields (\<lambda>st' w4. rl_ok st' \<and> rl_rest st' = [] \<and>
            extends (\<lambda>talk. \<exists>ls. list_all valid_request ls \<and> stream_in (r_val c) talk = concat ls \<and>
              stream_out (r_val c) talk = replies result ls) (trace w3) w4 \<and> fds (trace w4) = fds (trace w3))) w3"
          using lib_reader.wp_web_loop [OF assms(1,3), where w = w3 and fd = "r_val c"]
            fdm.quiet_wp [OF quiet_web_child_fds [of "r_val c" result st], of w3] assms(2)
          by (auto simp: wp_def yields_def web_post_def web_child_def fdm_total split: prod.splits res.splits)
        show "wp (bind (web_child (r_val c) result st) (\<lambda>st. seq (Close (r_val c)) (k st))) (yields Q) w3"
        proof (rule yields_bind [OF web], elim conjE)
          fix st4 w4
          assume ok: "rl_ok st4" "rl_rest st4 = []"
            and talk: "extends (\<lambda>talk. \<exists>ls. list_all valid_request ls \<and> stream_in (r_val c) talk = concat ls \<and>
              stream_out (r_val c) talk = replies result ls) (trace w3) w4"
            and f4: "fds (trace w4) = fds (trace w3)"
          have whole: "extends (session pre post listenfd result) (trace w) (logged (SysClose (r_val c)) q w4)" for q
            using before c after talk unfolding session_def extends_def by fastforce
          show "wp (seq (Close (r_val c)) (k st4)) (yields Q) w4"
            using k [OF ok whole] by (auto simp: Close_def f4 f3 f2 split: list.split)
        qed
      qed
      then show ?thesis by (simp add: Val)
    qed (simp_all)
  qed
qed

end

context bracket begin

lemma child_eats: "cont_eats (child_body acquire release tick listenfd result s)"
  unfolding child_body_def seq_def Let_def
  by (rule cont_eats_case_prod, rule cont_eats_bind2 [OF takes(1)], rule cont_eats_bind1 [OF eats_Accept])
    (intro takes eating)

end

sublocale bracket \<subseteq> child: consuming "child_body acquire release tick listenfd result" for tick listenfd result
  by unfold_locales (rule child_eats)

text \<open>The loop of a child does not return: it is its first \<open>n\<close> turns and then the loop again.\<close>

lemma child_body_goes_on: "child_body acquire release tick listenfd result s w \<noteq> (Val (Inr a), w')"
  by (auto simp: child_body_def bind_def seq_def again_def ret_def split: prod.splits res.splits)

context bracket begin

lemma child_loop_turns:
  "loop (child_body acquire release tick listenfd result) s =
     bind (iterate n (child_body acquire release tick listenfd result) s) (loop (child_body acquire release tick listenfd result))"
  by (rule child.loop_iterate) (rule child_body_goes_on)

end

text \<open>After \<open>n\<close> turns of the loop of a server process that had done \<open>log\<close> before.\<close>

definition served_post :: "((syscall \<times> sysret) list \<Rightarrow> bool) \<Rightarrow> ((syscall \<times> sysret) list \<Rightarrow> bool) \<Rightarrow> int \<Rightarrow> string
    \<Rightarrow> nat \<Rightarrow> (syscall \<times> sysret) list \<Rightarrow> rline \<Rightarrow> world \<Rightarrow> bool" where
  "served_post pre post listenfd result n log st w \<longleftrightarrow> rl_ok st \<and> rl_rest st = [] \<and>
     extends (sessions pre post listenfd result n) log w \<and> fds (trace w) = fds log"

lemma served_post_start: "served_post pre post listenfd result 0 (trace w) rl_init w"
  by (auto simp: served_post_def rl_ok_def rl_init_def sessions_def intro!: extends_refl)

lemma served_post_more:
  assumes "served_post pre post l result n log st w"
    and "rl_ok st'" "rl_rest st' = []" "extends (session pre post l result) (trace w) w'" "fds (trace w') = fds (trace w)"
  shows "served_post pre post l result (Suc n) log st' w'"
  using assms extends_join [OF _ assms(4), of "sessions pre post l result n" log "sessions pre post l result (Suc n)"]
  by (auto simp: served_post_def intro: sessions_more)

context bracket begin

lemma wp_child_rounds:
  assumes "MAXN \<le> length result"
  shows "wp (iterate n (child_body acquire release tick listenfd result) (rl_init, m))
    (yields (\<lambda>(st, m') w'. m' = (tick ^^ n) m \<and> served_post pre post listenfd result n (trace w) st w')) w"
proof -
  let ?I = "\<lambda>n (st, m') w'. m' = (tick ^^ n) m \<and> served_post pre post listenfd result n (trace w) st w'"
  have "wp (iterate n (child_body acquire release tick listenfd result) (rl_init, m)) (yields (?I (0 + n))) w"
  proof (rule wp_iterate)
    show "?I 0 (rl_init, m) w" by (simp add: served_post_start)
  next
    fix k s w1
    assume "?I k s w1"
    then obtain st where s: "s = (st, (tick ^^ k) m)" and served: "served_post pre post listenfd result k (trace w) st w1"
      by (cases s) simp
    from served have st: "rl_ok st" "rl_rest st = []" by (simp_all add: served_post_def)
    show "wp (child_body acquire release tick listenfd result s)
        (yields (\<lambda>v w'. case v of Inl s' \<Rightarrow> ?I (Suc k) s' w' | Inr _ \<Rightarrow> True)) w1"
      unfolding child_body_def s prod.case Let_def
      by (rule wp_session [OF st assms]) (simp add: served_post_more [OF served] again_def)
  qed
  then show ?thesis by simp
qed

end

subsection \<open>The brackets\<close>

definition nothing :: "(syscall \<times> sysret) list \<Rightarrow> bool" where "nothing log \<longleftrightarrow> log = []"

definition readable :: "int \<Rightarrow> (syscall \<times> sysret) list \<Rightarrow> bool" where
  "readable fd log \<longleftrightarrow> (\<exists>r. log = [(SysSelect (fd + 1) [fd] [] None, r)] \<and> fd \<in> set (r_rset r))"

definition file_locked :: "int \<Rightarrow> (syscall \<times> sysret) list \<Rightarrow> bool" where
  "file_locked fd log \<longleftrightarrow> (\<exists>rs r. log = map (Pair (SysFcntl fd F_SETLKW F_WRLCK)) (rs @ [r]) \<and>
     list_all (\<lambda>r. r_val r < 0 \<and> r_err r = EINTR) rs \<and> 0 \<le> r_val r)"

definition file_unlocked :: "int \<Rightarrow> (syscall \<times> sysret) list \<Rightarrow> bool" where
  "file_unlocked fd log \<longleftrightarrow> (\<exists>r. log = [(SysFcntl fd F_SETLKW F_UNLCK, r)] \<and> 0 \<le> r_val r)"

definition mutex_called :: "string \<Rightarrow> int \<Rightarrow> (syscall \<times> sysret) list \<Rightarrow> bool" where
  "mutex_called nm mptr log \<longleftrightarrow> (\<exists>r. log = [(SysOther nm [mptr] [], r)] \<and> r_val r = 0)"

lemma lock_wait_eats: "cont_eats (lock_wait_body fd u)"
  unfolding lock_wait_body_def by (intro body_eating eating cont_eats_err_sys)

interpretation lock_wait: consuming "lock_wait_body fd" for fd
  by unfold_locales (rule lock_wait_eats)

lemma extends_call: "P [(c, r)] \<Longrightarrow> extends P (trace w) (logged c r w)"
  by (auto simp: extends_def logged_def)

lemma wp_my_lock_wait: "wp (my_lock_wait fd) (step_post (file_locked fd) (trace w)) w"
  unfolding my_lock_wait_def
proof (rule lock_wait.wp_loop [where I = "\<lambda>_ w'. extends (\<lambda>new. \<exists>rs. new = map (Pair (SysFcntl fd F_SETLKW F_WRLCK)) rs \<and>
    list_all (\<lambda>r. r_val r < 0 \<and> r_err r = EINTR) rs) (trace w) w'"])
  show "extends (\<lambda>new. \<exists>rs. new = map (Pair (SysFcntl fd F_SETLKW F_WRLCK)) rs \<and>
      list_all (\<lambda>r. r_val r < 0 \<and> r_err r = EINTR) rs) (trace w) w"
    by (rule extends_refl) simp_all
next
  fix u w1
  assume "extends (\<lambda>new. \<exists>rs. new = map (Pair (SysFcntl fd F_SETLKW F_WRLCK)) rs \<and>
      list_all (\<lambda>r. r_val r < 0 \<and> r_err r = EINTR) rs) (trace w) w1"
  then obtain rs where rs: "trace w1 = trace w @ map (Pair (SysFcntl fd F_SETLKW F_WRLCK)) rs"
    "list_all (\<lambda>r. r_val r < 0 \<and> r_err r = EINTR) rs" by (auto simp: extends_def)
  have go_on: "extends (\<lambda>new. \<exists>rs. new = map (Pair (SysFcntl fd F_SETLKW F_WRLCK)) rs \<and>
      list_all (\<lambda>r. r_val r < 0 \<and> r_err r = EINTR) rs) (trace w) (logged (SysFcntl fd F_SETLKW F_WRLCK) r w1)"
    if "r_val r < 0" "r_err r = EINTR" for r
    using that rs by (auto simp: extends_def logged_def intro!: exI [of _ "rs @ [r]"])
  have got: "extends (file_locked fd) (trace w) (logged (SysFcntl fd F_SETLKW F_WRLCK) r w1)" if "0 \<le> r_val r" for r
    using that rs by (auto simp: extends_def logged_def file_locked_def intro!: exI [of _ rs])
  show "wp (lock_wait_body fd u) (body_post (\<lambda>_. extends (\<lambda>new. \<exists>rs. new = map (Pair (SysFcntl fd F_SETLKW F_WRLCK)) rs \<and>
      list_all (\<lambda>r. r_val r < 0 \<and> r_err r = EINTR) rs) (trace w)) (step_post (file_locked fd) (trace w))) w1"
    using go_on got by (auto simp: lock_wait_body_def split: list.split)
qed

lemma shrinks_brackets [eating]: "shrinks (my_lock_wait fd)" "shrinks (my_lock_release fd)"
  "shrinks (mutex_wait mptr)" "shrinks (mutex_release mptr)" "shrinks (wait_readable lfd)"
  unfolding my_lock_wait_def my_lock_release_def mutex_wait_def mutex_release_def wait_readable_def
    Pthread_mutex_lock_def Pthread_mutex_unlock_def Select_def
  by (intro eating lock_wait.shrinks_body)+

interpretation plain: bracket "ret ()" "ret ()" nothing nothing
  by unfold_locales (simp_all add: nothing_def extends_refl eating)

interpretation selecting: bracket "wait_readable lfd" "ret ()" "readable lfd" nothing for lfd
proof
  show "wp (wait_readable lfd) (step_post (readable lfd) (trace w)) w" for w
    by (auto simp: wait_readable_def Select_def readable_def extends_call split: list.split)
  show "fdm.quiet (wait_readable lfd)"
    unfolding wait_readable_def Select_def by (intro fdm.quiet_intros fdm.quiet_sys; simp)
qed (simp_all add: nothing_def extends_refl eating)

interpretation file_bracket: bracket "my_lock_wait fd" "my_lock_release fd" "file_locked fd" "file_unlocked fd" for fd
proof
  show "wp (my_lock_release fd) (step_post (file_unlocked fd) (trace w)) w" for w
    by (auto simp: my_lock_release_def file_unlocked_def extends_call split: list.split)
  show "fdm.quiet (my_lock_wait fd)"
    unfolding my_lock_wait_def lock_wait_body_def by (intro fdm.quiet_intros fdm.quiet_call; simp)
  show "fdm.quiet (my_lock_release fd)"
    unfolding my_lock_release_def by (intro fdm.quiet_intros fdm.quiet_call; simp)
qed (rule wp_my_lock_wait shrinks_brackets)+

interpretation mutex_bracket: bracket "mutex_wait mptr" "mutex_release mptr"
  "mutex_called ''pthread_mutex_lock'' mptr" "mutex_called ''pthread_mutex_unlock'' mptr" for mptr
proof
  show "wp (mutex_wait mptr) (step_post (mutex_called ''pthread_mutex_lock'' mptr) (trace w)) w"
    "wp (mutex_release mptr) (step_post (mutex_called ''pthread_mutex_unlock'' mptr) (trace w)) w" for w
    by (auto simp: mutex_wait_def mutex_release_def Pthread_mutex_lock_def Pthread_mutex_unlock_def mutex_called_def
        extends_call Let_def split: list.split)
  show "fdm.quiet (mutex_wait mptr)" "fdm.quiet (mutex_release mptr)"
    unfolding mutex_wait_def mutex_release_def Pthread_mutex_lock_def Pthread_mutex_unlock_def pthread_def
    by (intro fdm.quiet_intros fdm.quiet_call; simp)+
qed (rule shrinks_brackets)+

subsection \<open>Holding the lock\<close>

text \<open>What a call does to the lock of the process: taken, given back, or nothing.\<close>

definition lock_event :: "syscall \<times> sysret \<Rightarrow> bool option" where
  "lock_event e =
     (case e of
        (SysFcntl fd cmd arg, r) \<Rightarrow>
          if cmd \<noteq> F_SETLKW \<or> r_val r < 0 then None
          else if arg = F_WRLCK then Some True else if arg = F_UNLCK then Some False else None
      | (SysOther nm is ss, r) \<Rightarrow>
          if r_val r \<noteq> 0 then None
          else if nm = ''pthread_mutex_lock'' then Some True
          else if nm = ''pthread_mutex_unlock'' then Some False else None
      | _ \<Rightarrow> None)"

definition is_accept :: "syscall \<times> sysret \<Rightarrow> bool" where
  "is_accept e = (case e of (SysAccept fd, r) \<Rightarrow> True | _ \<Rightarrow> False)"

definition lock_step :: "bool \<times> bool \<Rightarrow> syscall \<times> sysret \<Rightarrow> bool \<times> bool" where
  \<comment> \<open>the lock is held; so far \<open>accept\<close> was called only with it, and it was never taken twice nor given
     back twice\<close>
  "lock_step = (\<lambda>(held, good) e.
     case lock_event e of
       Some True \<Rightarrow> (True, good \<and> \<not> held)
     | Some False \<Rightarrow> (False, good \<and> held)
     | None \<Rightarrow> (held, good \<and> (is_accept e \<longrightarrow> held)))"

definition disciplined :: "(syscall \<times> sysret) list \<Rightarrow> bool" where
  "disciplined log \<longleftrightarrow> snd (foldl lock_step (False, True) log)"

lemma lock_step_simps [simp]:
  "lock_step s (SysPut fd t, r) = s" "lock_step s (SysRead fd n, r) = s" "lock_step s (SysWrite fd t, r) = s"
  "lock_step s (SysClose fd, r) = s" "lock_step (held, good) (SysAccept fd, r) = (held, good \<and> held)"
  "lock_step s (SysOther ''pthread_mutex_lock'' is ss, r) = (if r_val r = 0 then (True, snd s \<and> \<not> fst s) else s)"
  "lock_step s (SysOther ''pthread_mutex_unlock'' is ss, r) = (if r_val r = 0 then (False, snd s \<and> fst s) else s)"
  "nm \<noteq> ''pthread_mutex_lock'' \<Longrightarrow> nm \<noteq> ''pthread_mutex_unlock'' \<Longrightarrow> lock_step s (SysOther nm is ss, r) = s"
  "lock_step s (SysFcntl fd F_SETLKW F_WRLCK, r) = (if r_val r < 0 then s else (True, snd s \<and> \<not> fst s))"
  "lock_step s (SysFcntl fd F_SETLKW F_UNLCK, r) = (if r_val r < 0 then s else (False, snd s \<and> fst s))"
  by (simp_all add: lock_step_def lock_event_def is_accept_def F_WRLCK_def F_UNLCK_def split: prod.split)

interpretation locks: tally lock_step "(False, True)"
  by unfold_locales auto

lemma disciplined_total: "disciplined (trace w) \<longleftrightarrow> snd (locks.total w)"
  by (simp add: disciplined_def locks.total_def)

locale lock = bracket +
  assumes locks: "locks.total w = (False, True) \<Longrightarrow>
      wp acquire (ends (\<lambda>_ w'. locks.total w' = (True, True)) (\<lambda>w'. snd (locks.total w'))) w"
    and unlocks: "locks.total w = (True, True) \<Longrightarrow>
      wp release (ends (\<lambda>_ w'. locks.total w' = (False, True)) (\<lambda>w'. snd (locks.total w'))) w"

lemma Accept_locked:
  assumes "locks.total w = (True, True)"
  shows "wp (Accept fd) (ends (\<lambda>_ w'. locks.total w' = (True, True)) (\<lambda>w'. snd (locks.total w'))) w"
  unfolding Accept_def
  by (rule accept.wp_loop [where I = "\<lambda>_ w'. locks.total w' = (True, True)"])
    (use assms in \<open>auto simp: accept_body_def split: list.split\<close>)

context lock begin

lemma child_disciplined:
  assumes "rl_ok st" "MAXN \<le> length result" "locks.total w = (False, True)"
  shows "wp (loop (child_body acquire release tick listenfd result) (st, m))
    (ends (\<lambda>_ _. False) (\<lambda>w'. snd (locks.total w'))) w"
proof -
  let ?I = "\<lambda>s w'. rl_ok (fst s) \<and> locks.total w' = (False, True)"
  let ?E = "\<lambda>w'. snd (locks.total w')"
  let ?Q = "body_post ?I (ends (\<lambda>_ _. False) ?E)"
  show ?thesis
  proof (rule child.wp_loop [where I = ?I])
    show "?I (st, m) w" using assms by simp
  next
    fix s :: "rline \<times> int" and w1
    assume "?I s w1"
    then obtain st m where s: "s = (st, m)" and st: "rl_ok st" and t1: "locks.total w1 = (False, True)" by (cases s) simp
    have serve: "wp (bind (web_child fd result st) (\<lambda>st. seq (Close fd) (again (st, tick m))))
        (ends (\<lambda>v w'. \<exists>st'. v = Inl (st', tick m) \<and> rl_ok st' \<and> locks.total w' = (False, True)) ?E) w4"
      if "locks.total w4 = (False, True)" for fd w4
    proof (rule ends_bind)
      show "wp (web_child fd result st) (ends (\<lambda>st' w'. rl_ok st' \<and> locks.total w' = (False, True)) ?E) w4"
        using lib_reader.wp_web_loop [OF st assms(2), where w = w4 and fd = fd]
          locks.quiet_wp [OF locks.quiet_web_child [of fd result st], of w4] that
        by (auto simp: wp_def web_post_def web_child_def ends_def split: prod.splits res.splits)
    qed (auto simp: Close_def again_def split: list.split)
    have "wp (child_body acquire release tick listenfd result s)
        (ends (\<lambda>v w'. \<exists>st'. v = Inl (st', tick m) \<and> rl_ok st' \<and> locks.total w' = (False, True)) ?E) w1"
      unfolding child_body_def s prod.case Let_def
      by (rule ends_seq [OF locks [OF t1]], rule ends_bind [OF Accept_locked], assumption,
          rule ends_seq [OF unlocks], assumption, rule serve, assumption)
    then show "wp (child_body acquire release tick listenfd result s) ?Q w1"
      by (rule wp_conseq) (auto simp: ends_def body_post_def split: res.splits)
  qed
qed

end

interpretation file_lock: lock "my_lock_wait fd" "my_lock_release fd" "file_locked fd" "file_unlocked fd" for fd
proof
  fix w
  show "wp (my_lock_wait fd) (ends (\<lambda>_ w'. locks.total w' = (True, True)) (\<lambda>w'. snd (locks.total w'))) w"
    if "locks.total w = (False, True)"
    unfolding my_lock_wait_def
    by (rule lock_wait.wp_loop [where I = "\<lambda>_ w'. locks.total w' = (False, True)"])
      (use that in \<open>auto simp: lock_wait_body_def split: list.split\<close>)
  show "wp (my_lock_release fd) (ends (\<lambda>_ w'. locks.total w' = (False, True)) (\<lambda>w'. snd (locks.total w'))) w"
    if "locks.total w = (True, True)"
    using that by (auto simp: my_lock_release_def split: list.split)
qed

interpretation mutex_lock: lock "mutex_wait mptr" "mutex_release mptr"
  "mutex_called ''pthread_mutex_lock'' mptr" "mutex_called ''pthread_mutex_unlock'' mptr" for mptr
  by unfold_locales (auto simp: mutex_wait_def mutex_release_def Pthread_mutex_lock_def Pthread_mutex_unlock_def
      Let_def split: list.split)

text \<open>The other loops take an answer in each turn.\<close>

interpretation serv00: consuming "serv00_body l result" for l result
  by unfold_locales (unfold serv00_body_def seq_def, rule cont_eats_bind1 [OF eats_Accept], intro eating)

interpretation serv01: consuming "serv01_body l result" for l result
  by unfold_locales (unfold serv01_body_def seq_def Fork_def, rule cont_eats_bind1 [OF eats_sys], intro eating)

interpretation sig_chld: consuming sig_chld_body
  by unfold_locales (unfold sig_chld_body_def, intro body_eating eating)

interpretation pausing: consuming pause_body
  by unfold_locales (unfold pause_body_def, intro body_eating eating)

interpretation waiting: consuming wait_body
  by unfold_locales (unfold wait_body_def, intro body_eating eating)

lemma serv00_loop_turns:
  "loop (serv00_body l result) st = bind (iterate n (serv00_body l result) st) (loop (serv00_body l result))"
  by (rule serv00.loop_iterate)
    (auto simp: serv00_body_def bind_def seq_def again_def ret_def split: prod.splits res.splits)

text \<open>A SIGCHLD handler returns when no more children have ended; a SIGINT handler waits for all.\<close>

lemma wp_wait_all:
  "wp wait_all (\<lambda>r w'. r = Blocked \<or> r = Val () \<and> errno w' = ECHILD \<or> r = Exited 1) w"
proof -
  have "wp (loop wait_body ()) (\<lambda>r w'. r = Blocked \<or> r = Val ()) w"
    by (rule waiting.wp_loop [where I = "\<lambda>_ _. True"]) (auto simp: wait_body_def split: list.split)
  then show ?thesis
    unfolding wait_all_def wp_seq by (rule wp_conseq) auto
qed

lemma wp_child_main_disciplined:
  assumes "\<And>w. locks.total w = (False, True) \<Longrightarrow>
    wp (loop (child_body acquire release tick l result) (rl_init, n)) (ends (\<lambda>_ _. False) (\<lambda>w'. snd (locks.total w'))) w"
  shows "wp (child_main acquire release tick result i l addrlen n) (ends (\<lambda>_ _. False) (\<lambda>w'. disciplined (trace w'))) (start rs)"
  using assms by (auto simp: child_main_def Malloc_def disciplined_total locks.total_start split: list.split)

lemma seq_ret: "seq (ret ()) m = m"
  by (simp add: seq_def bind_ret)

lemma wp_serv00_rounds:
  assumes "MAXN \<le> length result"
  shows "wp (iterate n (serv00_body l result) rl_init) (yields (served_post nothing nothing l result n (trace w))) w"
proof -
  have "wp (iterate n (serv00_body l result) rl_init) (yields (served_post nothing nothing l result (0 + n) (trace w))) w"
  proof (rule wp_iterate)
    fix k st w1
    assume served: "served_post nothing nothing l result k (trace w) st w1"
    then have st: "rl_ok st" "rl_rest st = []" by (simp_all add: served_post_def)
    show "wp (serv00_body l result st) (yields (\<lambda>v w'. case v of
        Inl st' \<Rightarrow> served_post nothing nothing l result (Suc k) (trace w) st' w' | Inr _ \<Rightarrow> True)) w1"
      unfolding serv00_body_def
      by (rule plain.wp_session [OF st assms, unfolded seq_ret]) (simp add: served_post_more [OF served] again_def)
  qed (rule served_post_start)
  then show ?thesis by simp
qed

lemma client_request_eq: "n \<le> MAXN \<Longrightarrow> client_request (int n) = request n"
proof -
  assume n: "n \<le> MAXN"
  then have len: "length (dec n) \<le> 5" using length_dec_5 [of n] by (simp add: MAXN_def)
  have "c \<noteq> CHR 0x00" if "c \<in> set (dec n)" for c using dec_isdigit [OF that] by (auto simp: isdigit_def)
  then have "c_string (dec n @ [newline]) = dec n @ [newline]"
    by (auto simp: c_string_def newline_def takeWhile_eq_all_conv)
  then show ?thesis
    using len by (simp add: client_request_def dec_int_def snprintf_def request_def MAXLINE_def)
qed

subsection \<open>Properties\<close>

text \<open>C17: the processes that serve: whatever the clients and the system do, each turn of the loop of
  serv00.c and of every child of serv02.c to serv04.c is a whole connection.  In a trace of \<open>n\<close> turns there are \<open>n\<close>
  sessions, one after the other: what the variant does before \<open>accept\<close>, the connections
  aborted meanwhile, the one accepted, what it does after, the requests of this client with their
  replies, and the \<open>close\<close>.  No byte and no descriptor is left for the next client, and the
  metered variants have counted each connection once.\<close>

theorem server_sessions:
  assumes "MAXN \<le> length result"
  shows "wp (iterate n (serv00_body l result) rl_init) (yields (served_post nothing nothing l result n (trace w))) w \<and>
    wp (iterate n (child_body (ret ()) (ret ()) tick l result) (rl_init, m)) (yields (\<lambda>(st, m') w'.
       m' = (tick ^^ n) m \<and> served_post nothing nothing l result n (trace w) st w')) w \<and>
    wp (iterate n (child_body (wait_readable l) (ret ()) tick l result) (rl_init, m)) (yields (\<lambda>(st, m') w'.
       m' = (tick ^^ n) m \<and> served_post (readable l) nothing l result n (trace w) st w')) w \<and>
    wp (iterate n (child_body (my_lock_wait fd) (my_lock_release fd) tick l result) (rl_init, m)) (yields (\<lambda>(st, m') w'.
       m' = (tick ^^ n) m \<and> served_post (file_locked fd) (file_unlocked fd) l result n (trace w) st w')) w \<and>
    wp (iterate n (child_body (mutex_wait mptr) (mutex_release mptr) tick l result) (rl_init, m)) (yields (\<lambda>(st, m') w'.
       m' = (tick ^^ n) m \<and> served_post (mutex_called ''pthread_mutex_lock'' mptr)
         (mutex_called ''pthread_mutex_unlock'' mptr) l result n (trace w) st w')) w"
  by (intro conjI wp_serv00_rounds plain.wp_child_rounds selecting.wp_child_rounds file_bracket.wp_child_rounds
      mutex_bracket.wp_child_rounds assms)

theorem server_sessions_witness:
  "wp (iterate 2 (serv00_body 3 (replicate MAXN CHR ''x'')) rl_init)
     (yields (served_post nothing nothing 3 (replicate MAXN CHR ''x'') 2 []))
     (start [ok 4, okdata (request 1), ok 1, okdata [], ok 0, fail ECONNABORTED, ok 4, okdata [], ok 0])"
  using server_sessions [of "replicate MAXN CHR ''x''" 2 3 "start [ok 4, okdata (request 1), ok 1, okdata [], ok 0,
    fail ECONNABORTED, ok 4, okdata [], ok 0]"]
  by (simp add: start_def)

text \<open>C18: the children of serv03.c and serv04.c call \<open>accept\<close> only while they hold the lock, never take it twice
  nor give back a lock they do not hold; this holds at every point where a child can
  stop: when it waits for the lock, for a connection or for its client, and when it exits.  A child
  never returns.\<close>

theorem accept_under_lock:
  assumes "MAXN \<le> length result"
  shows "wp (child03 lock_fd result i l addrlen) (ends (\<lambda>_ _. False) (\<lambda>w'. disciplined (trace w'))) (start rs) \<and>
    wp (child03m lock_fd result i l addrlen) (ends (\<lambda>_ _. False) (\<lambda>w'. disciplined (trace w'))) (start rs) \<and>
    wp (child04 mptr result i l addrlen) (ends (\<lambda>_ _. False) (\<lambda>w'. disciplined (trace w'))) (start rs)"
  unfolding child03_def child03m_def child04_def
  by (intro conjI wp_child_main_disciplined file_lock.child_disciplined mutex_lock.child_disciplined)
    (simp_all add: assms)

theorem accept_under_lock_witness:
  "wp (child03 5 (replicate MAXN CHR ''x'') 0 3 16) (ends (\<lambda>_ _. False) (\<lambda>w'. disciplined (trace w')))
     (start [ok 1, ok 77, fail EINTR, ok 0, ok 4, ok 0, okdata (request 1), ok 1])"
  by (rule accept_under_lock [THEN conjunct1]) simp

text \<open>C24: the client and the server agree: for 1 to 16384 bytes the client's line is a request the server
  accepts, the reply has the length asked for, and when it arrives in any
  nonempty pieces the client reads all of it, closes the connection and goes on.\<close>

theorem client_served:
  assumes "0 < n" "n \<le> MAXN" "length result = MAXN"
    and "list_all (\<lambda>c. c \<noteq> []) pieces" "concat pieces = reply result (client_request (int n))"
    and "script w = ok (int (length (client_request (int n)))) # map okdata pieces @ ok 0 # rest"
  shows "valid_request (client_request (int n)) \<and>
    wp (client_exchange fd (int n)) (\<lambda>r w'. r = Val () \<and> script w' = rest) w"
proof
  note req = request_reply [OF assms(1-3)] client_request_eq [OF assms(2)]
  show "valid_request (client_request (int n))"
    using req assms(1,2) by (simp add: valid_request_def is_line_def request_def)
  have whole: "nat (int n mod 2 ^ 64) = n" using assms(2) by (simp add: MAXN_def)
  have took: "fits_write s (ok (int (length s)))" "r_val (ok v) = v" for s v by (simp_all add: fits_write_def ok_def)
  let ?w = "logged (SysWrite fd (client_request (int n))) (ok (int (length (client_request (int n))))) w"
  have len: "length (concat pieces) = n" using req assms(2,3,5) by simp
  have "wp (readn fd n) (\<lambda>r w'. r = Val (int n, concat pieces) \<and> script w' = ok 0 # rest) ?w"
    using loop_readn_pieces [of pieces n "[]" n ?w "ok 0 # rest" fd] assms(4,6) len by (simp add: readn_def)
  note read = wp_conseq [OF this]
  show "wp (client_exchange fd (int n)) (\<lambda>r w'. r = Val () \<and> script w' = rest) w"
    using assms(6) whole took unfolding client_exchange_def Write_def Readn_def
    by (simp, intro read) (use len assms(2) in \<open>auto simp: Close_def took logged_def\<close>)
qed

theorem client_served_witness:
  "valid_request (client_request 3) \<and>
   wp (client_exchange 4 3) (\<lambda>r w'. r = Val () \<and> script w' = [])
     (start [ok 2, okdata ''x'', okdata ''xx'', ok 0])"
proof -
  have "to_int (atoi (request 3)) = 3" "client_request (int 3) = request 3" "3 \<le> MAXN" "request 3 = ''3'' @ [newline]"
    using request_reply(1) [of 3 "replicate MAXN CHR ''x''"] client_request_eq [of 3]
    by (simp_all add: MAXN_def request_def dec.simps digits10_def)
  moreover have "take 3 (replicate MAXN CHR ''x'') = ''xxx''"
    by (simp add: MAXN_def numeral_3_eq_3)
  ultimately show ?thesis
    using client_served [of 3 "replicate MAXN CHR ''x''" "[''x'', ''xx'']" "start [ok 2, okdata ''x'', okdata ''xx'', ok 0]" "[]" 4]
    by (simp add: start_def reply_def)
qed

end
