(* ===== verification/Prefork.thy ===== *)
theory Prefork
  imports Server
begin

text \<open>
  The preforked server with descriptor passing: server/serv05.c, whose parent accepts every
  connection and passes it over a stream pipe to a child that is idle, and server/child05.c.

  Both sides of the pipe are modelled.  The parent is proved to keep its table right as long as a
  child answers each descriptor at most once; the child is proved to do so.
\<close>

subsection \<open>child.h\<close>

record Child =
  child_pid :: int
  child_pipefd :: int \<comment> \<open>parent's stream pipe to/from child\<close>
  child_status :: int \<comment> \<open>0 = ready\<close>
  child_count :: int

definition no_child :: Child where
  \<comment> \<open>an entry as \<open>calloc\<close> leaves it\<close>
  "no_child = \<lparr>child_pid = 0, child_pipefd = 0, child_status = 0, child_count = 0\<rparr>"

text \<open>The byte that travels with a descriptor, and back: \<open>""\<close> with length 1.\<close>

definition nul :: string where "nul = [CHR 0x00]"

subsection \<open>child05.c\<close>

definition child05_body :: "string \<Rightarrow> rline \<Rightarrow> (rline + unit) io" where
  "child05_body result st =
     bind (Read_fd STDERR_FILENO 1) (\<lambda>(n, c, passed).
     if n = 0 then err_quit ''read_fd returned 0''
     else case passed of
       None \<Rightarrow> undef
     | Some connfd \<Rightarrow>
         if connfd < 0 then err_quit ''no descriptor from read_fd''
         else
           bind (web_child connfd result st) (\<lambda>st. \<comment> \<open>process request\<close>
           seq (Close connfd)
          (seq (Write STDERR_FILENO nul) \<comment> \<open>tell parent we're ready again\<close>
            (again st))))"

definition child05_main :: "string \<Rightarrow> unit io" where
  "child05_main result =
     bind (call (SysOther ''getpid'' [] [])) (\<lambda>pid.
     seq (printf (''child '' @ dec_int pid @ '' starting'' @ [newline]))
    (bind (loop (child05_body result) rl_init) ret))"

subsection \<open>serv05.c\<close>

record prefork =
  cptr :: "Child list"
  navail :: int
  masterset :: "int list"
  maxfd :: int

definition set_child :: "nat \<Rightarrow> Child \<Rightarrow> prefork \<Rightarrow> prefork" where
  "set_child i c st = st\<lparr>cptr := (cptr st)[i := c]\<rparr>"

definition watch :: "int \<Rightarrow> prefork \<Rightarrow> prefork io" where
  \<comment> \<open>\<open>FD_SET\<close> and \<open>max\<close>\<close>
  "watch fd st =
     seq (guard (0 \<le> fd \<and> fd < int FD_SETSIZE))
       (ret (st\<lparr>masterset := masterset st @ [fd], maxfd := max (maxfd st) fd\<rparr>))"

definition child05_make :: "string \<Rightarrow> int \<Rightarrow> nat \<Rightarrow> prefork \<Rightarrow> prefork io" where
  "child05_make result listenfd i st =
     bind (Socketpair AF_UNIX SOCK_STREAM 0) (\<lambda>(fd0, fd1).
     bind Fork (\<lambda>pid.
     if 0 < pid then \<comment> \<open>parent\<close>
       seq (Close fd1)
         (ret (set_child i ((cptr st ! i)\<lparr>child_pid := pid, child_pipefd := fd0, child_status := 0\<rparr>) st))
     else
       seq (Dup2 fd1 STDERR_FILENO) \<comment> \<open>child's stream pipe to parent\<close>
      (seq (Close fd0)
      (seq (Close fd1)
      (seq (Close listenfd) \<comment> \<open>child does not need this open\<close>
      (seq (child05_main result) undef)))))) \<comment> \<open>never returns\<close>"

fun prefork_all :: "string \<Rightarrow> int \<Rightarrow> nat list \<Rightarrow> prefork \<Rightarrow> prefork io" where
  "prefork_all result listenfd [] st = ret st"
| "prefork_all result listenfd (i # is) st =
     bind (child05_make result listenfd i st) (\<lambda>st.
     bind (watch (child_pipefd (cptr st ! i)) st) (prefork_all result listenfd is))"

definition serv05_init :: "string \<Rightarrow> int \<Rightarrow> nat \<Rightarrow> int \<Rightarrow> prefork io" where
  \<comment> \<open>from the listening socket to the loop; \<open>sizeof(Child)\<close> is 24\<close>
  "serv05_init result listenfd addrlen nchildren =
     bind (watch listenfd \<lparr>cptr = [], navail = 0, masterset = [], maxfd = listenfd\<rparr>) (\<lambda>st.
     bind (Malloc (int addrlen)) (\<lambda>cliaddr.
     bind (Calloc nchildren 24) (\<lambda>p.
     bind (prefork_all result listenfd [0..<nat nchildren]
       (st\<lparr>navail := nchildren, cptr := replicate (nat nchildren) no_child\<rparr>)) (\<lambda>st.
     seq (Signal SIGINT ''sig_int'') (ret st)))))"

definition find_available :: "Child list \<Rightarrow> nat" where
  "find_available cs = length (takeWhile (\<lambda>c. child_status c \<noteq> 0) cs)"

definition hand_over :: "int \<Rightarrow> prefork \<Rightarrow> prefork io" where
  "hand_over listenfd st =
     bind (Accept listenfd) (\<lambda>a.
     let i = find_available (cptr st) in
     if i = length (cptr st) then err_quit ''no available children''
     else
       let c = cptr st ! i;
           st = set_child i (c\<lparr>child_status := 1, \<comment> \<open>mark child as busy\<close>
             child_count := child_count c + 1\<rparr>) (st\<lparr>navail := navail st - 1\<rparr>)
       in bind (Write_fd (child_pipefd c) nul (r_val a)) (\<lambda>n.
          seq (Close (r_val a)) (ret st)))"

definition child_ready :: "int list \<Rightarrow> nat \<Rightarrow> prefork \<times> int \<Rightarrow> ((prefork \<times> int) + prefork) io" where
  "child_ready rset i = (\<lambda>(st, nsel).
     let c = cptr st ! i in
     if child_pipefd c \<notin> set rset then again (st, nsel)
     else
       bind (Read (child_pipefd c) 1) (\<lambda>(n, rc).
       if n = 0 then err_quit (''child '' @ dec i @ '' terminated unexpectedly'')
       else
         let st = set_child i (c\<lparr>child_status := 0\<rparr>) (st\<lparr>navail := navail st + 1\<rparr>)
         in if nsel - 1 = 0 then stop st \<comment> \<open>all done with select() results\<close>
            else again (st, nsel - 1)))"

definition serv05_body :: "int \<Rightarrow> prefork \<Rightarrow> (prefork + int) io" where
  "serv05_body listenfd st =
     (let rset = if navail st \<le> 0 then removeAll listenfd (masterset st) \<comment> \<open>turn off if no available children\<close>
                 else masterset st
      in bind (Select (maxfd st + 1) rset [] None) (\<lambda>r.
         let rset = r_rset r; nsel = r_val r in
         bind (if listenfd \<in> set rset then bind (hand_over listenfd st) (\<lambda>st. ret (st, nsel - 1))
               else ret (st, nsel)) (\<lambda>(st, nsel).
         if listenfd \<in> set rset \<and> nsel = 0 then again st \<comment> \<open>all done with select() results\<close>
         else
           \<comment> \<open>find any newly-available children\<close>
           bind (for_each [0..<length (cptr st)] (child_ready rset) (st, nsel)) (\<lambda>v.
           case v of Inl (st, _) \<Rightarrow> again st | Inr st \<Rightarrow> again st))))"

definition serv05_main :: "string \<Rightarrow> string list \<Rightarrow> int io" where
  "serv05_main result argv =
     bind (server_listen 1 ''usage: serv05 [ <host> ] <port#> <#children>'' argv) (\<lambda>(listenfd, addrlen).
     bind (serv05_init result listenfd addrlen (to_int (atoi (last argv)))) (\<lambda>st.
     loop (serv05_body listenfd) st))"

definition sig_int05 :: "(int \<Rightarrow> string) \<Rightarrow> prefork \<Rightarrow> 'a io" where
  "sig_int05 fmt st = sig_int_metered fmt (map child_pid (cptr st)) (map child_count (cptr st))"

subsection \<open>The loops\<close>

lemma shrinks_wrappers05 [eating]: "shrinks (Write_fd fd s p)" "shrinks (Read fd n)" "shrinks (Select mx rs ws tv)"
  unfolding Write_fd_def write_fd_def Read_def Select_def by (intro eating)+

lemma child05_eats: "cont_eats (child05_body result st)"
  unfolding child05_body_def seq_def Read_fd_def Connect.read_fd_def
  by (intro cont_eats_bind1 eats_bind1 eats_sys) (auto intro!: eating split: option.split list.split)

interpretation child05: consuming "child05_body result" for result
  by unfold_locales (rule child05_eats)

lemma shrinks_hand_over [eating]: "shrinks (hand_over l st)"
  unfolding hand_over_def Let_def seq_def by (intro eating)

lemma shrinks_child_ready [eating]: "shrinks (child_ready rset i s)"
  unfolding child_ready_def Let_def by (cases s) (simp, intro eating conjI impI)

interpretation serv05: consuming "serv05_body l" for l
  by unfold_locales (unfold serv05_body_def Let_def Select_def, rule cont_eats_bind1, intro eats_bind1 eats_sys eating, intro eating)

subsection \<open>What goes over the pipes\<close>

text \<open>
  From the parent's side: the pipes with a descriptor that was not answered yet; whether each byte
  read from a pipe answered one (\<open>honest\<close>); and whether \<open>accept\<close> was called only when fewer
  than \<open>n\<close> pipes were busy and no descriptor was passed over a busy pipe (\<open>careful\<close>).
\<close>

definition pipe_step :: "nat \<Rightarrow> int multiset \<times> bool \<times> bool \<Rightarrow> syscall \<times> sysret \<Rightarrow> int multiset \<times> bool \<times> bool" where
  "pipe_step n = (\<lambda>(busy, hon, care) e.
     case e of
       (SysAccept fd, r) \<Rightarrow> (busy, hon, care \<and> size busy < n)
     | (SysOther nm is ss, r) \<Rightarrow>
         if nm = ''sendmsg'' \<and> is \<noteq> [] \<and> 0 \<le> r_val r then (add_mset (hd is) busy, hon, care \<and> hd is \<notin># busy)
         else (busy, hon, care)
     | (SysRead fd k, r) \<Rightarrow> if 0 < r_val r then (busy - {#fd#}, hon \<and> fd \<in># busy, care) else (busy, hon, care)
     | _ \<Rightarrow> (busy, hon, care))"

lemma pipe_step_simps [simp]:
  "pipe_step n (B, h, g) (SysAccept fd, r) = (B, h, g \<and> size B < n)"
  "pipe_step n (B, h, g) (SysRead fd k, r) = (if 0 < r_val r then (B - {#fd#}, h \<and> fd \<in># B, g) else (B, h, g))"
  "pipe_step n (B, h, g) (SysOther ''sendmsg'' (fd # is) ss, r) =
     (if 0 \<le> r_val r then (add_mset fd B, h, g \<and> fd \<notin># B) else (B, h, g))"
  "nm \<noteq> ''sendmsg'' \<Longrightarrow> pipe_step n s (SysOther nm is ss, r) = s"
  "pipe_step n s (SysPut fd t, r) = s" "pipe_step n s (SysClose fd, r) = s" "pipe_step n s (SysSelect mx rs ws tv, r) = s"
  "pipe_step n s (SysFork, r) = s"
  by (auto simp: pipe_step_def split: prod.split)

interpretation pipes: tally "pipe_step n" "({#}, True, True)" for n
  by unfold_locales auto

abbreviation honest05 :: "nat \<Rightarrow> world \<Rightarrow> bool" where "honest05 n w \<equiv> fst (snd (pipes.total n w))"
abbreviation careful05 :: "nat \<Rightarrow> world \<Rightarrow> bool" where "careful05 n w \<equiv> snd (snd (pipes.total n w))"

lemma Accept_pipes:
  assumes "pipes.total n w = (B, h, g)"
  shows "wp (Accept fd) (\<lambda>r w'. \<exists>g'. r \<noteq> Undef \<and> pipes.total n w' = (B, h, g') \<and>
    (g \<and> size B < n \<longrightarrow> g')) w"
  unfolding Accept_def
  by (rule accept.wp_loop [where I = "\<lambda>_ w'. \<exists>g'. pipes.total n w' = (B, h, g') \<and> (g \<and> size B < n \<longrightarrow> g')"])
    (use assms in \<open>auto simp: accept_body_def split: list.split\<close>)

subsection \<open>The parent's table\<close>

definition pipe_fds :: "prefork \<Rightarrow> int list" where "pipe_fds st = map child_pipefd (cptr st)"

definition busy_fds :: "Child list \<Rightarrow> int multiset" where
  "busy_fds cs = mset (map child_pipefd (filter (\<lambda>c. child_status c \<noteq> 0) cs))"

definition idle :: "Child list \<Rightarrow> nat" where
  "idle cs = length (filter (\<lambda>c. child_status c = 0) cs)"

lemma idle_busy: "idle cs + size (busy_fds cs) = length cs"
  by (simp only: idle_def busy_fds_def size_mset length_map sum_length_filter_compl)

lemma table_busy:
  assumes "i < length cs" "child_status (cs ! i) = 0" "child_pipefd c = child_pipefd (cs ! i)" "child_status c \<noteq> 0"
  shows "busy_fds (cs[i := c]) = add_mset (child_pipefd (cs ! i)) (busy_fds cs)" "idle cs = Suc (idle (cs[i := c]))"
proof -
  show b: "busy_fds (cs[i := c]) = add_mset (child_pipefd (cs ! i)) (busy_fds cs)"
  proof -
    obtain xs ys where cs: "cs = xs @ cs ! i # ys" "length xs = i"
      using id_take_nth_drop [OF assms(1)] assms(1) by (metis length_take less_imp_le_nat min.absorb2)
    have "cs[i := c] = xs @ c # ys" by (subst cs(1)) (simp add: cs(2) [symmetric])
    moreover have "busy_fds cs = busy_fds (xs @ cs ! i # ys)" using cs(1) by simp
    ultimately show ?thesis using assms by (simp add: busy_fds_def)
  qed
  show "idle cs = Suc (idle (cs[i := c]))"
    using idle_busy [of cs] idle_busy [of "cs[i := c]"] b by simp
qed

lemma table_idle:
  assumes "i < length cs" "child_status (cs ! i) \<noteq> 0" "child_pipefd c = child_pipefd (cs ! i)" "child_status c = 0"
  shows "busy_fds (cs[i := c]) = busy_fds cs - {#child_pipefd (cs ! i)#}" "idle (cs[i := c]) = Suc (idle cs)"
proof -
  have "busy_fds (cs[i := c, i := cs ! i]) = add_mset (child_pipefd ((cs[i := c]) ! i)) (busy_fds (cs[i := c]))"
    by (rule table_busy(1)) (use assms in simp_all)
  then show b: "busy_fds (cs[i := c]) = busy_fds cs - {#child_pipefd (cs ! i)#}" using assms(1,3) by simp
  have "idle (cs[i := c]) = Suc (idle (cs[i := c, i := cs ! i]))"
    by (rule table_busy(2)) (use assms in simp_all)
  then show "idle (cs[i := c]) = Suc (idle cs)" using assms(1) by simp
qed

lemma find_available:
  assumes "0 < idle cs"
  shows "find_available cs < length cs" "child_status (cs ! find_available cs) = 0"
proof -
  have "\<exists>c \<in> set cs. child_status c = 0" using assms by (auto simp: idle_def filter_empty_conv)
  then obtain xs c ys where "cs = xs @ c # ys" "child_status c = 0" "\<forall>c \<in> set xs. child_status c \<noteq> 0"
    by (rule split_list_first_propE) auto
  then show "find_available cs < length cs" "child_status (cs ! find_available cs) = 0"
    by (simp_all add: find_available_def)
qed

lemma busy_mem:
  assumes "distinct (map child_pipefd cs)" "i < length cs"
  shows "child_pipefd (cs ! i) \<in># busy_fds cs \<longleftrightarrow> child_status (cs ! i) \<noteq> 0"
proof -
  have "child_pipefd (cs ! i) \<in># busy_fds cs \<longleftrightarrow> (\<exists>c \<in> set cs. child_status c \<noteq> 0 \<and> child_pipefd c = child_pipefd (cs ! i))"
    by (auto simp: busy_fds_def intro: rev_image_eqI)
  also have "\<dots> \<longleftrightarrow> child_status (cs ! i) \<noteq> 0"
    using assms by (metis distinct_conv_nth in_set_conv_nth length_map nth_map)
  finally show ?thesis .
qed

definition table_ok :: "int \<Rightarrow> nat \<Rightarrow> prefork \<Rightarrow> bool" where
  "table_ok l n st \<longleftrightarrow> length (cptr st) = n \<and> distinct (l # pipe_fds st) \<and>
     set (masterset st) = insert l (set (pipe_fds st))"

definition prefork_inv :: "int \<Rightarrow> nat \<Rightarrow> prefork \<Rightarrow> world \<Rightarrow> bool" where
  "prefork_inv l n st w \<longleftrightarrow> table_ok l n st \<and>
     (honest05 n w \<longrightarrow> navail st = int (idle (cptr st)) \<and> fst (pipes.total n w) = busy_fds (cptr st) \<and> careful05 n w)"

lemma set_child_ok:
  assumes "table_ok l n st" "i < length (cptr st)" "child_pipefd c = child_pipefd (cptr st ! i)"
  shows "table_ok l n (set_child i c (st\<lparr>navail := k\<rparr>))"
proof -
  have "map child_pipefd ((cptr st)[i := c]) = map child_pipefd (cptr st)"
    using assms(2,3) by (metis list_update_id map_update nth_map)
  then show ?thesis using assms(1) by (simp add: table_ok_def set_child_def pipe_fds_def)
qed

lemma set_child_sel [simp]:
  "cptr (set_child i c st) = (cptr st)[i := c]" "navail (set_child i c st) = navail st"
  by (simp_all add: set_child_def)

abbreviation still_careful :: "nat \<Rightarrow> world \<Rightarrow> bool" where
  "still_careful n w \<equiv> honest05 n w \<longrightarrow> careful05 n w"

lemma wp_hand_over:
  assumes inv: "prefork_inv l n st w" and avail: "0 < navail st"
  shows "wp (hand_over l st) (ends (prefork_inv l n) (still_careful n)) w"
proof -
  obtain B h g where t: "pipes.total n w = (B, h, g)" by (cases "pipes.total n w") auto
  have ok: "table_ok l n st" using inv by (simp add: prefork_inv_def)
  then have len: "length (cptr st) = n" and dist: "distinct (map child_pipefd (cptr st))"
    by (simp_all add: table_ok_def pipe_fds_def)
  have hon: "0 < idle (cptr st)" "navail st = int (idle (cptr st))" "B = busy_fds (cptr st)" "g" "size B < n" if h
    using inv avail idle_busy [of "cptr st"] len that by (auto simp: prefork_inv_def t)
  let ?i = "find_available (cptr st)"
  let ?c = "cptr st ! ?i"
  let ?st = "set_child ?i (?c\<lparr>child_status := 1, child_count := child_count ?c + 1\<rparr>) (st\<lparr>navail := navail st - 1\<rparr>)"
  have pass: "prefork_inv l n ?st w2"
    if "pipes.total n w2 = (add_mset (child_pipefd ?c) B, h, g' \<and> child_pipefd ?c \<notin># B)" "?i < length (cptr st)" "h \<Longrightarrow> g'"
    for w2 g'
    using that(1,3) hon find_available [of "cptr st"] set_child_ok [OF ok that(2)] busy_mem [OF dist that(2)]
      table_busy [OF that(2), of "?c\<lparr>child_status := 1, child_count := child_count ?c + 1\<rparr>"]
    by (auto simp: prefork_inv_def)
  have care: "h \<longrightarrow> child_pipefd ?c \<notin># B" if "?i < length (cptr st)"
    using hon find_available(2) [of "cptr st"] busy_mem [OF dist that] by auto
  have le: "?i \<noteq> length (cptr st) \<Longrightarrow> ?i < length (cptr st)"
    unfolding find_available_def by (simp add: le_neq_implies_less length_takeWhile_le)
  show ?thesis
    unfolding hand_over_def Let_def wp_bind [of "Accept l"]
  proof (rule wp_conseq [OF Accept_pipes [OF t]], elim exE conjE)
    fix r :: "sysret res" and w1 g'
    assume r: "r \<noteq> Undef" and t1: "pipes.total n w1 = (B, h, g')" and g': "g \<and> size B < n \<longrightarrow> g'"
    have g: "h \<Longrightarrow> g'" using g' hon by simp
    show "on_val (\<lambda>a. wp (if ?i = length (cptr st) then err_quit ''no available children''
        else bind (Write_fd (child_pipefd ?c) nul (r_val a)) (\<lambda>n. seq (Close (r_val a)) (ret ?st)))
        (ends (prefork_inv l n) (still_careful n))) (ends (prefork_inv l n) (still_careful n)) r w1"
      using r t1 g pass care le
      by (cases r) (auto simp: Write_fd_def write_fd_def Close_def split: list.split)
  qed
qed

lemma wp_child_ready:
  assumes inv: "prefork_inv l n st w" and i: "i < n"
  shows "wp (child_ready rset i (st, nsel)) (ends (\<lambda>v w'. case v of Inl s \<Rightarrow> prefork_inv l n (fst s) w'
    | Inr st' \<Rightarrow> prefork_inv l n st' w') (still_careful n)) w"
proof -
  obtain B h g where t: "pipes.total n w = (B, h, g)" by (cases "pipes.total n w") auto
  have ok: "table_ok l n st" using inv by (simp add: prefork_inv_def)
  then have i: "i < length (cptr st)" and dist: "distinct (map child_pipefd (cptr st))"
    using i by (simp_all add: table_ok_def pipe_fds_def)
  let ?c = "cptr st ! i"
  let ?st = "set_child i (?c\<lparr>child_status := 0\<rparr>) (st\<lparr>navail := navail st + 1\<rparr>)"
  have answered: "prefork_inv l n ?st w2"
    if "pipes.total n w2 = (B - {#child_pipefd ?c#}, h \<and> child_pipefd ?c \<in># B, g)" for w2
    using that inv t set_child_ok [OF ok i] busy_mem [OF dist i] table_idle [OF i, of "?c\<lparr>child_status := 0\<rparr>"]
    by (auto simp: prefork_inv_def)
  have care: "h \<Longrightarrow> g" using inv by (simp add: prefork_inv_def t)
  show ?thesis
    using inv t answered care
    by (auto simp: child_ready_def Read_def Let_def again_def stop_def fits_read_def split: list.split)
qed

lemma wp_children:
  assumes inv: "prefork_inv l n st w"
  shows "wp (bind (for_each [0..<n] (child_ready rset) (st, nsel)) (\<lambda>v. case v of Inl (st, _) \<Rightarrow> again st | Inr st \<Rightarrow> again st))
    (ends (\<lambda>v w'. \<exists>st'. v = Inl st' \<and> prefork_inv l n st' w') (still_careful n)) w"
proof (rule ends_bind)
  show "wp (for_each [0..<n] (child_ready rset) (st, nsel)) (ends (\<lambda>v w'. case v of
      Inl s \<Rightarrow> prefork_inv l n (fst s) w' | Inr st' \<Rightarrow> prefork_inv l n st' w') (still_careful n)) w"
  proof (rule ends_for_each)
    fix i and s :: "prefork \<times> int" and w1
    assume "i \<in> set [0..<n]" "prefork_inv l n (fst s) w1"
    then show "wp (child_ready rset i s) (ends (\<lambda>v w'. case v of
        Inl s \<Rightarrow> prefork_inv l n (fst s) w' | Inr st' \<Rightarrow> prefork_inv l n st' w') (still_careful n)) w1"
      using wp_child_ready [of l n "fst s" w1 i rset "snd s"] by simp
  qed (simp add: inv)
qed (auto simp: again_def split: sum.splits)

lemma wp_serv05_body:
  assumes inv: "prefork_inv l n st w"
  shows "wp (serv05_body l st) (ends (\<lambda>v w'. \<exists>st'. v = Inl st' \<and> prefork_inv l n st' w') (still_careful n)) w"
proof -
  let ?ask = "if navail st \<le> 0 then removeAll l (masterset st) else masterset st"
  have select: "wp (Select (maxfd st + 1) ?ask [] None) (ends (\<lambda>r w'. prefork_inv l n st w' \<and>
      set (r_rset r) \<subseteq> set ?ask) (still_careful n)) w"
    using inv by (auto simp: Select_def fits_select_def prefork_inv_def split: list.split)
  show ?thesis
    unfolding serv05_body_def Let_def
  proof (rule ends_bind [OF select], elim conjE)
    fix r w1
    assume inv1: "prefork_inv l n st w1" and asked: "set (r_rset r) \<subseteq> set ?ask"
    have conn: "wp (if l \<in> set (r_rset r) then bind (hand_over l st) (\<lambda>st. ret (st, r_val r - 1)) else ret (st, r_val r))
        (ends (\<lambda>s. prefork_inv l n (fst s)) (still_careful n)) w1"
    proof (cases "l \<in> set (r_rset r)")
      case True
      then have "0 < navail st" using asked by (auto split: if_splits)
      then have "wp (bind (hand_over l st) (\<lambda>st. ret (st, r_val r - 1))) (ends (\<lambda>s. prefork_inv l n (fst s)) (still_careful n)) w1"
        by (intro ends_bind [OF wp_hand_over [OF inv1]]) simp_all
      then show ?thesis using True by simp
    qed (use inv1 in simp)
    show "wp (bind (if l \<in> set (r_rset r) then bind (hand_over l st) (\<lambda>st. ret (st, r_val r - 1)) else ret (st, r_val r))
        (\<lambda>(st, nsel). if l \<in> set (r_rset r) \<and> nsel = 0 then again st
          else bind (for_each [0..<length (cptr st)] (child_ready (r_rset r)) (st, nsel))
            (\<lambda>v. case v of Inl (st, _) \<Rightarrow> again st | Inr st \<Rightarrow> again st)))
        (ends (\<lambda>v w'. \<exists>st'. v = Inl st' \<and> prefork_inv l n st' w') (still_careful n)) w1"
    proof (rule ends_bind [OF conn])
      fix s :: "prefork \<times> int" and w2
      assume "prefork_inv l n (fst s) w2"
      then obtain st2 nsel where s: "s = (st2, nsel)" and inv2: "prefork_inv l n st2 w2" by (cases s) simp
      have len: "length (cptr st2) = n" using inv2 by (simp add: prefork_inv_def table_ok_def)
      from wp_children [OF inv2]
      show "wp (case s of (st, nsel) \<Rightarrow> if l \<in> set (r_rset r) \<and> nsel = 0 then again st
          else bind (for_each [0..<length (cptr st)] (child_ready (r_rset r)) (st, nsel))
            (\<lambda>v. case v of Inl (st, _) \<Rightarrow> again st | Inr st \<Rightarrow> again st))
          (ends (\<lambda>v w'. \<exists>st'. v = Inl st' \<and> prefork_inv l n st' w') (still_careful n)) w2"
        using inv2 unfolding s len prod.case by (intro wp_ifI) (simp_all add: again_def [of st2])
    qed
  qed
qed

lemma wp_serv05_loop:
  assumes "prefork_inv l n st w"
  shows "wp (loop (serv05_body l) st) (ends (\<lambda>_ _. False) (still_careful n)) w"
proof (rule serv05.wp_loop [where I = "prefork_inv l n"])
  fix s w1 assume "prefork_inv l n s w1"
  then show "wp (serv05_body l s) (body_post (prefork_inv l n) (ends (\<lambda>_ _. False) (still_careful n))) w1"
    by (intro wp_conseq [OF wp_serv05_body]) (auto simp: ends_def body_post_def split: res.splits)
qed (rule assms)

subsection \<open>The children are made\<close>

lemma yields_seq_undef: "(\<And>w. wp n (yields Q) w) \<Longrightarrow> wp (seq m n) (yields Q) w"
  unfolding wp_seq by (cases "m w") (auto simp: wp_def on_val_def split: res.splits)

definition made_so_far :: "int \<Rightarrow> nat \<Rightarrow> nat \<Rightarrow> prefork \<Rightarrow> world \<Rightarrow> bool" where
  "made_so_far l n k st w \<longleftrightarrow> length (cptr st) = n \<and> k \<le> n \<and> list_all (\<lambda>c. child_status c = 0) (cptr st) \<and> navail st = int n \<and>
     masterset st = l # map child_pipefd (take k (cptr st)) \<and> pipes.total n w = ({#}, True, True)"

lemma wp_child05_make:
  assumes "made_so_far l n k st w" "k < n"
  shows "wp (bind (child05_make result l k st) (\<lambda>st. watch (child_pipefd (cptr st ! k)) st)) (yields (made_so_far l n (Suc k))) w"
proof -
  have len: "k < length (cptr st)" using assms by (simp add: made_so_far_def)
  have never: "wp (seq (Dup2 fd1 STDERR_FILENO) (seq (Close fd0) (seq (Close fd1) (seq (Close l) (seq (child05_main result) undef)))))
      (yields Q) w'" for fd0 fd1 w' and Q :: "prefork \<Rightarrow> world \<Rightarrow> bool"
    by (intro yields_seq_undef) simp
  have made: "made_so_far l n (Suc k) (set_child k ((cptr st ! k)\<lparr>child_pid := pid, child_pipefd := fd0, child_status := 0\<rparr>) st
      \<lparr>masterset := masterset st @ [fd0], maxfd := m\<rparr>) w'" if "pipes.total n w' = ({#}, True, True)" for pid fd0 m w'
    using assms that
    by (auto simp: made_so_far_def set_child_def take_Suc_conv_app_nth list_all_length nth_list_update)
  have "wp (child05_make result l k st) (yields (\<lambda>st' w'. \<exists>pid fd0. pipes.total n w' = ({#}, True, True) \<and>
      st' = set_child k ((cptr st ! k)\<lparr>child_pid := pid, child_pipefd := fd0, child_status := 0\<rparr>) st)) w"
    unfolding child05_make_def
  proof (rule yields_bind)
    show "wp (Socketpair AF_UNIX SOCK_STREAM 0) (yields (\<lambda>_ w'. pipes.total n w' = ({#}, True, True))) w"
      using assms by (auto simp: Socketpair_def made_so_far_def split: list.split)
  next
    fix p :: "int \<times> int" and w1
    assume t: "pipes.total n w1 = ({#}, True, True)"
    obtain fd0 fd1 where p: "p = (fd0, fd1)" by (cases p)
    show "wp (case p of (fd0, fd1) \<Rightarrow> bind Fork (\<lambda>pid. if 0 < pid then seq (Close fd1)
          (ret (set_child k ((cptr st ! k)\<lparr>child_pid := pid, child_pipefd := fd0, child_status := 0\<rparr>) st))
        else seq (Dup2 fd1 STDERR_FILENO) (seq (Close fd0) (seq (Close fd1) (seq (Close l) (seq (child05_main result) undef))))))
        (yields (\<lambda>st' w'. \<exists>pid fd0. pipes.total n w' = ({#}, True, True) \<and>
          st' = set_child k ((cptr st ! k)\<lparr>child_pid := pid, child_pipefd := fd0, child_status := 0\<rparr>) st)) w1"
      unfolding p prod.case
    proof (rule yields_bind)
      show "wp Fork (yields (\<lambda>_ w'. pipes.total n w' = ({#}, True, True))) w1"
        using t by (auto simp: Fork_def split: list.split)
    next
      fix pid w2
      assume t2: "pipes.total n w2 = ({#}, True, True)"
      let ?c = "(cptr st ! k)\<lparr>child_pid := pid, child_pipefd := fd0, child_status := 0\<rparr>"
      have "wp (seq (Close fd1) (ret (set_child k ?c st))) (yields (\<lambda>st' w'. \<exists>pid fd0. pipes.total n w' = ({#}, True, True) \<and>
          st' = set_child k ((cptr st ! k)\<lparr>child_pid := pid, child_pipefd := fd0, child_status := 0\<rparr>) st)) w2"
        using t2 by (auto simp: Close_def split: list.split)
      then show "wp (if 0 < pid then seq (Close fd1) (ret (set_child k ?c st))
          else seq (Dup2 fd1 STDERR_FILENO) (seq (Close fd0) (seq (Close fd1) (seq (Close l) (seq (child05_main result) undef)))))
          (yields (\<lambda>st' w'. \<exists>pid fd0. pipes.total n w' = ({#}, True, True) \<and>
            st' = set_child k ((cptr st ! k)\<lparr>child_pid := pid, child_pipefd := fd0, child_status := 0\<rparr>) st)) w2"
        by (rule wp_ifI) (rule never)
    qed
  qed
  then show ?thesis
    by (rule yields_bind) (use len in \<open>auto simp: watch_def set_child_def intro!: made [unfolded set_child_def, simplified]\<close>)
qed

lemma wp_prefork_all:
  "made_so_far l n k st w \<Longrightarrow> wp (prefork_all result l [k..<n] st) (yields (made_so_far l n n)) w"
proof (induction "n - k" arbitrary: k st w)
  case 0
  then have "k = n" by (simp add: made_so_far_def)
  then show ?case using 0 by simp
next
  case (Suc m)
  then have k: "k < n" by simp
  have "wp (bind (bind (child05_make result l k st) (\<lambda>st. watch (child_pipefd (cptr st ! k)) st))
      (prefork_all result l [Suc k..<n])) (yields (made_so_far l n n)) w"
    using Suc.hyps by (intro yields_bind [OF wp_child05_make [OF Suc.prems k]]) simp
  then show ?case using k by (simp add: upt_conv_Cons bind_assoc del: upt_Suc)
qed

lemma made_all: "made_so_far l n n st w \<Longrightarrow> distinct (l # pipe_fds st) \<Longrightarrow> prefork_inv l n st w"
  by (auto simp: made_so_far_def prefork_inv_def table_ok_def pipe_fds_def idle_def busy_fds_def list_all_iff
      filter_id_conv filter_empty_conv)

lemma wp_serv05_init: "wp (serv05_init result l alen (int n)) (yields (made_so_far l n n)) (start rs)"
proof -
  have made: "made_so_far l n 0 \<lparr>cptr = replicate n no_child, navail = int n, masterset = [l], maxfd = m\<rparr> w"
    if "pipes.total n w = ({#}, True, True)" for w m
    using that by (simp add: made_so_far_def no_child_def list_all_iff)
  have ready: "wp (bind (prefork_all result l [0..<n] \<lparr>cptr = replicate n no_child, navail = int n, masterset = [l], maxfd = m\<rparr>)
      (\<lambda>st. seq (Signal SIGINT ''sig_int'') (ret st))) (yields (made_so_far l n n)) w"
    if "pipes.total n w = ({#}, True, True)" for w m
  proof (rule yields_bind [OF wp_prefork_all [OF made [OF that]]])
    fix st w1 assume "made_so_far l n n st w1"
    then show "wp (seq (Signal SIGINT ''sig_int'') (ret st)) (yields (made_so_far l n n)) w1"
      by (auto simp: Signal_def signal_def made_so_far_def split: list.split)
  qed
  show ?thesis
    using ready by (auto simp: serv05_init_def watch_def Malloc_def Calloc_def pipes.total_start split: list.split)
qed

subsection \<open>The child answers\<close>

text \<open>
  From the child's side: the messages received from the parent and the bytes written back, as
  long as no descriptor was received with the number of the pipe itself (\<open>fresh\<close>: the system does
  not give out a number that is in use).
\<close>

definition answer_step :: "nat \<times> nat \<Rightarrow> syscall \<times> sysret \<Rightarrow> nat \<times> nat" where
  "answer_step = (\<lambda>(got, told) e.
     case e of
       (SysRecvmsg fd k fl, r) \<Rightarrow> if fd = STDERR_FILENO \<and> 0 < r_val r then (got + 1, told) else (got, told)
     | (SysWrite fd s, r) \<Rightarrow> if fd = STDERR_FILENO \<and> 0 < r_val r then (got, told + 1) else (got, told)
     | _ \<Rightarrow> (got, told))"

definition fresh_step :: "bool \<Rightarrow> syscall \<times> sysret \<Rightarrow> bool" where
  "fresh_step f e =
     (case e of
        (SysRecvmsg fd k fl, r) \<Rightarrow> f \<and> (case r_rset r of [a, b, c, p] \<Rightarrow> p \<noteq> STDERR_FILENO | _ \<Rightarrow> True)
      | _ \<Rightarrow> f)"

definition answers :: "(syscall \<times> sysret) list \<Rightarrow> nat \<times> nat" where
  "answers log = foldl answer_step (0, 0) log"

definition fresh :: "(syscall \<times> sysret) list \<Rightarrow> bool" where
  "fresh log \<longleftrightarrow> foldl fresh_step True log"

lemma child_steps [simp]:
  "answer_step (g, t) (SysRecvmsg fd k fl, r) = (if fd = STDERR_FILENO \<and> 0 < r_val r then (g + 1, t) else (g, t))"
  "answer_step (g, t) (SysWrite fd x, r) = (if fd = STDERR_FILENO \<and> 0 < r_val r then (g, t + 1) else (g, t))"
  "answer_step s (SysPut fd x, r) = s" "answer_step s (SysClose fd, r) = s" "answer_step s (SysOther nm is ss, r) = s"
  "answer_step s (SysRead fd n, r) = s"
  "fresh_step f (SysRecvmsg fd k fl, r) \<longleftrightarrow> f \<and> (case r_rset r of [a, b, c, p] \<Rightarrow> p \<noteq> STDERR_FILENO | _ \<Rightarrow> True)"
  "fresh_step f (SysPut fd x, r) \<longleftrightarrow> f" "fresh_step f (SysClose fd, r) \<longleftrightarrow> f" "fresh_step f (SysOther nm is ss, r) \<longleftrightarrow> f"
  "fresh_step f (SysRead fd n, r) \<longleftrightarrow> f" "fresh_step f (SysWrite fd x, r) \<longleftrightarrow> f"
  by (simp_all add: answer_step_def fresh_step_def split: prod.split)

interpretation ans: tally answer_step "(0, 0)"
  by unfold_locales simp_all

interpretation frs: tally fresh_step True
  by unfold_locales simp_all

lemma child_totals: "ans.total w = answers (trace w)" "frs.total w = fresh (trace w)"
  by (simp_all add: ans.total_def frs.total_def answers_def fresh_def)

text \<open>What holds whenever the child stops: it has not answered more than it has got.\<close>

abbreviation answered :: "world \<Rightarrow> bool" where
  "answered w \<equiv> frs.total w \<longrightarrow> snd (ans.total w) \<le> fst (ans.total w)"

lemma wp_answer:
  assumes st: "rl_ok st" and len: "MAXN \<le> length result" and got: "frs.total w \<Longrightarrow> ans.total w = (Suc k, k) \<and> fd \<noteq> STDERR_FILENO"
  shows "wp (bind (web_child fd result st) (\<lambda>st. seq (Close fd) (seq (Write STDERR_FILENO nul) (again st))))
    (ends (\<lambda>v w'. \<exists>st'. v = Inl st' \<and> rl_ok st' \<and> (frs.total w' \<longrightarrow> ans.total w' = (Suc k, Suc k))) answered) w"
proof (rule ends_bind)
  have frs: "frs.quiet (web_child fd result st)" by (rule frs.quiet_web_child) simp_all
  have ans: "ans.quiet (web_child fd result st)" if "fd \<noteq> STDERR_FILENO"
    using that by (intro ans.quiet_web_child) auto
  show "wp (web_child fd result st) (ends (\<lambda>st' w'. rl_ok st' \<and> (frs.total w' \<longrightarrow> ans.total w' = (Suc k, k))) answered) w"
    using lib_reader.wp_web_loop [OF st len, where w = w and fd = fd] frs.quiet_wp [OF frs, of w] ans.quiet_wp [OF ans, of w] got
    by (auto simp: wp_def web_post_def web_child_def ends_def split: prod.splits res.splits)
next
  fix st' w1
  assume "rl_ok st' \<and> (frs.total w1 \<longrightarrow> ans.total w1 = (Suc k, k))"
  then show "wp (seq (Close fd) (seq (Write STDERR_FILENO nul) (again st')))
      (ends (\<lambda>v w'. \<exists>st'. v = Inl st' \<and> rl_ok st' \<and> (frs.total w' \<longrightarrow> ans.total w' = (Suc k, Suc k))) answered) w1"
    by (auto simp: Close_def Write_def again_def nul_def fits_write_def split: list.split)
qed

lemma wp_Read_fd05:
  assumes "frs.total w \<Longrightarrow> ans.total w = (k, k)"
  shows "wp (Read_fd STDERR_FILENO 1) (ends (\<lambda>a w'. case snd (snd a) of
      None \<Rightarrow> fst a = 0 \<and> (frs.total w' \<longrightarrow> ans.total w' = (k, k))
    | Some fd \<Rightarrow> frs.total w' \<longrightarrow> ans.total w' = (Suc k, k) \<and> fd \<noteq> STDERR_FILENO) answered) w"
  using assms
  by (auto simp: Read_fd_def Connect.read_fd_def STDERR_FILENO_def split: list.split)

lemma wp_child05_body:
  assumes "rl_ok st" "MAXN \<le> length result" "frs.total w \<Longrightarrow> ans.total w = (k, k)"
  shows "wp (child05_body result st)
    (ends (\<lambda>v w'. \<exists>st'. v = Inl st' \<and> rl_ok st' \<and> (frs.total w' \<longrightarrow> ans.total w' = (Suc k, Suc k))) answered) w"
  unfolding child05_body_def
proof (rule ends_bind [OF wp_Read_fd05 [OF assms(3)]])
  fix a :: "int \<times> string \<times> int option" and w1
  assume post: "case snd (snd a) of None \<Rightarrow> fst a = 0 \<and> (frs.total w1 \<longrightarrow> ans.total w1 = (k, k))
    | Some fd \<Rightarrow> frs.total w1 \<longrightarrow> ans.total w1 = (Suc k, k) \<and> fd \<noteq> STDERR_FILENO"
  obtain n c passed where a: "a = (n, c, passed)" by (cases a)
  have quits: "wp (err_quit msg) (ends Q answered) w1" for msg and Q :: "rline + unit \<Rightarrow> world \<Rightarrow> bool"
    using post by (auto simp: a split: option.split_asm)
  show "wp (case a of (n, c, passed) \<Rightarrow> if n = 0 then err_quit ''read_fd returned 0''
      else case passed of None \<Rightarrow> undef :: (rline + unit) io | Some connfd \<Rightarrow>
        if connfd < 0 then err_quit ''no descriptor from read_fd''
        else bind (web_child connfd result st) (\<lambda>st. seq (Close connfd) (seq (Write STDERR_FILENO nul) (again st))))
      (ends (\<lambda>v w'. \<exists>st'. v = Inl st' \<and> rl_ok st' \<and> (frs.total w' \<longrightarrow> ans.total w' = (Suc k, Suc k))) answered) w1"
  proof (cases passed)
    case None
    then show ?thesis using post quits by (simp add: a)
  next
    case (Some fd)
    have "wp (bind (web_child fd result st) (\<lambda>st. seq (Close fd) (seq (Write STDERR_FILENO nul) (again st :: (rline + unit) io))))
        (ends (\<lambda>v w'. \<exists>st'. v = Inl st' \<and> rl_ok st' \<and> (frs.total w' \<longrightarrow> ans.total w' = (Suc k, Suc k))) answered) w1"
      using post by (intro wp_answer [OF assms(1,2)]) (simp add: a Some)
    then show ?thesis unfolding a Some prod.case option.case by (intro wp_ifI quits)
  qed
qed

lemma wp_child05_main:
  assumes "MAXN \<le> length result"
  shows "wp (child05_main result) (ends (\<lambda>_ _. False) answered) (start rs)"
proof -
  have "wp (loop (child05_body result) rl_init) (ends (\<lambda>_ _. False) answered) w"
    if "ans.total w = (0, 0)" for w
  proof (rule child05.wp_loop [where I = "\<lambda>st w. rl_ok st \<and> (\<exists>k. frs.total w \<longrightarrow> ans.total w = (k, k))"])
    fix st w1
    assume "rl_ok st \<and> (\<exists>k. frs.total w1 \<longrightarrow> ans.total w1 = (k, k))"
    then obtain k where "rl_ok st" "frs.total w1 \<longrightarrow> ans.total w1 = (k, k)" by blast
    then have "wp (child05_body result st)
        (ends (\<lambda>v w'. \<exists>st'. v = Inl st' \<and> rl_ok st' \<and> (frs.total w' \<longrightarrow> ans.total w' = (Suc k, Suc k))) answered) w1"
      by (intro wp_child05_body assms) simp_all
    then show "wp (child05_body result st) (body_post (\<lambda>st w. rl_ok st \<and> (\<exists>k. frs.total w \<longrightarrow> ans.total w = (k, k)))
        (ends (\<lambda>_ _. False) answered)) w1"
      by (rule wp_conseq) (auto simp: ends_def body_post_def split: res.splits)
  qed (use that in \<open>simp add: rl_ok_def rl_init_def\<close>)
  then have "wp (bind (loop (child05_body result) rl_init) ret) (ends (\<lambda>_ _. False) answered) w"
    if "ans.total w = (0, 0)" for w
    by (rule ends_bind [OF _ FalseE]) (use that in simp_all)
  then show ?thesis
    by (auto simp: child05_main_def ans.total_start split: list.split)
qed

subsection \<open>Both sides of the pipes\<close>

definition reads :: "int \<Rightarrow> (syscall \<times> sysret) list \<Rightarrow> nat" where
  \<comment> \<open>the bytes the parent has read from pipe \<open>p\<close>\<close>
  "reads p log = length (filter (\<lambda>e. case e of (SysRead fd k, r) \<Rightarrow> fd = p \<and> 0 < r_val r | _ \<Rightarrow> False) log)"

definition sends :: "int \<Rightarrow> (syscall \<times> sysret) list \<Rightarrow> nat" where
  \<comment> \<open>the descriptors the parent has passed over pipe \<open>p\<close>\<close>
  "sends p log = length (filter (\<lambda>e. case e of
     (SysOther nm is ss, r) \<Rightarrow> nm = ''sendmsg'' \<and> is \<noteq> [] \<and> hd is = p \<and> 0 \<le> r_val r | _ \<Rightarrow> False) log)"

definition child_log :: "(syscall \<times> sysret) list \<Rightarrow> bool" where
  \<comment> \<open>what some run of child05.c has done up to some point\<close>
  "child_log c \<longleftrightarrow> (\<exists>result rs. MAXN \<le> length result \<and> trace (snd (child05_main result (start rs))) = c)"

text \<open>
  Every pipe of the parent has a child at its other end, at every moment: the parent has read
  no more bytes than this child has written, and the child has received no more messages than
  the parent has sent.
\<close>

definition served_by_children :: "(syscall \<times> sysret) list \<Rightarrow> bool" where
  "served_by_children log \<longleftrightarrow> (\<forall>k p. \<exists>c. child_log c \<and> fresh c \<and>
     reads p (take k log) \<le> snd (answers c) \<and> fst (answers c) \<le> sends p (take k log))"

lemma child_log_answers: "child_log c \<Longrightarrow> fresh c \<Longrightarrow> snd (answers c) \<le> fst (answers c)"
proof -
  assume "child_log c" "fresh c"
  then obtain result rs where run: "MAXN \<le> length result" "trace (snd (child05_main result (start rs))) = c"
    by (auto simp: child_log_def)
  show ?thesis
    using wp_child05_main [OF run(1), of rs] run(2) \<open>fresh c\<close>
    by (auto simp: wp_def ends_def child_totals split: prod.splits res.splits)
qed

lemma pipe_step_cases:
  "reads p (log @ [e]) = reads p log + (case e of (SysRead fd k, r) \<Rightarrow> if fd = p \<and> 0 < r_val r then 1 else 0 | _ \<Rightarrow> 0)"
  "sends p (log @ [e]) = sends p log + (case e of (SysOther nm is ss, r) \<Rightarrow>
     if nm = ''sendmsg'' \<and> is \<noteq> [] \<and> hd is = p \<and> 0 \<le> r_val r then 1 else 0 | _ \<Rightarrow> 0)"
  by (auto simp: reads_def sends_def split: prod.split syscall.split)

lemma honest_reads:
  assumes "\<And>k p. reads p (take k log) \<le> sends p (take k log)"
  shows "\<exists>B g. foldl (pipe_step n) ({#}, True, True) log = (B, True, g) \<and> (\<forall>p. count B p + reads p log = sends p log)"
  using assms
proof (induction log rule: rev_induct)
  case Nil
  show ?case by (rule exI [of _ "{#}"], rule exI [of _ True]) (simp add: reads_def sends_def)
next
  case (snoc e log)
  have "reads p (take k log) \<le> sends p (take k log)" for k p
    using snoc.prems [of p "min k (length log)"] by (simp add: min_def split: if_splits)
  from snoc.IH [OF this] obtain B g where B: "foldl (pipe_step n) ({#}, True, True) log = (B, True, g)"
    and count: "\<And>p. count B p + reads p log = sends p log" by blast
  have le: "reads p (log @ [e]) \<le> sends p (log @ [e])" for p
    using snoc.prems [of p "Suc (length log)"] by simp
  have "\<exists>B' g'. pipe_step n (B, True, g) e = (B', True, g') \<and>
      (\<forall>p. count B' p + reads p (log @ [e]) = sends p (log @ [e]))"
  proof (cases "\<exists>fd k r. e = (SysRead fd k, r) \<and> 0 < r_val r")
    case True
    then obtain fd k r where e: "e = (SysRead fd k, r)" "0 < r_val r" by blast
    have steps: "reads p (log @ [e]) = reads p log + (if fd = p then 1 else 0)" "sends p (log @ [e]) = sends p log" for p
      using e(2) by (simp_all add: pipe_step_cases e(1))
    have "0 < count B fd" using le [of fd] count [of fd] by (simp add: steps del: count_greater_zero_iff)
    then have "fd \<in># B" by simp
    moreover have "count (B - {#fd#}) p + reads p (log @ [e]) = sends p (log @ [e])" for p
      using count [of p] \<open>0 < count B fd\<close> by (cases "fd = p") (simp_all add: steps del: count_greater_zero_iff)
    ultimately show ?thesis using e(2) by (simp add: e(1))
  next
    case False
    show ?thesis
    proof (cases "\<exists>p is ss r. e = (SysOther ''sendmsg'' (p # is) ss, r) \<and> 0 \<le> r_val r")
      case True
      then obtain q "is" ss r where e: "e = (SysOther ''sendmsg'' (q # is) ss, r)" "0 \<le> r_val r" by blast
      have "reads p (log @ [e]) = reads p log" "sends p (log @ [e]) = sends p log + (if q = p then 1 else 0)" for p
        using e(2) by (simp_all add: pipe_step_cases e(1))
      then show ?thesis using e(2) count by (simp add: e(1))
    next
      case idle: False
      have "reads p (log @ [e]) = reads p log" "sends p (log @ [e]) = sends p log" for p
        using False idle by (auto simp: pipe_step_cases neq_Nil_conv split: prod.split syscall.split)
      moreover have "\<exists>g'. pipe_step n (B, True, g) e = (B, True, g')"
        using False idle by (auto simp: pipe_step_def neq_Nil_conv split: prod.split syscall.split)
      ultimately show ?thesis using count by auto
    qed
  qed
  then show ?case by (simp add: B)
qed

lemma served_honest: "served_by_children (trace w) \<Longrightarrow> honest05 n w"
proof -
  assume served: "served_by_children (trace w)"
  have "reads p (take k (trace w)) \<le> sends p (take k (trace w))" for k p
    using served child_log_answers unfolding served_by_children_def by (meson order_trans)
  from honest_reads [OF this, of n] show ?thesis by (auto simp: pipes.total_def)
qed

subsection \<open>A run\<close>

definition run05 :: "sysret list" where
  \<comment> \<open>one child, one connection, one answer\<close>
  "run05 = [ok 1, ok 1, (ok 0)\<lparr>r_rset := [4, 5]\<rparr>, ok 77, ok 0, ok 0,
     (ok 1)\<lparr>r_rset := [3]\<rparr>, ok 6, ok 1, ok 0, (ok 1)\<lparr>r_rset := [4]\<rparr>, okdata nul]"

definition child_run05 :: "sysret list" where
  "child_run05 = [ok 77, (okdata nul)\<lparr>r_rset := [16, SOL_SOCKET, SCM_RIGHTS, 6]\<rparr>, okdata [], ok 0, ok 1]"

definition log05 :: "(syscall \<times> sysret) list" where
  "log05 = zip [SysOther ''malloc'' [16] [], SysOther ''calloc'' [1, 24] [], SysOther ''socketpair'' [1, 1, 0] [],
     SysFork, SysClose 5, SysOther ''sigaction'' [2, 2] [''sig_int''], SysSelect 5 [3, 4] [] None, SysAccept 3,
     SysOther ''sendmsg'' [4, 16, 65535, 1, 6] [nul], SysClose 6, SysSelect 5 [4] [] None, SysRead 4 1] run05"

lemma log05_run: "trace (snd (bind (serv05_init [] 3 16 1) (loop (serv05_body 3)) (start run05))) = log05"
  by code_simp

lemma child_run05_facts:
  "answers (trace (snd (child05_main result (start child_run05)))) = (1, 1)"
  "fresh (trace (snd (child05_main result (start child_run05))))"
  "trace (snd (child05_main result (start []))) = []"
  by code_simp+

lemma served05: "served_by_children log05"
  unfolding served_by_children_def
proof (intro allI)
  fix k p
  have "reads p (take k log05) \<le> 1 \<and> reads p (take k log05) \<le> sends p (take k log05)"
    by (simp add: log05_def run05_def reads_def sends_def ret_defs nul_def take_Cons split: nat.split)
  then have "reads p (take k log05) = 0 \<or> reads p (take k log05) = 1 \<and> 1 \<le> sends p (take k log05)" by linarith
  moreover have "child_log (trace (snd (child05_main (replicate MAXN CHR ''x'') (start rs))))" for rs
    by (auto simp: child_log_def intro!: exI [of _ "replicate MAXN CHR ''x''"])
  ultimately show "\<exists>c. child_log c \<and> fresh c \<and> reads p (take k log05) \<le> snd (answers c) \<and>
      fst (answers c) \<le> sends p (take k log05)"
    using child_run05_facts [of "replicate MAXN CHR ''x''"]
    by (metis answers_def foldl_Nil fresh_def fst_conv le_numeral_extra(3) le_refl snd_conv zero_le)
qed

lemma init05: "fst (serv05_init [] 3 16 1 (start run05)) = Val \<lparr>cptr = [\<lparr>child_pid = 77, child_pipefd = 4,
    child_status = 0, child_count = 0\<rparr>], navail = 1, masterset = [3, 4], maxfd = 4\<rparr>"
  by code_simp

subsection \<open>Properties\<close>

lemma wp_serv05_rounds:
  assumes "prefork_inv l n st w"
  shows "wp (iterate k (serv05_body l) st) (yields (prefork_inv l n)) w"
proof -
  have "wp (iterate k (serv05_body l) st) (yields ((\<lambda>_. prefork_inv l n) (0 + k))) w"
  proof (rule wp_iterate)
    fix j s w1 assume "prefork_inv l n s w1"
    then show "wp (serv05_body l s) (yields (\<lambda>v w'. case v of Inl s' \<Rightarrow> prefork_inv l n s' w' | Inr _ \<Rightarrow> True)) w1"
      by (intro wp_conseq [OF wp_serv05_body]) (auto simp: ends_def yields_def split: res.splits)
  qed (rule assms)
  then show ?thesis by simp
qed

text \<open>C20: the table of serv05.c: after any number of turns of the loop, \<open>navail\<close> is the number of children that
  are marked idle, and the children marked busy are those whose pipe has carried a descriptor
  that was not answered yet, provided every byte read answered a descriptor.\<close>

theorem serv05_table:
  "wp (serv05_init result l alen (int n)) (yields (\<lambda>st w. distinct (l # pipe_fds st) \<longrightarrow>
     wp (iterate k (serv05_body l) st) (yields (prefork_inv l n)) w)) (start rs)"
  by (rule yields_conseq [OF wp_serv05_init]) (intro impI wp_serv05_rounds made_all)

theorem serv05_table_witness:
  "\<exists>st w. serv05_init [] 3 16 1 (start run05) = (Val st, w) \<and> distinct (3 # pipe_fds st) \<and>
     wp (iterate 2 (serv05_body 3) st) (yields (prefork_inv 3 1)) w"
proof -
  obtain w where "serv05_init [] 3 16 1 (start run05) = (Val \<lparr>cptr = [\<lparr>child_pid = 77, child_pipefd = 4,
      child_status = 0, child_count = 0\<rparr>], navail = 1, masterset = [3, 4], maxfd = 4\<rparr>, w)"
    using init05 by (metis prod.collapse)
  then show ?thesis
    using serv05_table [of "[]" 3 16 1 2 run05] by (simp add: wp_def pipe_fds_def)
qed

text \<open>C19: parent and children together: when the other end of every pipe is a run of child05.c,
  serv05.c calls \<open>accept\<close> only while a child is idle, so that it never ends with ``no
  available children'', and never passes a descriptor to a child that still has one; this holds at every point where the parent can stop.\<close>

theorem serv05_careful:
  "wp (serv05_init result l alen (int n)) (yields (\<lambda>st w. distinct (l # pipe_fds st) \<longrightarrow>
     wp (loop (serv05_body l) st) (ends (\<lambda>_ _. False) (\<lambda>w'. served_by_children (trace w') \<longrightarrow> careful05 n w')) w))
     (start rs)"
proof (rule yields_conseq [OF wp_serv05_init], rule impI)
  fix st w
  assume "made_so_far l n n st w" "distinct (l # pipe_fds st)"
  from wp_serv05_loop [OF made_all [OF this]]
  show "wp (loop (serv05_body l) st) (ends (\<lambda>_ _. False) (\<lambda>w'. served_by_children (trace w') \<longrightarrow> careful05 n w')) w"
    by (rule wp_conseq) (auto simp: ends_def dest: served_honest split: res.splits)
qed

theorem serv05_careful_witness:
  "\<exists>st w r w'. serv05_init [] 3 16 1 (start run05) = (Val st, w) \<and> distinct (3 # pipe_fds st) \<and>
     loop (serv05_body 3) st w = (r, w') \<and> trace w' = log05 \<and> served_by_children log05 \<and> careful05 1 w'"
proof -
  obtain w where init: "serv05_init [] 3 16 1 (start run05) = (Val \<lparr>cptr = [\<lparr>child_pid = 77, child_pipefd = 4,
      child_status = 0, child_count = 0\<rparr>], navail = 1, masterset = [3, 4], maxfd = 4\<rparr>, w)" (is "_ = (Val ?st, w)")
    using init05 by (metis prod.collapse)
  obtain r w' where run: "loop (serv05_body 3) ?st w = (r, w')" by (cases "loop (serv05_body 3) ?st w")
  have log: "trace w' = log05" using log05_run init run by (simp add: bind_def)
  have "wp (loop (serv05_body 3) ?st) (ends (\<lambda>_ _. False) (\<lambda>w'. served_by_children (trace w') \<longrightarrow> careful05 1 w')) w"
    using serv05_careful [of "[]" 3 16 1 run05] by (simp add: wp_def [of "serv05_init [] 3 16 1"] init pipe_fds_def)
  then have "careful05 1 w'" using served05 log by (auto simp: wp_def run ends_def split: res.splits)
  then show ?thesis using init run log served05 by (auto simp: pipe_fds_def)
qed

text \<open>C21: child05.c never answers more often than it got a message, at every point where it can
  stop, as long as the system does not give it a descriptor with the number of the pipe.\<close>

theorem child05_answers:
  assumes "MAXN \<le> length result"
  shows "wp (child05_main result) (ends (\<lambda>_ _. False) (\<lambda>w'. fresh (trace w') \<longrightarrow>
    snd (answers (trace w')) \<le> fst (answers (trace w')))) (start rs)"
  using wp_child05_main [OF assms] unfolding child_totals .

theorem child05_answers_witness:
  "\<exists>c. trace (snd (child05_main (replicate MAXN CHR ''x'') (start child_run05))) = c \<and> fresh c \<and> answers c = (1, 1) \<and>
     snd (answers c) \<le> fst (answers c)"
  using child05_answers [of "replicate MAXN CHR ''x''" child_run05] child_run05_facts [of "replicate MAXN CHR ''x''"]
  by (auto simp: wp_def ends_def split: prod.splits res.splits)

end
