(* ===== verification/Spec2Isabelle.thy ===== *)
theory Spec2Isabelle
  imports Inet4 Inet6 Cksum Posix Wrappers StreamIO SockAddr Connect ChatServer Rtt
    Mcast Sigio Prodcons Prethread WebThreads
    SelectCli Lab2 Lab3Client Lab4 Gai Icmp Ping Icmpd
    Pthreads WebChild Server Prefork
begin

text \<open>
  A verification development for the sources of UNIX Network Programming (src/Lab2017) and
  the course programs built on them (src/Lab2, src/Lab3, src/Lab4).

  \<^bold>\<open>The system.\<close>  src/Lab2017/lib is the library all programs are linked with: error
  handling, wrappers of the system calls, reading and writing byte streams, socket addresses,
  connecting and listening, multicast options, the round-trip estimator.  src/Lab2017/libfree
  and src/Lab2017/libgai replace functions a system may lack (address conversion, checksum,
  \<open>getaddrinfo\<close>, \<open>getnameinfo\<close>).  The other directories are the example programs, each an application
  protocol or a server design on top of the library; the labs are the students' programs.

  \<^bold>\<open>How the code is modelled.\<close>  Pure functions (conversions, checksum, estimator, address
  comparison) are HOL functions, on machine words where the width matters.  Code that calls
  the system is in the monad of Posix: a run takes the answers of the system from a script and
  records each call with its answer in a trace; it returns a value, exits with a status, waits
  (the script is empty or its next answer is none that the call can give) or reaches undefined
  behaviour (an access outside an array, an overrun buffer, a read of an uninitialised
  variable).  A theorem that holds for every world holds for every behaviour of the system.
  Signal handlers and threads are step relations over places in the code (Sigio, Prodcons,
  Prethread, WebThreads): one step is what happens between two accesses to shared data.

  The configuration is the one the repository was configured for (config.h): little endian,
  IPv4, IPv6 and Unix domain sockets, \<open>sockaddr_dl\<close>.  \<open>MAXLINE\<close> and the other constants have
  the values of lib/unp.h; constants of the system headers have the values of that system.

  \<^bold>\<open>The theories.\<close>

  \<^item> Unp_Prelude: constants, characters, printing and reading of numbers, byte order.
  \<^item> Inet4, Inet6: libfree/inet_pton.c, inet_ntop.c, inet_aton.c and the IPv4-only variants.
    Equivalence of the scanner with a field-wise parser, the text printed and its length, the
    choice of the abbreviated run of zeros, the round trip of both families.
  \<^item> Cksum: libfree/in_cksum.c against the one's complement sum.
  \<^item> Posix: the monad, its weakest preconditions and triples, and loops.  A loop is run with
    the length of the script as fuel; the locale \<open>consuming\<close> states that an iteration that
    goes on has taken an answer, and proves that the fuel never ends the loop, that the loop
    satisfies its unfolding, and the invariant rules.  Every loop of the model interprets it.
  \<^item> Wrappers: lib/error.c, signal.c, wrapunix.c, wrapsock.c, wrapstdio.c, wraplib.c.
  \<^item> StreamIO: readn, writen, the line readers and the echo loops.  The locale
    \<open>byte_source\<close> is the contract of a function that gives the next byte; the line readers are
    proved once from it and it is interpreted by the buffered and the unbuffered source.
  \<^item> SockAddr, Connect, Mcast: the functions of lib/ on socket addresses, on connecting and
    listening (the locale \<open>address_try\<close>: what is tried on a socket keeps the set of open
    descriptors), and on multicast options.
  \<^item> Gai: libgai, \<open>getaddrinfo\<close> and \<open>getnameinfo\<close>.  Every allocation may fail; the blocks a
    process holds are computed from its trace.  On an error only the copy of a canonical name is
    lost, but for a Unix path everything.  The answers of \<open>getaddrinfo\<close> that Connect is
    proved against are those this implementation gives.
  \<^item> Double: the C type \<open>double\<close> with its rounding, as far as ping computes with it.
  \<^item> Icmp, Ping, Icmpd: packets as bytes; ping/ (requests, replies, the round-trip time); icmpd/,
    the daemon that passes ICMP errors on to the programs they concern: its table, set and descriptors
    agree in every round, and an error reaches exactly the clients registered for it.
  \<^item> Rtt: lib/rtt.c and rtt/dg_send_recv.c; the estimator and the timer in exact numbers.
  \<^item> SelectCli: select/strcliselect01.c, strcliselect02.c and nonblock/strclinonb.c.
  \<^item> RingBuffer: a bounded first-in first-out queue as a locale (\<open>fifo\<close>) with what its
    history proves; interpreted by the rings of Sigio (sigio/dgecho01.c), Prodcons
    (threads/example03.c) and Prethread (server/serv08.c and pthread08.c).
  \<^item> Pthreads: lib/wrappthread.c.
  \<^item> WebChild: server/web_child.c and web_child_r.c, the request handler of all the servers of
    server/.  The locale \<open>line_reader\<close> is the contract of the function that reads a request; it
    is interpreted by the three readers of StreamIO.  A client gets the bytes it asked for, and well-formed requests are served to the
    end.
  \<^item> Server: serv00.c to serv04.c with their children, locks and clients.  The locale \<open>bracket\<close>
    is what a child does around \<open>accept\<close>, \<open>lock\<close> extends it; interpreted by nothing at all, by \<open>select\<close>, by the
    file lock and by the mutex.  A process serves whole connections one after the other, and
    accepts only under the lock.
  \<^item> Prefork: serv05.c and child05.c, which pass connections over pipes: the parent's table is
    right as long as the children keep the protocol, and they do.
  \<^item> WebThreads: the main loop and the synchronisation of threads/web02.c and web03.c.
  \<^item> ChatServer, Lab2, Lab3Client, Lab4: the programs of the labs.

  \<^bold>\<open>Bounds and fuel.\<close>  Besides the loops above only \<open>serve_chatters\<close> (ChatServer) has fuel,
  the number of chatters at the start; that it does not run out is part of the theorem on a
  round of the server.

  \<^bold>\<open>What is simplified.\<close>  Each is stated again where it matters.  The \<open>float\<close>s of lib/rtt.c are
  exact rationals.  \<open>atoi\<close> of a number that does not fit an \<open>int\<close> is that number and not
  undefined.  An uninitialised address that is only printed or compared is an arbitrary value.
  \<open>SIGPIPE\<close> does not end a process: a write to a closed connection is an answer like any other.
  A descriptor that is put in an \<open>fd_set\<close> is taken to be below \<open>FD_SETSIZE\<close>, except in ChatServer,
  Icmpd and Prefork, where it is checked.  The mutex and the conditions of threads/example03.c, which are only
  zeroed, are taken as initialised.

  \<^bold>\<open>Not modelled.\<close>  The system itself: its calls and the C library are the script.  Text that
  \<open>printf\<close> prints is modelled where a property depends on it.  The remaining example programs
  of src/Lab2017 and the parts of lib/ that walk over the kernel's interface tables are listed
  in the manifest with the reason.
\<close>

end
